(* ===== verification/Prelude.thy ===== *)
theory Prelude
  imports Main "HOL-Library.AList"
begin

text \<open>
  What every component of the development shares: the model of a JavaScript
  \<open>Map\<close> (insertion-ordered association lists), results that may be a thrown error
  (\<open>'e + 'a\<close>, \<open>Inl\<close> is the throw), and the collections of simplification rules the
  component theories draw on.
\<close>

named_theorems jmap "lookup laws of the insertion-ordered map"
named_theorems state_invs "preservation lemmas of the component invariants"

section \<open>Results\<close>

type_synonym ('e, 'a) res = "'e + 'a"

text \<open>Sequencing of two computations, the second skipped when the first throws.\<close>

fun rbind :: "('e, 'a) res \<Rightarrow> ('a \<Rightarrow> ('e, 'b) res) \<Rightarrow> ('e, 'b) res" where
  "rbind (Inl e) f = Inl e"
| "rbind (Inr a) f = f a"

definition guard_res :: "bool \<Rightarrow> 'e \<Rightarrow> ('e, unit) res" where
  "guard_res b e = (if b then Inr () else Inl e)"

lemma rbind_Inr_iff [simp]: "rbind r f = Inr b \<longleftrightarrow> (\<exists>a. r = Inr a \<and> f a = Inr b)"
  by (cases r) auto

lemma rbind_Inl_iff: "rbind r f = Inl e \<longleftrightarrow> r = Inl e \<or> (\<exists>a. r = Inr a \<and> f a = Inl e)"
  by (cases r) auto

lemma guard_res_Inr [simp]: "guard_res b e = Inr u \<longleftrightarrow> b"
  by (auto simp: guard_res_def)

lemma guard_res_Inl [simp]: "guard_res b e = Inl e' \<longleftrightarrow> \<not> b \<and> e' = e"
  by (auto simp: guard_res_def)

lemma guard_res_simps [simp]: "guard_res True e = Inr ()" "guard_res False e = Inl e"
  by (simp_all add: guard_res_def)

text \<open>Loops that stop at the first throw: for effect, and collecting results.\<close>

fun all_res :: "('a \<Rightarrow> ('e, unit) res) \<Rightarrow> 'a list \<Rightarrow> ('e, unit) res" where
  "all_res f [] = Inr ()"
| "all_res f (x # xs) = rbind (f x) (\<lambda>_. all_res f xs)"

fun map_res :: "('a \<Rightarrow> ('e, 'b) res) \<Rightarrow> 'a list \<Rightarrow> ('e, 'b list) res" where
  "map_res f [] = Inr []"
| "map_res f (x # xs) = rbind (f x) (\<lambda>y. rbind (map_res f xs) (\<lambda>ys. Inr (y # ys)))"

fun fold_res :: "('a \<Rightarrow> 's \<Rightarrow> ('e, 's) res) \<Rightarrow> 'a list \<Rightarrow> 's \<Rightarrow> ('e, 's) res" where
  "fold_res f [] s = Inr s"
| "fold_res f (x # xs) s = rbind (f x s) (fold_res f xs)"

lemma fold_res_append: "fold_res f (xs @ ys) s = rbind (fold_res f xs s) (fold_res f ys)"
proof (induction xs arbitrary: s)
  case (Cons x xs)
  then show ?case by (cases "f x s") auto
qed simp

lemma all_res_Inr [simp]: "all_res f xs = Inr () \<longleftrightarrow> (\<forall>x \<in> set xs. f x = Inr ())"
  by (induction xs) auto

lemma map_res_Inr: "(\<And>x. x \<in> set xs \<Longrightarrow> f x = Inr (h x)) \<Longrightarrow> map_res f xs = Inr (map h xs)"
  by (induction xs) auto

lemma map_res_set: "map_res f xs = Inr ys \<Longrightarrow> length ys = length xs \<and> (\<forall>y \<in> set ys. \<exists>x \<in> set xs. f x = Inr y)"
  by (induction xs arbitrary: ys) fastforce+

section \<open>JavaScript maps\<close>

text \<open>
  A JavaScript \<open>Map\<close> iterates in insertion order. \<open>set\<close> on a present key keeps its
  position, on a new key appends; \<open>delete\<close> removes the entry. The association list
  with \<open>AList.update\<close> and \<open>AList.delete\<close> is exactly that.
\<close>

type_synonym ('k, 'v) jmap = "('k \<times> 'v) list"

abbreviation jget :: "('k, 'v) jmap \<Rightarrow> 'k \<Rightarrow> 'v option" where
  "jget m k \<equiv> map_of m k"

abbreviation jset :: "'k \<Rightarrow> 'v \<Rightarrow> ('k, 'v) jmap \<Rightarrow> ('k, 'v) jmap" where
  "jset k v m \<equiv> AList.update k v m"

abbreviation jdel :: "'k \<Rightarrow> ('k, 'v) jmap \<Rightarrow> ('k, 'v) jmap" where
  "jdel k m \<equiv> AList.delete k m"

abbreviation jhas :: "('k, 'v) jmap \<Rightarrow> 'k \<Rightarrow> bool" where
  "jhas m k \<equiv> map_of m k \<noteq> None"

abbreviation jkeys :: "('k, 'v) jmap \<Rightarrow> 'k list" where
  "jkeys m \<equiv> map fst m"

abbreviation jvals :: "('k, 'v) jmap \<Rightarrow> 'v list" where
  "jvals m \<equiv> map snd m"

definition jok :: "('k, 'v) jmap \<Rightarrow> bool" where
  "jok m \<longleftrightarrow> distinct (jkeys m)"

lemma jok_Nil [simp, intro]: "jok []"
  by (simp add: jok_def)

lemma jok_set [simp, intro]: "jok m \<Longrightarrow> jok (jset k v m)"
  by (simp add: jok_def distinct_update)

lemma jok_del [simp, intro]: "jok m \<Longrightarrow> jok (jdel k m)"
  by (simp add: jok_def distinct_delete)

lemma jget_set [simp, jmap]: "jget (jset k v m) k' = (if k' = k then Some v else jget m k')"
  by (simp add: update_conv')

lemma jget_del [simp, jmap]: "jget (jdel k m) k' = (if k' = k then None else jget m k')"
  by (simp add: delete_conv')

lemma jset_new: "jget m k = None \<Longrightarrow> jset k v m = m @ [(k, v)]"
  by (induction m) auto

lemma length_jset: "length (jset k v m) = (if jhas m k then length m else Suc (length m))"
  by (induction m) auto

lemma length_jdel: "jok m \<Longrightarrow> length (jdel k m) = (if jhas m k then length m - 1 else length m)"
proof (induction m)
  case Nil
  then show ?case by simp
next
  case (Cons p m)
  then have "jok m" by (simp add: jok_def)
  moreover have "fst p = k \<Longrightarrow> jget m k = None"
    using Cons.prems by (auto simp: jok_def map_of_eq_None_iff)
  ultimately show ?case
    using Cons.IH by (cases m) (auto split: if_splits)
qed

lemma length_jdel_le: "length (jdel k m) \<le> length m"
  by (rule length_delete_le)

lemma jget_None_iff: "jget m k = None \<longleftrightarrow> k \<notin> set (jkeys m)"
  by (auto simp: map_of_eq_None_iff)

lemma jkeys_set: "jkeys (jset k v m) = (if jhas m k then jkeys m else jkeys m @ [k])"
  by (induction m) auto

lemma jkeys_set_mem [simp]: "set (jkeys (jset k v m)) = insert k (set (jkeys m))"
  by (auto simp: dom_map_of_conv_image_fst[symmetric] dom_def image_iff split: if_splits)

lemma jkeys_del: "jkeys (jdel k m) = filter (\<lambda>k'. k' \<noteq> k) (jkeys m)"
  by (induction m) auto

lemma jget_mem: "jget m k = Some v \<Longrightarrow> (k, v) \<in> set m"
  by (rule map_of_SomeD)

lemma jget_val_mem: "jget m k = Some v \<Longrightarrow> v \<in> set (jvals m)"
  by (force dest: map_of_SomeD)

lemma jget_of_mem: "jok m \<Longrightarrow> (k, v) \<in> set m \<Longrightarrow> jget m k = Some v"
  by (simp add: jok_def)

lemma jset_mem: "(k', v') \<in> set (jset k v m) \<Longrightarrow> (k', v') = (k, v) \<or> (k', v') \<in> set m"
  by (induction m) (auto split: if_splits)

lemma jdel_mem: "x \<in> set (jdel k m) \<Longrightarrow> x \<in> set m"
  by (auto simp: AList.delete_eq)

subsection \<open>The store interface the in-memory adapters share\<close>

text \<open>
  Every in-memory adapter keeps its records in one or more maps. What its correctness
  uses of a map is this interface, not the list under it.
\<close>

locale record_store =
  fixes get :: "'m \<Rightarrow> 'k \<Rightarrow> 'v option"
    and put :: "'k \<Rightarrow> 'v \<Rightarrow> 'm \<Rightarrow> 'm"
    and del :: "'k \<Rightarrow> 'm \<Rightarrow> 'm"
    and size :: "'m \<Rightarrow> nat"
    and ok :: "'m \<Rightarrow> bool"
  assumes get_put: "get (put k v m) k' = (if k' = k then Some v else get m k')"
    and get_del: "get (del k m) k' = (if k' = k then None else get m k')"
    and size_put: "ok m \<Longrightarrow> size (put k v m) = (if get m k = None then Suc (size m) else size m)"
    and size_del: "ok m \<Longrightarrow> size (del k m) = (if get m k = None then size m else size m - 1)"
    and size_pos: "get m k \<noteq> None \<Longrightarrow> 0 < size m"
    and ok_put: "ok m \<Longrightarrow> ok (put k v m)"
    and ok_del: "ok m \<Longrightarrow> ok (del k m)"
begin

lemma put_bounded:
  assumes "ok m" "size m \<le> n" "get m k = None \<Longrightarrow> size m < n"
  shows "size (put k v m) \<le> n"
  using assms by (auto simp: size_put)

lemma move_keeps_size:
  assumes "ok m" "get m k = Some v" "get m k' = None"
  shows "size (put k' v' (del k m)) = size m"
  using assms size_pos[of m k] by (auto simp: size_put size_del ok_del get_del)

lemma touch_keeps_size:
  assumes "ok m" "get m k = Some v"
  shows "size (put k v' (del k m)) = size m"
  using assms size_pos[of m k] by (auto simp: size_put size_del ok_del get_del)

lemma touch_get: "get m k = Some v \<Longrightarrow> get (put k v (del k m)) = get m"
  by (rule ext) (simp add: get_put get_del)

end

interpretation js_map: record_store "\<lambda>m. jget m" "\<lambda>k v m. jset k v m" "\<lambda>k m. jdel k m" length jok
  by unfold_locales (auto simp: length_jset length_jdel)

section \<open>Lists\<close>

text \<open>\<open>dedup_by\<close> keeps the first element of each key, as a \<open>seen\<close> set in a loop does.\<close>

fun dedup_acc :: "'a list \<Rightarrow> 'a list \<Rightarrow> 'a list" where
  "dedup_acc seen [] = []"
| "dedup_acc seen (x # xs) =
     (if x \<in> set seen then dedup_acc seen xs else x # dedup_acc (x # seen) xs)"

lemma set_dedup_acc: "set (dedup_acc seen xs) = set xs - set seen"
  by (induction seen xs rule: dedup_acc.induct) auto

lemma distinct_dedup_acc: "distinct (dedup_acc seen xs)"
  by (induction seen xs rule: dedup_acc.induct) (auto simp: set_dedup_acc)

section \<open>Searching\<close>

lemma find_SomeD: "List.find P xs = Some x \<Longrightarrow> x \<in> set xs \<and> P x"
  by (induction xs) (auto split: if_splits)

end
