(* ===== verification/Js_Objects.thy ===== *)
theory Js_Objects
  imports Complex_Main Prelude
begin

text \<open>
  JavaScript numbers and objects as the guards of the kit see them: own properties with
  their descriptors, the prototype class an object belongs to, arrays, functions by
  reference. Objects are values (no identity), so graphs with sharing or cycles are
  outside this model; \<open>'f\<close> is the type of function references.
\<close>

section \<open>Numbers\<close>

datatype js_num = Num rat | NaN | PosInfinity | NegInfinity

definition max_safe_integer :: int where
  "max_safe_integer = 9007199254740991"

fun is_safe_integer :: "js_num \<Rightarrow> bool" where
  "is_safe_integer (Num q) \<longleftrightarrow>
     of_int \<lfloor>q\<rfloor> = q \<and> - max_safe_integer \<le> \<lfloor>q\<rfloor> \<and> \<lfloor>q\<rfloor> \<le> max_safe_integer"
| "is_safe_integer _ \<longleftrightarrow> False"

fun is_finite :: "js_num \<Rightarrow> bool" where
  "is_finite (Num q) = True"
| "is_finite _ = False"

section \<open>Objects\<close>

datatype pkey = KStr string | KSym string

text \<open>
  The prototype of an object: an intrinsic \<open>Object.prototype\<close> (of any realm), none, or
  anything else (a class instance).
\<close>

datatype proto = ObjectProto | NullProto | OtherProto

text \<open>
  \<open>VArr intrinsic tag entries\<close>: whether its prototype is an intrinsic \<open>Array.prototype\<close>,
  whether \<open>Symbol.toStringTag\<close> resolves to an accessor, the own properties but \<open>length\<close>.
  \<open>VObj proto builtin tag entries\<close>: the prototype, whether it is a brand-verified built-in
  (a \<open>Date\<close>, a \<open>Map\<close>, a buffer view, ...), the tag flag, the own properties in order.
\<close>

datatype 'f jsv =
    VUndef | VNull | VBool bool | VNum js_num | VBig int | VStr string | VSym string
  | VFun 'f
  | VArr bool bool "(pkey \<times> 'f desc) list"
  | VObj proto bool bool "(pkey \<times> 'f desc) list"
and 'f desc = DData "'f jsv" bool | DAccessor bool

abbreviation plain_obj :: "(pkey \<times> 'f desc) list \<Rightarrow> 'f jsv" where
  "plain_obj es \<equiv> VObj ObjectProto False False es"

fun own_desc :: "'f jsv \<Rightarrow> pkey \<Rightarrow> 'f desc option" where
  "own_desc (VObj p b t es) k = map_of es k"
| "own_desc (VArr i t es) k = map_of es k"
| "own_desc _ k = None"

fun own_keys :: "'f jsv \<Rightarrow> pkey list" where
  "own_keys (VObj p b t es) = map fst es"
| "own_keys (VArr i t es) = map fst es"
| "own_keys _ = []"

fun enumerable :: "'f desc \<Rightarrow> bool" where
  "enumerable (DData v e) = e"
| "enumerable (DAccessor e) = e"

fun is_accessor :: "'f desc \<Rightarrow> bool" where
  "is_accessor (DData v e) = False"
| "is_accessor (DAccessor e) = True"

text \<open>\<open>Object.keys\<close>: own enumerable string keys, in order.\<close>

fun string_key :: "pkey \<Rightarrow> string list" where
  "string_key (KStr s) = [s]"
| "string_key (KSym s) = []"

definition object_keys :: "'f jsv \<Rightarrow> string list" where
  "object_keys v = concat (map (\<lambda>k. case own_desc v k of
      Some d \<Rightarrow> if enumerable d then string_key k else [] | None \<Rightarrow> []) (own_keys v))"

definition has_own :: "'f jsv \<Rightarrow> string \<Rightarrow> bool" where
  "has_own v k \<longleftrightarrow> own_desc v (KStr k) \<noteq> None"

text \<open>Reading a property whose owner is known to hold plain data.\<close>

definition prop_val :: "'f jsv \<Rightarrow> string \<Rightarrow> 'f jsv" where
  "prop_val v k = (case own_desc v (KStr k) of Some (DData x e) \<Rightarrow> x | _ \<Rightarrow> VUndef)"

fun is_array :: "'f jsv \<Rightarrow> bool" where
  "is_array (VArr _ _ _) = True"
| "is_array _ = False"

fun is_function :: "'f jsv \<Rightarrow> bool" where
  "is_function (VFun f) = True"
| "is_function _ = False"

fun is_string :: "'f jsv \<Rightarrow> bool" where
  "is_string (VStr s) = True"
| "is_string _ = False"

fun is_boolean :: "'f jsv \<Rightarrow> bool" where
  "is_boolean (VBool b) = True"
| "is_boolean _ = False"

fun isRecord :: "'f jsv \<Rightarrow> bool" where
  "isRecord (VObj _ _ _ _) = True"
| "isRecord _ = False"

fun isPlainRecord :: "'f jsv \<Rightarrow> bool" where
  "isPlainRecord (VObj p _ _ _) \<longleftrightarrow> p = NullProto \<or> p = ObjectProto"
| "isPlainRecord _ \<longleftrightarrow> False"

fun str_val :: "'f jsv \<Rightarrow> string" where
  "str_val (VStr s) = s"
| "str_val _ = []"

fun fun_val :: "'f jsv \<Rightarrow> 'f option" where
  "fun_val (VFun f) = Some f"
| "fun_val _ = None"

section \<open>Decimal digits\<close>

definition digit_char :: "nat \<Rightarrow> char" where
  "digit_char d = char_of (48 + d)"

definition is_digit :: "char \<Rightarrow> bool" where
  "is_digit c \<longleftrightarrow> 48 \<le> (of_char c :: nat) \<and> (of_char c :: nat) \<le> 57"

definition digit_val :: "char \<Rightarrow> nat" where
  "digit_val c = of_char c - 48"

text \<open>\<open>n.toString()\<close> of a non-negative bigint.\<close>

fun nat_str :: "nat \<Rightarrow> string" where
  "nat_str n = (if n < 10 then [digit_char n] else nat_str (n div 10) @ [digit_char (n mod 10)])"

declare nat_str.simps [simp del]

definition padStart :: "nat \<Rightarrow> char \<Rightarrow> string \<Rightarrow> string" where
  "padStart n c s = replicate (n - length s) c @ s"

definition digits_val :: "string \<Rightarrow> nat" where
  "digits_val s = foldl (\<lambda>acc c. 10 * acc + digit_val c) 0 s"

lemma of_digit_char: "d < 10 \<Longrightarrow> (of_char (digit_char d) :: nat) = 48 + d"
  by (simp add: digit_char_def)

lemma digit_val_char [simp]: "d < 10 \<Longrightarrow> digit_val (digit_char d) = d"
  by (simp add: digit_val_def of_digit_char)

lemma is_digit_char [simp]: "d < 10 \<Longrightarrow> is_digit (digit_char d)"
  by (simp add: is_digit_def of_digit_char)

lemma is_digit_zero [simp]: "is_digit CHR ''0''" "digit_val CHR ''0'' = 0"
  by (simp_all add: is_digit_def digit_val_def)

lemma not_digit [simp]: "\<not> is_digit CHR ''.''" "\<not> is_digit CHR ''-''"
  by (simp_all add: is_digit_def)

lemma digit_not_minus: "is_digit c \<Longrightarrow> c \<noteq> CHR ''-''"
  by auto

lemma nat_str_ne [simp]: "nat_str n \<noteq> []"
  by (subst nat_str.simps) simp

lemma nat_str_digits: "list_all is_digit (nat_str n)"
proof (induction n rule: nat_str.induct)
  case (1 n)
  then show ?case by (subst nat_str.simps) simp
qed

lemma digits_val_snoc: "digits_val (s @ [c]) = 10 * digits_val s + digit_val c"
  by (simp add: digits_val_def)

lemma digits_val_nat_str: "digits_val (nat_str n) = n"
proof (induction n rule: nat_str.induct)
  case (1 n)
  show ?case
  proof (cases "n < 10")
    case True
    then show ?thesis by (subst nat_str.simps) (simp add: digits_val_def)
  next
    case False
    with 1 show ?thesis by (subst nat_str.simps) (simp add: digits_val_snoc)
  qed
qed

lemma digits_val_zeros: "digits_val (replicate k CHR ''0'' @ s) = digits_val s"
  by (induction k) (simp_all add: digits_val_def)

lemma length_nat_str: "0 < k \<Longrightarrow> n < 10 ^ k \<Longrightarrow> length (nat_str n) \<le> k"
proof (induction n arbitrary: k rule: nat_str.induct)
  case (1 n)
  show ?case
  proof (cases "n < 10")
    case True
    with 1 show ?thesis by (subst nat_str.simps) simp
  next
    case False
    with "1.prems" have "k \<noteq> 1" by auto
    with "1.prems" obtain j where k: "k = Suc j" "0 < j"
      by (cases k) auto
    with "1.prems" have "n div 10 < 10 ^ j" by (simp add: less_mult_imp_div_less mult.commute)
    with "1.IH" False k have "length (nat_str (n div 10)) \<le> j" by blast
    with False k show ?thesis by (subst nat_str.simps) simp
  qed
qed

lemma nat_str_inj: "nat_str n = nat_str m \<longleftrightarrow> n = m"
  by (metis digits_val_nat_str)

end
