(* ===== verification/Money.thy ===== *)
theory Money
  imports Js_Objects "HOL-Library.Signed_Division"
begin

text \<open>
  Exact money (src/money): the value with its runtime guards, arithmetic, decimal
  parsing and rendering, the wire DTO, calculation-library snapshots, the non-throwing
  parsers and the factory. Amounts are JavaScript bigints, so \<open>int\<close>; numbers are
  rationals or one of the non-finite values; a value of type \<open>unknown\<close> is a \<open>jsval\<close>.
  Error messages are not modelled, error classes are.
\<close>

section \<open>Untyped JavaScript values\<close>

text \<open>Objects carry their own data properties; reading an absent one gives \<open>JUndef\<close>.\<close>

datatype jsval =
    JUndef | JNull | JBool bool | JNum js_num | JBig int | JStr string
  | JFun | JObj "(string \<times> jsval) list"

fun js_prop :: "(string \<times> jsval) list \<Rightarrow> string \<Rightarrow> jsval" where
  "js_prop [] k = JUndef"
| "js_prop ((k', v) # ps) k = (if k' = k then v else js_prop ps k)"

section \<open>Errors\<close>

datatype money_error =
    InvalidMoneyError
  | MoneyCurrencyMismatchError string string
  | MoneyScaleMismatchError nat nat
  | MoneyPrecisionLossError
  | UnknownCurrencyError string

section \<open>The value and its guards\<close>

record money =
  amountMinor :: int
  currency :: string
  scale :: nat

definition MONEY_AMOUNT_LIMIT :: int where "MONEY_AMOUNT_LIMIT = 10 ^ 96"
definition MAX_MONEY_SCALE :: nat where "MAX_MONEY_SCALE = 64"
definition MAX_CURRENCY_LENGTH :: nat where "MAX_CURRENCY_LENGTH = 32"
definition MAX_DTO_AMOUNT_LENGTH :: nat where "MAX_DTO_AMOUNT_LENGTH = 97"
definition MAX_INPUT_LENGTH :: nat where "MAX_INPUT_LENGTH = 256"

text \<open>The white space of the regular expression \<open>\\s\<close>, on code units below 256.\<close>

definition is_space :: "char \<Rightarrow> bool" where
  "is_space c \<longleftrightarrow> of_char c \<in> {9 :: nat, 10, 11, 12, 13, 32, 160}"

fun isValidAmount :: "jsval \<Rightarrow> bool" where
  "isValidAmount (JBig a) \<longleftrightarrow> a < MONEY_AMOUNT_LIMIT \<and> - MONEY_AMOUNT_LIMIT < a"
| "isValidAmount _ \<longleftrightarrow> False"

fun isValidCurrency :: "jsval \<Rightarrow> bool" where
  "isValidCurrency (JStr s) \<longleftrightarrow>
     0 < length s \<and> length s \<le> MAX_CURRENCY_LENGTH \<and> \<not> list_ex is_space s"
| "isValidCurrency _ \<longleftrightarrow> False"

fun isValidScale :: "jsval \<Rightarrow> bool" where
  "isValidScale (JNum (Num q)) \<longleftrightarrow>
     is_safe_integer (Num q) \<and> 0 \<le> q \<and> q \<le> of_nat MAX_MONEY_SCALE"
| "isValidScale _ \<longleftrightarrow> False"

definition assertValidScale :: "jsval \<Rightarrow> (money_error, unit) res" where
  "assertValidScale s = guard_res (isValidScale s) InvalidMoneyError"

definition assertValidCurrency :: "jsval \<Rightarrow> (money_error, unit) res" where
  "assertValidCurrency c = guard_res (isValidCurrency c) InvalidMoneyError"

fun num_nat :: "jsval \<Rightarrow> nat" where
  "num_nat (JNum (Num q)) = nat \<lfloor>q\<rfloor>"
| "num_nat _ = 0"

fun str_of :: "jsval \<Rightarrow> string" where
  "str_of (JStr s) = s"
| "str_of _ = []"

definition moneyOfMinor :: "jsval \<Rightarrow> jsval \<Rightarrow> jsval \<Rightarrow> (money_error, money) res" where
  "moneyOfMinor a c s =
     (case a of
        JBig n \<Rightarrow>
          if \<not> isValidAmount a then Inl InvalidMoneyError
          else rbind (assertValidCurrency c) (\<lambda>_.
               rbind (assertValidScale s) (\<lambda>_.
               Inr \<lparr>amountMinor = n, currency = str_of c, scale = num_nat s\<rparr>))
      | _ \<Rightarrow> Inl InvalidMoneyError)"

abbreviation jnat :: "nat \<Rightarrow> jsval" where
  "jnat n \<equiv> JNum (Num (of_nat n))"

text \<open>A \<open>Money\<close> is also an object; the structural guards read it as one.\<close>

definition money_obj :: "money \<Rightarrow> jsval" where
  "money_obj m = JObj [(''amountMinor'', JBig (amountMinor m)),
                       (''currency'', JStr (currency m)), (''scale'', jnat (scale m))]"

fun isMoney :: "jsval \<Rightarrow> bool" where
  "isMoney (JObj ps) \<longleftrightarrow>
     isValidAmount (js_prop ps ''amountMinor'') \<and> isValidCurrency (js_prop ps ''currency'') \<and>
     isValidScale (js_prop ps ''scale'')"
| "isMoney _ \<longleftrightarrow> False"

definition assertMoney :: "jsval \<Rightarrow> (money_error, unit) res" where
  "assertMoney v = guard_res (isMoney v) InvalidMoneyError"

definition moneyFromUnknown :: "jsval \<Rightarrow> (money_error, money) res" where
  "moneyFromUnknown v = rbind (assertMoney v) (\<lambda>_.
     (case v of
        JObj ps \<Rightarrow> moneyOfMinor (js_prop ps ''amountMinor'') (js_prop ps ''currency'')
                     (js_prop ps ''scale'')
      | _ \<Rightarrow> Inl InvalidMoneyError))"

definition moneyEquals :: "money \<Rightarrow> money \<Rightarrow> bool" where
  "moneyEquals a b \<longleftrightarrow>
     amountMinor a = amountMinor b \<and> currency a = currency b \<and> scale a = scale b"

definition isZeroMoney :: "money \<Rightarrow> bool" where "isZeroMoney m \<longleftrightarrow> amountMinor m = 0"
definition isPositiveMoney :: "money \<Rightarrow> bool" where "isPositiveMoney m \<longleftrightarrow> 0 < amountMinor m"
definition isNegativeMoney :: "money \<Rightarrow> bool" where "isNegativeMoney m \<longleftrightarrow> amountMinor m < 0"

section \<open>Decimal digits\<close>

definition int_str :: "int \<Rightarrow> string" where
  "int_str a = (if a < 0 then CHR ''-'' # nat_str (nat (- a)) else nat_str (nat a))"

text \<open>\<open>BigInt(s)\<close> on a string the caller has matched: an optional sign and digits.\<close>

fun big_int :: "string \<Rightarrow> int" where
  "big_int (c # s) = (if c = CHR ''-'' then - int (digits_val s) else int (digits_val (c # s)))"
| "big_int [] = 0"

text \<open>The regular expression of integer strings.\<close>

fun INTEGER_STRING :: "string \<Rightarrow> bool" where
  "INTEGER_STRING (c # s) \<longleftrightarrow>
     (if c = CHR ''-'' then s \<noteq> [] \<and> list_all is_digit s else list_all is_digit (c # s))"
| "INTEGER_STRING [] \<longleftrightarrow> False"

section \<open>The wire DTO\<close>

record money_dto =
  dto_amountMinor :: string
  dto_currency :: string
  dto_scale :: nat

definition moneyFromDto :: "jsval \<Rightarrow> (money_error, money) res" where
  "moneyFromDto dto =
     (case dto of
        JObj ps \<Rightarrow>
          (case js_prop ps ''amountMinor'' of
             JStr s \<Rightarrow>
               if MAX_DTO_AMOUNT_LENGTH < length s \<or> \<not> INTEGER_STRING s then Inl InvalidMoneyError
               else moneyOfMinor (JBig (big_int s)) (js_prop ps ''currency'') (js_prop ps ''scale'')
           | _ \<Rightarrow> Inl InvalidMoneyError)
      | _ \<Rightarrow> Inl InvalidMoneyError)"

definition moneyToDto :: "money \<Rightarrow> (money_error, money_dto) res" where
  "moneyToDto m = rbind (assertMoney (money_obj m)) (\<lambda>_.
     Inr \<lparr>dto_amountMinor = int_str (amountMinor m), dto_currency = currency m,
          dto_scale = scale m\<rparr>)"

definition dto_obj :: "money_dto \<Rightarrow> jsval" where
  "dto_obj d = JObj [(''amountMinor'', JStr (dto_amountMinor d)),
                     (''currency'', JStr (dto_currency d)), (''scale'', jnat (dto_scale d))]"

section \<open>Decimal rendering and parsing\<close>

definition padEnd :: "nat \<Rightarrow> char \<Rightarrow> string \<Rightarrow> string" where
  "padEnd n c s = s @ replicate (n - length s) c"

definition moneyToDecimalString :: "money \<Rightarrow> (money_error, string) res" where
  "moneyToDecimalString m = rbind (assertMoney (money_obj m)) (\<lambda>_.
     let negative = amountMinor m < 0;
         digits = nat_str (nat (if negative then - amountMinor m else amountMinor m));
         sign = (if negative then ''-'' else '''')
     in if scale m = 0 then Inr (sign @ digits)
        else let padded = padStart (scale m + 1) CHR ''0'' digits;
                 cut = length padded - scale m
             in Inr (sign @ take cut padded @ ''.'' @ drop cut padded))"

text \<open>
  The groups of the regular expression for decimal input: sign, whole part, fraction
  (empty when absent), or \<open>None\<close> when the string does not match.
\<close>

definition DECIMAL_INPUT :: "string \<Rightarrow> (string \<times> string \<times> string) option" where
  "DECIMAL_INPUT input =
     (let sign = (case input of c # _ \<Rightarrow> if c = CHR ''-'' then ''-'' else [] | [] \<Rightarrow> []);
          body = drop (length sign) input;
          whole = takeWhile is_digit body;
          rest = dropWhile is_digit body
      in if whole = [] then None
         else (case rest of
                 [] \<Rightarrow> Some (sign, whole, [])
               | c # fraction \<Rightarrow>
                   if c = CHR ''.'' \<and> fraction \<noteq> [] \<and> list_all is_digit fraction
                   then Some (sign, whole, fraction) else None))"

definition parseMoneyInput :: "jsval \<Rightarrow> jsval \<Rightarrow> jsval \<Rightarrow> (money_error, money) res" where
  "parseMoneyInput input cur sc = rbind (assertValidScale sc) (\<lambda>_.
     (case input of
        JStr s \<Rightarrow>
          if MAX_INPUT_LENGTH < length s then Inl InvalidMoneyError
          else (case DECIMAL_INPUT s of
             None \<Rightarrow> Inl InvalidMoneyError
           | Some (sign, whole, fraction) \<Rightarrow>
               if length fraction \<le> num_nat sc
               then moneyOfMinor (JBig (big_int (sign @ whole @ padEnd (num_nat sc) CHR ''0'' fraction)))
                      cur sc
               else if list_all (\<lambda>c. c = CHR ''0'') (drop (num_nat sc) fraction)
               then moneyOfMinor (JBig (big_int (sign @ whole @ take (num_nat sc) fraction))) cur sc
               else Inl MoneyPrecisionLossError)
      | _ \<Rightarrow> Inl InvalidMoneyError))"

section \<open>Arithmetic\<close>

definition assertSameUnit :: "money \<Rightarrow> money \<Rightarrow> (money_error, unit) res" where
  "assertSameUnit a b =
     (if currency a \<noteq> currency b then Inl (MoneyCurrencyMismatchError (currency a) (currency b))
      else if scale a \<noteq> scale b then Inl (MoneyScaleMismatchError (scale a) (scale b))
      else Inr ())"

definition addMoney :: "money \<Rightarrow> money \<Rightarrow> (money_error, money) res" where
  "addMoney a b = rbind (assertSameUnit a b) (\<lambda>_.
     moneyOfMinor (JBig (amountMinor a + amountMinor b)) (JStr (currency a)) (jnat (scale a)))"

definition subtractMoney :: "money \<Rightarrow> money \<Rightarrow> (money_error, money) res" where
  "subtractMoney a b = rbind (assertSameUnit a b) (\<lambda>_.
     moneyOfMinor (JBig (amountMinor a - amountMinor b)) (JStr (currency a)) (jnat (scale a)))"

definition negateMoney :: "money \<Rightarrow> (money_error, money) res" where
  "negateMoney m = moneyOfMinor (JBig (- amountMinor m)) (JStr (currency m)) (jnat (scale m))"

text \<open>Bigint \<open>/\<close> and \<open>%\<close> truncate towards zero: \<open>sdiv\<close> and \<open>smod\<close>.\<close>

definition rescaleMoney :: "money \<Rightarrow> jsval \<Rightarrow> (money_error, money) res" where
  "rescaleMoney m s = rbind (assertValidScale s) (\<lambda>_.
     if num_nat s = scale m then Inr m
     else if scale m < num_nat s
     then moneyOfMinor (JBig (amountMinor m * 10 ^ (num_nat s - scale m))) (JStr (currency m)) s
     else let factor = 10 ^ (scale m - num_nat s) in
       if amountMinor m smod factor \<noteq> 0 then Inl MoneyPrecisionLossError
       else moneyOfMinor (JBig (amountMinor m sdiv factor)) (JStr (currency m)) s)"

section \<open>Calculation-library snapshots\<close>

record money_snapshot =
  snap_amount :: int
  snap_code :: string
  snap_exponent :: nat
  snap_scale :: nat

definition toScaleNumber :: "jsval \<Rightarrow> (money_error, jsval) res" where
  "toScaleNumber v =
     (case v of
        JBig n \<Rightarrow> if is_safe_integer (Num (of_int n)) then Inr (JNum (Num (of_int n)))
                  else Inl InvalidMoneyError
      | JNum q \<Rightarrow> if is_safe_integer q then Inr v else Inl InvalidMoneyError
      | _ \<Rightarrow> Inl InvalidMoneyError)"

definition toBigIntAmount :: "jsval \<Rightarrow> (money_error, jsval) res" where
  "toBigIntAmount v =
     (case v of
        JBig n \<Rightarrow> Inr v
      | JNum (Num q) \<Rightarrow> if is_safe_integer (Num q) then Inr (JBig \<lfloor>q\<rfloor>) else Inl InvalidMoneyError
      | _ \<Rightarrow> Inl InvalidMoneyError)"

definition nullish :: "jsval \<Rightarrow> bool" where
  "nullish v \<longleftrightarrow> v = JUndef \<or> v = JNull"

definition moneyFromSnapshot :: "jsval \<Rightarrow> (money_error, money) res" where
  "moneyFromSnapshot snapshot =
     (case snapshot of
        JObj ps \<Rightarrow>
          (let cur = js_prop ps ''currency'' in
           case (case cur of JStr c \<Rightarrow> JObj [(''code'', JStr c)] | _ \<Rightarrow> cur) of
             JObj cs \<Rightarrow>
               (let base = js_prop cs ''base'' in
                if base \<noteq> JUndef \<and> base \<noteq> jnat 10 \<and> base \<noteq> JBig 10 then Inl InvalidMoneyError
                else let s = js_prop ps ''scale'';
                         scaleSource = (if nullish s then js_prop cs ''exponent'' else s)
                in if scaleSource = JUndef then Inl InvalidMoneyError
                   else rbind (toBigIntAmount (js_prop ps ''amount'')) (\<lambda>a.
                        rbind (toScaleNumber scaleSource) (\<lambda>sc.
                        moneyOfMinor a (js_prop cs ''code'') sc)))
           | _ \<Rightarrow> Inl InvalidMoneyError)
      | _ \<Rightarrow> Inl InvalidMoneyError)"

definition moneyToSnapshot :: "money \<Rightarrow> (money_error, money_snapshot) res" where
  "moneyToSnapshot m = rbind (assertMoney (money_obj m)) (\<lambda>_.
     if \<not> is_safe_integer (Num (of_int (amountMinor m))) then Inl InvalidMoneyError
     else Inr \<lparr>snap_amount = amountMinor m, snap_code = currency m, snap_exponent = scale m,
               snap_scale = scale m\<rparr>)"

definition money_snapshot_obj :: "money_snapshot \<Rightarrow> jsval" where
  "money_snapshot_obj s = JObj
     [(''amount'', JNum (Num (of_int (snap_amount s)))),
      (''currency'', JObj [(''code'', JStr (snap_code s)), (''base'', jnat 10),
                           (''exponent'', jnat (snap_exponent s))]),
      (''scale'', jnat (snap_scale s))]"

section \<open>Parsers that return a result\<close>

text \<open>The outer \<open>Inl\<close> is a throw, the inner one the returned error.\<close>

definition tryCatching :: "(money_error, 'a) res \<Rightarrow> (money_error \<Rightarrow> bool)
    \<Rightarrow> (money_error, (money_error, 'a) res) res" where
  "tryCatching parse isExpected =
     (case parse of Inr v \<Rightarrow> Inr (Inr v)
      | Inl e \<Rightarrow> if isExpected e then Inr (Inl e) else Inl e)"

definition tryParseMoneyInput :: "jsval \<Rightarrow> jsval \<Rightarrow> jsval
    \<Rightarrow> (money_error, (money_error, money) res) res" where
  "tryParseMoneyInput input cur sc =
     rbind (assertValidScale sc) (\<lambda>_. rbind (assertValidCurrency cur) (\<lambda>_.
       tryCatching (parseMoneyInput input cur sc)
         (\<lambda>e. e = InvalidMoneyError \<or> e = MoneyPrecisionLossError)))"

definition tryMoneyFromDto :: "jsval \<Rightarrow> (money_error, (money_error, money) res) res" where
  "tryMoneyFromDto dto = tryCatching (moneyFromDto dto) (\<lambda>e. e = InvalidMoneyError)"

definition tryMoneyFromSnapshot :: "jsval \<Rightarrow> (money_error, (money_error, money) res) res" where
  "tryMoneyFromSnapshot s = tryCatching (moneyFromSnapshot s) (\<lambda>e. e = InvalidMoneyError)"

section \<open>The factory and its currency scales\<close>

type_synonym scale_resolver = "string \<Rightarrow> js_num option"

definition scaleOf :: "scale_resolver \<Rightarrow> string \<Rightarrow> (money_error, jsval) res" where
  "scaleOf scaleFor c =
     (case scaleFor c of None \<Rightarrow> Inl (UnknownCurrencyError c) | Some s \<Rightarrow> Inr (JNum s))"

definition factory_ofMinor :: "scale_resolver \<Rightarrow> jsval \<Rightarrow> string \<Rightarrow> (money_error, money) res" where
  "factory_ofMinor scaleFor a c = rbind (scaleOf scaleFor c) (\<lambda>s. moneyOfMinor a (JStr c) s)"

definition factory_parse :: "scale_resolver \<Rightarrow> jsval \<Rightarrow> string \<Rightarrow> (money_error, money) res" where
  "factory_parse scaleFor input c =
     rbind (scaleOf scaleFor c) (\<lambda>s. parseMoneyInput input (JStr c) s)"

definition factory_zero :: "scale_resolver \<Rightarrow> string \<Rightarrow> (money_error, money) res" where
  "factory_zero scaleFor c = rbind (scaleOf scaleFor c) (\<lambda>s. moneyOfMinor (JBig 0) (JStr c) s)"

definition currencyScaleFromRecord :: "(string, js_num) jmap \<Rightarrow> scale_resolver" where
  "currencyScaleFromRecord scales = (\<lambda>c. jget scales c)"

definition CANONICAL_ISO_CODE :: "string \<Rightarrow> bool" where
  "CANONICAL_ISO_CODE s \<longleftrightarrow> length s = 3 \<and>
     list_all (\<lambda>c. 65 \<le> (of_char c :: nat) \<and> (of_char c :: nat) \<le> 90) s"

definition CACHE_LIMIT :: nat where "CACHE_LIMIT = 1000"

text \<open>
  The resolver over the runtime's \<open>Intl\<close> tables, a parameter. It remembers up to
  \<open>CACHE_LIMIT\<close> answers, unknown currencies included.
\<close>

definition intl_scale_step :: "(string \<Rightarrow> js_num option) \<Rightarrow> (string, js_num option) jmap
    \<Rightarrow> string \<Rightarrow> js_num option \<times> (string, js_num option) jmap" where
  "intl_scale_step intl cache c =
     (if \<not> CANONICAL_ISO_CODE c then (None, cache)
      else case jget cache c of
        Some s \<Rightarrow> (s, cache)
      | None \<Rightarrow> (intl c, if length cache < CACHE_LIMIT then jset c (intl c) cache else cache))"

section \<open>Well-formed money\<close>

lemma floor_of_nat_rat [simp]: "\<lfloor>of_nat n :: rat\<rfloor> = int n"
  by (metis floor_of_int of_int_of_nat_eq)

lemma isValidScale_jnat [simp]: "isValidScale (jnat n) \<longleftrightarrow> n \<le> MAX_MONEY_SCALE"
proof -
  have "(of_nat n \<le> (of_nat MAX_MONEY_SCALE :: rat)) \<longleftrightarrow> n \<le> MAX_MONEY_SCALE"
    by (rule of_nat_le_iff)
  then show ?thesis by (auto simp: max_safe_integer_def MAX_MONEY_SCALE_def)
qed

lemma num_nat_jnat [simp]: "num_nat (jnat n) = n"
  by simp

lemma valid_scale_bound: "isValidScale s \<Longrightarrow> num_nat s \<le> MAX_MONEY_SCALE"
proof (cases s rule: isValidScale.cases)
  case (1 q)
  assume "isValidScale s"
  with 1 have q: "0 \<le> q" "q \<le> of_nat MAX_MONEY_SCALE" "of_int \<lfloor>q\<rfloor> = q" by auto
  from q(2) have "\<lfloor>q\<rfloor> \<le> \<lfloor>of_nat MAX_MONEY_SCALE :: rat\<rfloor>" by (rule floor_mono)
  then have "\<lfloor>q\<rfloor> \<le> int MAX_MONEY_SCALE" by (simp only: floor_of_nat_rat)
  with 1 show ?thesis by simp
qed auto

lemma money_eta [simp]: "\<lparr>amountMinor = amountMinor m, currency = currency m, scale = scale m\<rparr> = m"
  by (cases m) simp

lemma isMoney_obj: "isMoney (money_obj m) \<longleftrightarrow>
    amountMinor m < MONEY_AMOUNT_LIMIT \<and> - MONEY_AMOUNT_LIMIT < amountMinor m \<and>
    isValidCurrency (JStr (currency m)) \<and> scale m \<le> MAX_MONEY_SCALE"
  by (simp add: money_obj_def del: isValidCurrency.simps isValidScale.simps)

lemma moneyOfMinor_typed: "moneyOfMinor (JBig a) (JStr c) (jnat s) =
    (let m = \<lparr>amountMinor = a, currency = c, scale = s\<rparr>
     in if isMoney (money_obj m) then Inr m else Inl InvalidMoneyError)"
  by (auto simp: moneyOfMinor_def isMoney_obj Let_def assertValidCurrency_def assertValidScale_def
        guard_res_def simp del: isValidCurrency.simps isValidScale.simps)

lemma moneyOfMinor_cases: "moneyOfMinor a c s = Inl InvalidMoneyError \<or>
    (\<exists>n cs. a = JBig n \<and> c = JStr cs \<and> isValidAmount a \<and> isValidCurrency c \<and> isValidScale s \<and>
       moneyOfMinor a c s = Inr \<lparr>amountMinor = n, currency = cs, scale = num_nat s\<rparr>)"
  by (cases a; cases c)
    (auto simp: moneyOfMinor_def assertValidCurrency_def assertValidScale_def guard_res_def
      simp del: isValidScale.simps)

lemma moneyOfMinor_valid: "moneyOfMinor a c s = Inr m \<Longrightarrow> isMoney (money_obj m)"
  using moneyOfMinor_cases[of a c s]
  by (auto simp: isMoney_obj valid_scale_bound simp del: isValidScale.simps)

lemma moneyOfMinor_error: "moneyOfMinor a c s = Inl e \<Longrightarrow> e = InvalidMoneyError"
  using moneyOfMinor_cases[of a c s] by auto

lemma moneyOfMinor_amount: "moneyOfMinor (JBig a) c s = Inr m \<Longrightarrow> amountMinor m = a"
  using moneyOfMinor_cases[of "JBig a" c s] by auto

section \<open>Digits\<close>

lemma big_int_digits: "list_all is_digit s \<Longrightarrow> big_int s = int (digits_val s)"
  by (cases s) (auto simp: digits_val_def)

lemma big_int_sign: "list_all is_digit s \<Longrightarrow> big_int ((if neg then ''-'' else []) @ s) =
    (if neg then - int (digits_val s) else int (digits_val s))"
  by (auto simp: big_int_digits)

lemma big_int_int_str: "big_int (int_str a) = a"
  by (auto simp: int_str_def big_int_digits nat_str_digits digits_val_nat_str)

lemma INTEGER_STRING_int_str: "INTEGER_STRING (int_str a)"
proof -
  obtain c s where cs: "nat_str (nat a) = c # s" by (cases "nat_str (nat a)") auto
  moreover from cs have "list_all is_digit (c # s)" by (metis nat_str_digits)
  ultimately show ?thesis by (auto simp: int_str_def nat_str_digits)
qed

lemma length_nat_str_limit:
  assumes "a < MONEY_AMOUNT_LIMIT" "- MONEY_AMOUNT_LIMIT < a"
  shows "length (nat_str (nat \<bar>a\<bar>)) \<le> 96"
proof (rule length_nat_str)
  have "\<bar>a\<bar> < 10 ^ 96" using assms by (auto simp: MONEY_AMOUNT_LIMIT_def)
  then have "int (nat \<bar>a\<bar>) < int (10 ^ 96)" by simp
  then show "nat \<bar>a\<bar> < 10 ^ 96" by (simp only: of_nat_less_iff)
qed simp

lemma length_int_str:
  assumes "a < MONEY_AMOUNT_LIMIT" "- MONEY_AMOUNT_LIMIT < a"
  shows "length (int_str a) \<le> MAX_DTO_AMOUNT_LENGTH"
  using length_nat_str_limit[OF assms] by (auto simp: int_str_def MAX_DTO_AMOUNT_LENGTH_def)

section \<open>Decimal strings\<close>

lemma takeWhile_digits:
  assumes "list_all is_digit w"
  shows "takeWhile is_digit (w @ CHR ''.'' # f) = w" "dropWhile is_digit (w @ CHR ''.'' # f) = CHR ''.'' # f"
    "takeWhile is_digit w = w" "dropWhile is_digit w = []"
  using assms by (induction w) auto

lemma DECIMAL_INPUT_whole:
  assumes "list_all is_digit w" "w \<noteq> []"
  shows "DECIMAL_INPUT ((if neg then ''-'' else []) @ w) = Some (if neg then ''-'' else [], w, [])"
  using assms by (cases w) (auto simp: DECIMAL_INPUT_def takeWhile_digits)

lemma DECIMAL_INPUT_fraction:
  assumes "list_all is_digit w" "w \<noteq> []" "list_all is_digit f" "f \<noteq> []"
  shows "DECIMAL_INPUT ((if neg then ''-'' else []) @ w @ ''.'' @ f) =
    Some (if neg then ''-'' else [], w, f)"
  using assms by (cases w) (auto simp: DECIMAL_INPUT_def takeWhile_digits)

text \<open>The digits a decimal string is cut from.\<close>

definition padded_digits :: "money \<Rightarrow> string" where
  "padded_digits m = padStart (scale m + 1) CHR ''0'' (nat_str (nat \<bar>amountMinor m\<bar>))"

lemma padded_digits_props:
  shows "list_all is_digit (padded_digits m)"
    and "scale m < length (padded_digits m)"
    and "int (digits_val (padded_digits m)) = \<bar>amountMinor m\<bar>"
  using nat_str_digits[of "nat \<bar>amountMinor m\<bar>"]
  by (auto simp: padded_digits_def padStart_def digits_val_zeros digits_val_nat_str
        list_all_iff)

lemma padded_digits_length:
  assumes "isMoney (money_obj m)"
  shows "length (padded_digits m) \<le> 96"
  using assms length_nat_str_limit[of "amountMinor m"]
  by (auto simp: padded_digits_def padStart_def isMoney_obj MAX_MONEY_SCALE_def)

lemma moneyToDecimalString_eq:
  assumes "isMoney (money_obj m)"
  shows "moneyToDecimalString m = Inr (
    let sign = (if amountMinor m < 0 then ''-'' else []); p = padded_digits m;
        cut = length p - scale m
    in if scale m = 0 then sign @ nat_str (nat \<bar>amountMinor m\<bar>)
       else sign @ take cut p @ ''.'' @ drop cut p)"
  using assms by (auto simp: moneyToDecimalString_def assertMoney_def guard_res_def padded_digits_def Let_def)

section \<open>Correctness\<close>

text \<open>Every operation that returns money returns valid money.\<close>

lemma parseMoneyInput_valid: "parseMoneyInput i c s = Inr m \<Longrightarrow> isMoney (money_obj m)"
  by (auto simp: parseMoneyInput_def dest: moneyOfMinor_valid split: jsval.splits option.splits
        prod.splits if_splits)

lemma moneyFromDto_valid: "moneyFromDto d = Inr m \<Longrightarrow> isMoney (money_obj m)"
  by (auto simp: moneyFromDto_def dest: moneyOfMinor_valid split: jsval.splits if_splits)

lemma moneyFromSnapshot_valid: "moneyFromSnapshot d = Inr m \<Longrightarrow> isMoney (money_obj m)"
  by (auto simp: moneyFromSnapshot_def Let_def dest: moneyOfMinor_valid split: jsval.splits if_splits)

lemma moneyFromUnknown_valid: "moneyFromUnknown d = Inr m \<Longrightarrow> isMoney (money_obj m)"
  by (auto simp: moneyFromUnknown_def dest: moneyOfMinor_valid split: jsval.splits)

lemma rescaleMoney_valid: "isMoney (money_obj m) \<Longrightarrow> rescaleMoney m s = Inr m' \<Longrightarrow> isMoney (money_obj m')"
  by (auto simp: rescaleMoney_def Let_def dest: moneyOfMinor_valid split: if_splits)

lemma factory_ofMinor_valid: "factory_ofMinor f a c = Inr m \<Longrightarrow> isMoney (money_obj m)"
  by (auto simp: factory_ofMinor_def dest: moneyOfMinor_valid)

text \<open>
  C14. Every constructor and operation of the money module that returns a value returns one that
  passes the structural guard: amounts of at most 96 digits, a non-empty currency without white
  space of at most 32 characters, a scale between 0 and 64.
\<close>

theorem money_results_are_valid:
  assumes "isMoney (money_obj a)"
    and "moneyFromUnknown u = Inr m \<or> moneyFromDto u = Inr m \<or> moneyFromSnapshot u = Inr m \<or>
      parseMoneyInput u v w = Inr m \<or> addMoney a b = Inr m \<or> subtractMoney a b = Inr m \<or>
      negateMoney a = Inr m \<or> rescaleMoney a w = Inr m \<or> factory_ofMinor f u c = Inr m \<or>
      factory_parse f u c = Inr m \<or> factory_zero f c = Inr m"
  shows "isMoney (money_obj m)"
  using assms
  by (auto simp: addMoney_def subtractMoney_def negateMoney_def factory_parse_def factory_zero_def
      dest: moneyOfMinor_valid parseMoneyInput_valid moneyFromDto_valid moneyFromSnapshot_valid
        moneyFromUnknown_valid rescaleMoney_valid factory_ofMinor_valid)

text \<open>Two-decimal euro amounts, for the concrete instances.\<close>

definition eur :: "int \<Rightarrow> money" where
  "eur a = \<lparr>amountMinor = a, currency = ''EUR'', scale = 2\<rparr>"

lemma eur_valid: "\<bar>a\<bar> < 1000000 \<Longrightarrow> isMoney (money_obj (eur a))"
  by (auto simp: isMoney_obj eur_def MONEY_AMOUNT_LIMIT_def MAX_MONEY_SCALE_def MAX_CURRENCY_LENGTH_def
      is_space_def)

lemma eur_add: "\<bar>a + b\<bar> < 1000000 \<Longrightarrow> addMoney (eur a) (eur b) = Inr (eur (a + b))"
  using eur_valid[of "a + b"] by (simp add: addMoney_def assertSameUnit_def moneyOfMinor_typed[where s = 2, simplified] eur_def Let_def)

theorem money_results_are_valid_witness: "isMoney (money_obj (eur 1099))"
proof -
  have "addMoney (eur 1000) (eur 99) = Inr (eur 1099)" by (simp add: eur_add)
  then show ?thesis by (intro money_results_are_valid[OF eur_valid[of 1000]]) auto
qed

text \<open>
  C10. The decimal rendering of a valid amount parses back to exactly the same money: the parser is
  the inverse of the renderer at the amount's own scale and currency.
\<close>

theorem decimal_string_roundtrip:
  assumes "isMoney (money_obj m)"
  shows "\<exists>s. moneyToDecimalString m = Inr s \<and>
    parseMoneyInput (JStr s) (JStr (currency m)) (jnat (scale m)) = Inr m"
proof -
  let ?neg = "amountMinor m < 0" and ?p = "padded_digits m"
  let ?cut = "length ?p - scale m"
  have rebuild: "moneyOfMinor (JBig (amountMinor m)) (JStr (currency m)) (jnat (scale m)) = Inr m"
    using assms by (simp add: moneyOfMinor_typed Let_def)
  have sc: "assertValidScale (jnat (scale m)) = Inr ()"
    using assms by (simp add: assertValidScale_def isMoney_obj del: isValidScale.simps)
  show ?thesis
  proof (cases "scale m = 0")
    case True
    let ?d = "nat_str (nat \<bar>amountMinor m\<bar>)"
    have "length ?d \<le> 96" using assms by (intro length_nat_str_limit) (simp_all add: isMoney_obj)
    moreover have "big_int ((if ?neg then ''-'' else []) @ ?d) = amountMinor m"
      by (auto simp: big_int_sign nat_str_digits digits_val_nat_str big_int_digits)
    ultimately show ?thesis
      using True rebuild sc assms
      by (auto simp: moneyToDecimalString_eq Let_def parseMoneyInput_def DECIMAL_INPUT_whole
          nat_str_digits padEnd_def MAX_INPUT_LENGTH_def
          DECIMAL_INPUT_whole[where neg = True, simplified] DECIMAL_INPUT_whole[where neg = False, simplified])
  next
    case False
    let ?w = "take ?cut ?p" and ?f = "drop ?cut ?p"
    have w: "list_all is_digit ?w" "?w \<noteq> []" and f: "list_all is_digit ?f" "?f \<noteq> []"
      using padded_digits_props[of m] False
      by (auto simp: list_all_iff dest: in_set_takeD in_set_dropD)
    have len: "length ?p \<le> 96" using padded_digits_length[OF assms] .
    have flen: "length ?f = scale m" using padded_digits_props(2)[of m] by simp
    have big: "big_int ((if ?neg then ''-'' else []) @ ?w @ ?f) = amountMinor m"
      using padded_digits_props[of m] by (simp add: big_int_sign del: append_assoc)
    have str: "moneyToDecimalString m = Inr ((if ?neg then ''-'' else []) @ ?w @ ''.'' @ ?f)"
      using False assms by (simp add: moneyToDecimalString_eq Let_def)
    have "parseMoneyInput (JStr ((if ?neg then ''-'' else []) @ ?w @ ''.'' @ ?f)) (JStr (currency m))
        (jnat (scale m)) = Inr m"
      unfolding parseMoneyInput_def sc
      using DECIMAL_INPUT_fraction[OF w f, of ?neg] rebuild big len flen
      by (simp add: padEnd_def MAX_INPUT_LENGTH_def del: append.simps)
    with str show ?thesis by blast
  qed
qed

theorem decimal_string_roundtrip_witness:
  "\<exists>s. moneyToDecimalString (eur (-5)) = Inr s \<and>
    parseMoneyInput (JStr s) (JStr ''EUR'') (jnat 2) = Inr (eur (-5))"
  using decimal_string_roundtrip[OF eur_valid[of "-5"]] by (simp add: eur_def)

text \<open>The wire DTO of a valid amount decodes to the same money.\<close>

theorem dto_roundtrip:
  assumes "isMoney (money_obj m)"
  shows "\<exists>d. moneyToDto m = Inr d \<and> moneyFromDto (dto_obj d) = Inr m"
proof -
  have "length (int_str (amountMinor m)) \<le> MAX_DTO_AMOUNT_LENGTH"
    using assms by (intro length_int_str) (simp_all add: isMoney_obj)
  then show ?thesis
    using assms by (auto simp: moneyToDto_def assertMoney_def moneyFromDto_def dto_obj_def
        INTEGER_STRING_int_str big_int_int_str moneyOfMinor_typed Let_def)
qed

theorem dto_roundtrip_witness:
  "\<exists>d. moneyToDto (eur (-1099)) = Inr d \<and> moneyFromDto (dto_obj d) = Inr (eur (-1099))"
  by (rule dto_roundtrip[OF eur_valid]) simp

lemma smod_zero_iff:
  fixes a f :: int
  assumes "0 < f"
  shows "a smod f = 0 \<longleftrightarrow> f dvd a" and "f dvd a \<Longrightarrow> a sdiv f * f = a"
proof -
  have *: "f dvd a \<Longrightarrow> a sdiv f * f = a"
  proof -
    assume "f dvd a"
    then obtain k where "a = f * k" by blast
    with assms show ?thesis
      by (simp add: signed_divide_int_def sgn_mult abs_mult) (metis mult_sgn_abs)
  qed
  have split: "a = a sdiv f * f + a smod f" by (rule sdiv_mult_smod_eq[symmetric])
  show "a smod f = 0 \<longleftrightarrow> f dvd a"
  proof
    assume "a smod f = 0"
    with split show "f dvd a" by (metis add.right_neutral dvd_triv_right)
  qed (use split * in force)
  show "f dvd a \<Longrightarrow> a sdiv f * f = a" by (rule *)
qed

text \<open>
  Addition is exact and undone by subtraction: a sum that is returned carries the exact amount
  in the operands' unit, does not depend on their order, and subtracting an operand gives the
  other back.
\<close>

theorem add_subtract_inverse:
  assumes "isMoney (money_obj a)" and "addMoney a b = Inr s"
  shows "amountMinor s = amountMinor a + amountMinor b \<and> currency s = currency b \<and> scale s = scale b \<and>
    addMoney b a = Inr s \<and> subtractMoney s b = Inr a"
proof -
  from assms(2) have unit: "currency a = currency b" "scale a = scale b"
    by (auto simp: addMoney_def assertSameUnit_def split: if_splits)
  with assms(2) have s: "s = \<lparr>amountMinor = amountMinor a + amountMinor b, currency = currency b,
      scale = scale b\<rparr>" "isMoney (money_obj s)"
    by (auto simp: addMoney_def assertSameUnit_def moneyOfMinor_typed Let_def split: if_splits)
  moreover have "subtractMoney s b = Inr a"
    using s unit assms(1) by (cases a) (auto simp: subtractMoney_def assertSameUnit_def moneyOfMinor_typed Let_def)
  ultimately show ?thesis
    using unit by (auto simp: addMoney_def assertSameUnit_def moneyOfMinor_typed Let_def add.commute)
qed

theorem add_subtract_inverse_witness: "subtractMoney (eur 1099) (eur 99) = Inr (eur 1000)"
  using add_subtract_inverse[OF eur_valid[of 1000], of "eur 99" "eur 1099"] eur_add[of 1000 99]
  by simp

text \<open>
  Rescaling never changes the amount: it returns exactly when the target scale can hold the value
  (and the result is in range), the value as a decimal fraction is the same, and rescaling back
  gives the original; a smaller scale that would cut non-zero digits is a precision-loss error.
\<close>

theorem rescale_preserves_value:
  assumes "isMoney (money_obj m)" and "k \<le> MAX_MONEY_SCALE"
  shows "(rescaleMoney m (jnat k) = Inr m' \<longrightarrow>
      amountMinor m' * 10 ^ scale m = amountMinor m * 10 ^ k \<and> scale m' = k \<and>
      currency m' = currency m \<and> rescaleMoney m' (jnat (scale m)) = Inr m) \<and>
    (rescaleMoney m (jnat k) = Inl MoneyPrecisionLossError \<longleftrightarrow>
      k < scale m \<and> \<not> 10 ^ (scale m - k) dvd amountMinor m)"
proof -
  let ?up = "\<lambda>a d. a * 10 ^ d :: int"
  have sc: "assertValidScale (jnat k) = Inr ()" "assertValidScale (jnat (scale m)) = Inr ()"
    using assms by (simp_all add: assertValidScale_def isMoney_obj del: isValidScale.simps)
  have pos: "0 < (10 :: int) ^ d" for d by simp
  have same: "rescaleMoney m (jnat k) = Inr m' \<Longrightarrow>
      amountMinor m' * 10 ^ scale m = amountMinor m * 10 ^ k \<and> scale m' = k \<and> currency m' = currency m"
    using smod_zero_iff(2)[OF pos, of "scale m - k" "amountMinor m"]
      smod_zero_iff(1)[OF pos, of "amountMinor m" "scale m - k"]
    by (auto simp: rescaleMoney_def sc moneyOfMinor_typed Let_def power_add[symmetric] mult.assoc
        split: if_splits)
  have undo: "rescaleMoney m' (jnat (scale m)) = Inr m" if r: "rescaleMoney m (jnat k) = Inr m'"
  proof -
    from same[OF r] have v: "amountMinor m' * 10 ^ scale m = amountMinor m * 10 ^ k"
      "scale m' = k" "currency m' = currency m" by auto
    consider "scale m = k" | "k < scale m" | "scale m < k" by linarith
    then show ?thesis
    proof cases
      case 1
      with r show ?thesis by (simp add: rescaleMoney_def sc)
    next
      case 2
      then have "amountMinor m' * 10 ^ (scale m - k) * 10 ^ k = amountMinor m * 10 ^ k"
        using v(1) by (simp add: mult.assoc power_add[symmetric])
      then have "amountMinor m' * 10 ^ (scale m - k) = amountMinor m" by simp
      with 2 v sc assms(1) show ?thesis by (simp add: rescaleMoney_def moneyOfMinor_typed Let_def)
    next
      case 3
      then have "amountMinor m' * 10 ^ scale m = amountMinor m * 10 ^ (k - scale m) * 10 ^ scale m"
        using v(1) by (simp add: mult.assoc power_add[symmetric])
      then have eq: "amountMinor m' = amountMinor m * 10 ^ (k - scale m)" by simp
      have "amountMinor m' sdiv 10 ^ (k - scale m) = amountMinor m"
        using smod_zero_iff(2)[OF pos, of "k - scale m" "amountMinor m'"] eq by simp
      moreover have "amountMinor m' smod 10 ^ (k - scale m) = 0"
        using smod_zero_iff(1)[OF pos, of "amountMinor m'" "k - scale m"] eq by simp
      ultimately show ?thesis
        using 3 v sc assms(1) by (simp add: rescaleMoney_def moneyOfMinor_typed Let_def)
    qed
  qed
  have loss: "rescaleMoney m (jnat k) = Inl MoneyPrecisionLossError \<longleftrightarrow>
      k < scale m \<and> \<not> 10 ^ (scale m - k) dvd amountMinor m"
    using smod_zero_iff(1)[OF pos, of "amountMinor m" "scale m - k"]
    by (auto simp: rescaleMoney_def sc moneyOfMinor_typed Let_def)
  from same undo loss show ?thesis by blast
qed

theorem rescale_preserves_value_witness:
  "rescaleMoney (eur 1000) (jnat 0) = Inr \<lparr>amountMinor = 10, currency = ''EUR'', scale = 0\<rparr> \<and>
   rescaleMoney (eur 1099) (jnat 1) = Inl MoneyPrecisionLossError"
proof -
  let ?m = "\<lparr>amountMinor = 10, currency = ''EUR'', scale = 0\<rparr>"
  have m: "isMoney (money_obj ?m)" using eur_valid[of 10] by (simp add: isMoney_obj eur_def)
  have "rescaleMoney ?m (jnat 2) = Inr (eur 1000)"
    using eur_valid[of 1000]
    by (simp add: rescaleMoney_def assertValidScale_def guard_res_def moneyOfMinor_typed[where s = 2, simplified]
        Let_def eur_def max_safe_integer_def MAX_MONEY_SCALE_def)
  then have "rescaleMoney (eur 1000) (jnat 0) = Inr ?m"
    using rescale_preserves_value[OF m, of 2 "eur 1000"] by (simp add: MAX_MONEY_SCALE_def)
  moreover have "rescaleMoney (eur 1099) (jnat 1) = Inl MoneyPrecisionLossError"
    using rescale_preserves_value[OF eur_valid[of 1099], of 1]
    by (simp add: MAX_MONEY_SCALE_def) (simp add: eur_def)
  ultimately show ?thesis by blast
qed

text \<open>
  Snapshots for calculation libraries: a valid amount has one exactly when it is a safe integer,
  and that snapshot reads back as the same money.
\<close>

theorem snapshot_roundtrip:
  assumes "isMoney (money_obj m)"
  shows "if \<bar>amountMinor m\<bar> \<le> max_safe_integer
    then \<exists>s. moneyToSnapshot m = Inr s \<and> moneyFromSnapshot (money_snapshot_obj s) = Inr m
    else moneyToSnapshot m = Inl InvalidMoneyError"
proof -
  have scale_safe: "\<bar>int (scale m)\<bar> \<le> max_safe_integer"
    using assms by (simp add: isMoney_obj MAX_MONEY_SCALE_def max_safe_integer_def)
  then have sc: "toScaleNumber (jnat (scale m)) = Inr (jnat (scale m))"
    by (simp add: toScaleNumber_def max_safe_integer_def)
  have "moneyOfMinor (JBig (amountMinor m)) (JStr (currency m)) (jnat (scale m)) = Inr m"
    using assms by (simp add: moneyOfMinor_typed Let_def)
  with assms sc show ?thesis
    by (auto simp: moneyToSnapshot_def assertMoney_def moneyFromSnapshot_def money_snapshot_obj_def
        toBigIntAmount_def nullish_def abs_le_iff)
qed

theorem snapshot_roundtrip_witness:
  "\<exists>s. moneyToSnapshot (eur 1099) = Inr s \<and> moneyFromSnapshot (money_snapshot_obj s) = Inr (eur 1099)"
proof -
  have "\<bar>amountMinor (eur 1099)\<bar> \<le> max_safe_integer" by (simp add: eur_def max_safe_integer_def)
  then show ?thesis using snapshot_roundtrip[OF eur_valid[of 1099]] by simp
qed

lemma parseMoneyInput_errors:
  "parseMoneyInput i c s = Inl e \<Longrightarrow> e = InvalidMoneyError \<or> e = MoneyPrecisionLossError"
  by (auto simp: parseMoneyInput_def rbind_Inl_iff assertValidScale_def dest: moneyOfMinor_error
      split: jsval.splits option.splits prod.splits if_splits)

lemma moneyFromDto_errors: "moneyFromDto d = Inl e \<Longrightarrow> e = InvalidMoneyError"
  by (auto simp: moneyFromDto_def dest: moneyOfMinor_error split: jsval.splits if_splits)

lemma moneyFromSnapshot_errors: "moneyFromSnapshot d = Inl e \<Longrightarrow> e = InvalidMoneyError"
  by (auto simp: moneyFromSnapshot_def Let_def rbind_Inl_iff toBigIntAmount_def toScaleNumber_def
      dest: moneyOfMinor_error split: jsval.splits js_num.splits if_splits)

text \<open>
  The try-parsers are the throwing parsers with the error as a value: a bad scale or currency
  option is still a throw, and every other failure, whatever the input value, is returned.
\<close>

theorem try_parsers_total:
  "tryParseMoneyInput i c s = (if isValidScale s \<and> isValidCurrency c then Inr (parseMoneyInput i c s)
     else Inl InvalidMoneyError) \<and>
   tryMoneyFromDto d = Inr (moneyFromDto d) \<and>
   tryMoneyFromSnapshot d = Inr (moneyFromSnapshot d)"
proof -
  have "tryCatching (parseMoneyInput i c s) (\<lambda>e. e = InvalidMoneyError \<or> e = MoneyPrecisionLossError)
      = Inr (parseMoneyInput i c s)"
    by (cases "parseMoneyInput i c s") (auto simp: tryCatching_def dest: parseMoneyInput_errors)
  moreover have "tryMoneyFromDto d = Inr (moneyFromDto d)"
    by (cases "moneyFromDto d") (auto simp: tryMoneyFromDto_def tryCatching_def dest: moneyFromDto_errors)
  moreover have "tryMoneyFromSnapshot d = Inr (moneyFromSnapshot d)"
    by (cases "moneyFromSnapshot d")
      (auto simp: tryMoneyFromSnapshot_def tryCatching_def dest: moneyFromSnapshot_errors)
  ultimately show ?thesis
    by (simp add: tryParseMoneyInput_def assertValidScale_def assertValidCurrency_def guard_res_def)
qed

text \<open>The currency cache never changes an answer and never holds more than its limit.\<close>

definition cache_ok :: "(string \<Rightarrow> js_num option) \<Rightarrow> (string, js_num option) jmap \<Rightarrow> bool" where
  "cache_ok intl cache \<longleftrightarrow> length cache \<le> CACHE_LIMIT \<and> (\<forall>c s. jget cache c = Some s \<longrightarrow> s = intl c)"

lemma intl_scale_step_ok:
  assumes "cache_ok intl cache"
  shows "fst (intl_scale_step intl cache c) = (if CANONICAL_ISO_CODE c then intl c else None)"
    and "cache_ok intl (snd (intl_scale_step intl cache c))"
  using assms by (auto simp: intl_scale_step_def cache_ok_def length_jset split: option.splits)

end
