(* ===== verification/State_Machine.thy ===== *)
theory State_Machine
  imports Js_Objects
begin

text \<open>
  The domain state machine (src/domain-state-machine): validation and copying of the
  definition object, snapshots and their invariants, the transition function and the
  machine class with its reentrancy guard. The definition is an untyped JavaScript
  object; its callbacks are function references whose behaviour, any result or throw
  included, is the parameter \<open>callbacks\<close>.
\<close>

section \<open>Errors\<close>

text \<open>
  \<open>GuardRejection x\<close> is the domain error a guard returned and the machine throws,
  \<open>CallbackThrew x\<close> whatever a callback threw itself.
\<close>

datatype 'x machine_error =
    InvalidDomainTransitionError string string
  | DomainTransitionGuardRejectedError string string
  | InvalidDomainMachineDefinitionError
  | InvalidDomainMachineContextError
  | InvalidDomainMachineSnapshotError
  | InvalidDomainMachineInputError
  | InvalidDomainTransitionGuardResultError
  | InvalidDomainTransitionResultError
  | ReentrantDomainStateMachineEvaluationError
  | GuardRejection 'x
  | CallbackThrew 'x

section \<open>Machine data\<close>

definition DATA_MAX_DEPTH :: int where "DATA_MAX_DEPTH = 256"
definition DATA_MAX_NODES :: int where "DATA_MAX_NODES = 10000"
definition DATA_MAX_PROPERTIES :: int where "DATA_MAX_PROPERTIES = 100000"

record traversal =
  nodes :: int
  properties :: int

text \<open>\<open>readDomainMachineDataKeys\<close>: count the own keys against the budget.\<close>

definition count_keys :: "'e \<Rightarrow> int \<Rightarrow> traversal \<Rightarrow> ('e, traversal) res" where
  "count_keys err n t =
     (let t' = t\<lparr>properties := properties t + n\<rparr>
      in if DATA_MAX_PROPERTIES < properties t' then Inl err else Inr t')"

text \<open>\<open>nodes\<close> of the object that is entered at \<open>depth\<close>.\<close>

definition enter_node :: "'e \<Rightarrow> int \<Rightarrow> traversal \<Rightarrow> ('e, traversal) res" where
  "enter_node err depth t =
     (if DATA_MAX_DEPTH < depth then Inl err
      else let t' = t\<lparr>nodes := nodes t + 1\<rparr>
           in if DATA_MAX_NODES < nodes t' then Inl err else Inr t')"

text \<open>
  The clone of machine data. On values without identity the copy equals its source, so
  what the traversal does is accept or refuse: no functions, no accessors, only
  intrinsic arrays and plain objects, within the depth, node and property budgets.
\<close>

fun clone_data :: "'e \<Rightarrow> int \<Rightarrow> traversal \<Rightarrow> 'f jsv \<Rightarrow> ('e, traversal) res"
and clone_entries :: "'e \<Rightarrow> int \<Rightarrow> traversal \<Rightarrow> (pkey \<times> 'f desc) list \<Rightarrow> ('e, traversal) res"
and clone_desc :: "'e \<Rightarrow> int \<Rightarrow> traversal \<Rightarrow> 'f desc \<Rightarrow> ('e, traversal) res" where
  "clone_data err depth t (VFun f) = Inl err"
| "clone_data err depth t (VArr intrinsic tag es) = rbind (enter_node err depth t) (\<lambda>t.
     if tag \<or> \<not> intrinsic then Inl err
     else rbind (count_keys err (int (length es) + 1) t) (\<lambda>t. clone_entries err (depth + 1) t es))"
| "clone_data err depth t (VObj p builtin tag es) = rbind (enter_node err depth t) (\<lambda>t.
     if tag \<or> p = OtherProto \<or> builtin then Inl err
     else rbind (count_keys err (int (length es)) t) (\<lambda>t. clone_entries err (depth + 1) t es))"
| "clone_data err depth t v = Inr t"
| "clone_entries err depth t [] = Inr t"
| "clone_entries err depth t ((k, d) # es) =
     rbind (clone_desc err depth t d) (\<lambda>t. clone_entries err depth t es)"
| "clone_desc err depth t (DData v e) = clone_data err depth t v"
| "clone_desc err depth t (DAccessor e) = Inl err"

definition copy_data :: "'e \<Rightarrow> 'f jsv \<Rightarrow> ('e, 'f jsv) res" where
  "copy_data err v = rbind (clone_data err 0 \<lparr>nodes = 0, properties = 0\<rparr> v) (\<lambda>_. Inr v)"

definition copyDomainMachineContext :: "'f jsv \<Rightarrow> ('x machine_error, 'f jsv) res" where
  "copyDomainMachineContext = copy_data InvalidDomainMachineContextError"

definition copyDomainMachineInput :: "'f jsv \<Rightarrow> ('x machine_error, 'f jsv) res" where
  "copyDomainMachineInput = copy_data InvalidDomainMachineInputError"

definition copyDomainMachineOutputs :: "'f jsv \<Rightarrow> ('x machine_error, 'f jsv) res" where
  "copyDomainMachineOutputs outputs =
     copy_data InvalidDomainTransitionResultError
       (if outputs = VUndef \<or> outputs = VNull then VArr True False [] else outputs)"

section \<open>The definition object\<close>

definition DEFINITION_KEYS :: "string list" where
  "DEFINITION_KEYS = [''initial'', ''initialContext'', ''validateSnapshot'', ''states'']"
definition STATE_NODE_KEYS :: "string list" where
  "STATE_NODE_KEYS = [''terminal'', ''validateContext'', ''on'']"
definition TRANSITION_KEYS :: "string list" where
  "TRANSITION_KEYS = [''target'', ''guard'', ''reduce'']"

definition key_allowed :: "string list option \<Rightarrow> pkey \<Rightarrow> bool" where
  "key_allowed allowed k = (case allowed of None \<Rightarrow> True
     | Some ks \<Rightarrow> (case k of KStr s \<Rightarrow> s \<in> set ks | KSym s \<Rightarrow> False))"

definition assertDataProperties ::
    "'f jsv \<Rightarrow> string list option \<Rightarrow> ('x machine_error, unit) res" where
  "assertDataProperties v allowed = guard_res
     (list_all (\<lambda>k. (case own_desc v k of Some d \<Rightarrow> \<not> is_accessor d | None \<Rightarrow> True)
                    \<and> key_allowed allowed k) (own_keys v))
     InvalidDomainMachineDefinitionError"

definition assertEntryMap :: "'f jsv \<Rightarrow> ('x machine_error, unit) res" where
  "assertEntryMap v = rbind (assertDataProperties v None) (\<lambda>_. guard_res
     (list_all (\<lambda>k. (case k of KStr s \<Rightarrow> True | KSym s \<Rightarrow> False)
                    \<and> (case own_desc v k of Some d \<Rightarrow> enumerable d | None \<Rightarrow> False)) (own_keys v))
     InvalidDomainMachineDefinitionError)"

definition readProperty :: "'f jsv \<Rightarrow> string \<Rightarrow> ('x machine_error, 'f jsv) res" where
  "readProperty v k = (case own_desc v (KStr k) of
     Some (DData x e) \<Rightarrow> Inr x | _ \<Rightarrow> Inl InvalidDomainMachineDefinitionError)"

definition readOptionalProperty :: "'f jsv \<Rightarrow> string \<Rightarrow> ('x machine_error, 'f jsv) res" where
  "readOptionalProperty v k = (case own_desc v (KStr k) of
     None \<Rightarrow> Inr VUndef | Some (DData x e) \<Rightarrow> Inr x
   | Some (DAccessor e) \<Rightarrow> Inl InvalidDomainMachineDefinitionError)"

abbreviation def_guard :: "bool \<Rightarrow> ('x machine_error, unit) res" where
  "def_guard b \<equiv> guard_res b InvalidDomainMachineDefinitionError"

text \<open>The loop body over one declared transition, and over one state.\<close>

definition validateTransition ::
    "'f jsv \<Rightarrow> 'f jsv \<Rightarrow> string \<Rightarrow> ('x machine_error, unit) res" where
  "validateTransition states transitions inputType =
     rbind (readProperty transitions inputType) (\<lambda>transition.
     rbind (def_guard (isPlainRecord transition)) (\<lambda>_.
     rbind (assertDataProperties transition (Some TRANSITION_KEYS)) (\<lambda>_.
     rbind (readProperty transition ''target'') (\<lambda>target.
     rbind (def_guard (is_string target)) (\<lambda>_.
     rbind (def_guard (has_own states (str_val target))) (\<lambda>_.
     rbind (readOptionalProperty transition ''guard'') (\<lambda>g.
     rbind (def_guard (g = VUndef \<or> is_function g)) (\<lambda>_.
     rbind (readOptionalProperty transition ''reduce'') (\<lambda>r.
     def_guard (r = VUndef \<or> is_function r))))))))))"

definition validateStateNode :: "'f jsv \<Rightarrow> string \<Rightarrow> ('x machine_error, unit) res" where
  "validateStateNode states state =
     rbind (readProperty states state) (\<lambda>node.
     rbind (def_guard (isPlainRecord node)) (\<lambda>_.
     rbind (assertDataProperties node (Some STATE_NODE_KEYS)) (\<lambda>_.
     rbind (readOptionalProperty node ''terminal'') (\<lambda>terminal.
     rbind (def_guard (terminal = VUndef \<or> is_boolean terminal)) (\<lambda>_.
     rbind (readOptionalProperty node ''validateContext'') (\<lambda>vc.
     rbind (def_guard (vc = VUndef \<or> is_function vc)) (\<lambda>_.
     rbind (readOptionalProperty node ''on'') (\<lambda>transitions.
     rbind (def_guard (transitions = VUndef \<or> isPlainRecord transitions)) (\<lambda>_.
     rbind (if isPlainRecord transitions then assertEntryMap transitions else Inr ()) (\<lambda>_.
     rbind (def_guard (\<not> (terminal = VBool True \<and> object_keys transitions \<noteq> []))) (\<lambda>_.
     all_res (validateTransition states transitions) (object_keys transitions))))))))))))"

definition validateDomainMachineDefinition :: "'f jsv \<Rightarrow> ('x machine_error, unit) res" where
  "validateDomainMachineDefinition d =
     rbind (def_guard (isPlainRecord d)) (\<lambda>_.
     rbind (assertDataProperties d (Some DEFINITION_KEYS)) (\<lambda>_.
     rbind (readProperty d ''initial'') (\<lambda>initial.
     rbind (def_guard (is_string initial)) (\<lambda>_.
     rbind (readProperty d ''initialContext'') (\<lambda>ic.
     rbind (def_guard (is_function ic)) (\<lambda>_.
     rbind (readOptionalProperty d ''validateSnapshot'') (\<lambda>vs.
     rbind (def_guard (vs = VUndef \<or> is_function vs)) (\<lambda>_.
     rbind (readProperty d ''states'') (\<lambda>states.
     rbind (def_guard (isPlainRecord states)) (\<lambda>_.
     rbind (assertEntryMap states) (\<lambda>_.
     rbind (def_guard (has_own states (str_val initial))) (\<lambda>_.
     all_res (validateStateNode states) (object_keys states)))))))))))))"

section \<open>Stable copies of a definition\<close>

fun truthy :: "'f jsv \<Rightarrow> bool" where
  "truthy VUndef = False"
| "truthy VNull = False"
| "truthy (VBool b) = b"
| "truthy (VNum n) \<longleftrightarrow> n \<noteq> NaN \<and> n \<noteq> Num 0"
| "truthy (VBig n) \<longleftrightarrow> n \<noteq> 0"
| "truthy (VStr s) \<longleftrightarrow> s \<noteq> []"
| "truthy _ = True"

definition entry :: "string \<Rightarrow> 'f jsv \<Rightarrow> pkey \<times> 'f desc" where
  "entry k v = (KStr k, DData v True)"

definition copyTransition :: "'f jsv \<Rightarrow> ('x machine_error, 'f jsv) res" where
  "copyTransition transition =
     rbind (readProperty transition ''target'') (\<lambda>target.
     rbind (readOptionalProperty transition ''guard'') (\<lambda>g.
     rbind (readOptionalProperty transition ''reduce'') (\<lambda>r.
     Inr (plain_obj [entry ''target'' target, entry ''guard'' g, entry ''reduce'' r]))))"

definition copyTransitionEntry ::
    "'f jsv \<Rightarrow> string \<Rightarrow> ('x machine_error, (pkey \<times> 'f desc) list) res" where
  "copyTransitionEntry transitions inputType =
     rbind (readProperty transitions inputType) (\<lambda>transition.
     if truthy transition then rbind (copyTransition transition) (\<lambda>c. Inr [entry inputType c])
     else Inr [])"

definition copyStateEntry :: "'f jsv \<Rightarrow> string \<Rightarrow> ('x machine_error, pkey \<times> 'f desc) res" where
  "copyStateEntry states state =
     rbind (readProperty states state) (\<lambda>node.
     rbind (readOptionalProperty node ''on'') (\<lambda>transitions.
     rbind (map_res (copyTransitionEntry transitions) (object_keys transitions)) (\<lambda>ts.
     rbind (readOptionalProperty node ''terminal'') (\<lambda>terminal.
     rbind (readOptionalProperty node ''validateContext'') (\<lambda>vc.
     Inr (entry state (plain_obj [entry ''terminal'' terminal, entry ''validateContext'' vc,
       entry ''on'' (VObj NullProto False False (concat ts))])))))))"

definition copyDomainMachineDefinition :: "'f jsv \<Rightarrow> ('x machine_error, 'f jsv) res" where
  "copyDomainMachineDefinition d =
     rbind (readProperty d ''states'') (\<lambda>states.
     rbind (map_res (copyStateEntry states) (object_keys states)) (\<lambda>copied.
     rbind (readProperty d ''initial'') (\<lambda>initial.
     rbind (readProperty d ''initialContext'') (\<lambda>ic.
     rbind (readOptionalProperty d ''validateSnapshot'') (\<lambda>vs.
     Inr (plain_obj [entry ''initial'' initial, entry ''initialContext'' ic,
       entry ''validateSnapshot'' vs,
       entry ''states'' (VObj NullProto False False copied)]))))))"

text \<open>
  \<open>prepared\<close> says whether the object itself is in the registry of prepared
  definitions, which holds results of this function only.
\<close>

definition ensureStableDomainMachineDefinition ::
    "bool \<Rightarrow> 'f jsv \<Rightarrow> ('x machine_error, 'f jsv) res" where
  "ensureStableDomainMachineDefinition prepared d =
     (if prepared then Inr d
      else rbind (validateDomainMachineDefinition d) (\<lambda>_.
           rbind (copyDomainMachineDefinition d) (\<lambda>stable.
           rbind (validateDomainMachineDefinition stable) (\<lambda>_. Inr stable))))"

definition state_node :: "'f jsv \<Rightarrow> string \<Rightarrow> 'f jsv" where
  "state_node d state = prop_val (prop_val d ''states'') state"

definition input_type :: "'f jsv \<Rightarrow> string" where
  "input_type input = str_val (prop_val input ''type'')"

text \<open>\<open>VUndef\<close> when no transition is declared.\<close>

definition getTransition :: "'f jsv \<Rightarrow> string \<Rightarrow> 'f jsv \<Rightarrow> 'f jsv" where
  "getTransition d state input =
     (let transitions = prop_val (state_node d state) ''on''
      in if \<not> truthy transitions \<or> \<not> has_own transitions (input_type input) then VUndef
         else prop_val transitions (input_type input))"

section \<open>Callbacks and snapshots\<close>

text \<open>What a guard returns: a domain error, or any other value.\<close>

datatype ('f, 'x) guard_value = GValue "'f jsv" | GDomainError 'x

record ('f, 'x) callbacks =
  cb_initialContext :: "'f \<Rightarrow> ('x, 'f jsv) res"
  cb_validateContext :: "'f \<Rightarrow> string \<Rightarrow> 'f jsv \<Rightarrow> ('x, 'f jsv) res"
  cb_validateSnapshot :: "'f \<Rightarrow> string \<Rightarrow> 'f jsv \<Rightarrow> ('x, 'f jsv) res"
  cb_guard :: "'f \<Rightarrow> string \<Rightarrow> 'f jsv \<Rightarrow> 'f jsv \<Rightarrow> ('x, ('f, 'x) guard_value) res"
  cb_reduce :: "'f \<Rightarrow> string \<Rightarrow> 'f jsv \<Rightarrow> 'f jsv \<Rightarrow> ('x, 'f jsv) res"

record 'f snapshot =
  snap_state :: string
  snap_context :: "'f jsv"

definition call :: "('x, 'a) res \<Rightarrow> ('x machine_error, 'a) res" where
  "call r = (case r of Inl x \<Rightarrow> Inl (CallbackThrew x) | Inr v \<Rightarrow> Inr v)"

definition snapshot_obj :: "string \<Rightarrow> 'f jsv \<Rightarrow> 'f jsv" where
  "snapshot_obj state context = plain_obj [entry ''state'' (VStr state), entry ''context'' context]"

definition readSnapshotState :: "'f jsv \<Rightarrow> ('x machine_error, string) res" where
  "readSnapshotState v = (case own_desc v (KStr ''state'') of
     Some (DData (VStr s) e) \<Rightarrow> Inr s | _ \<Rightarrow> Inl InvalidDomainMachineSnapshotError)"

definition readSnapshotContext :: "'f jsv \<Rightarrow> ('x machine_error, 'f jsv) res" where
  "readSnapshotContext v = (case own_desc v (KStr ''context'') of
     Some (DData c e) \<Rightarrow> Inr c | _ \<Rightarrow> Inl InvalidDomainMachineSnapshotError)"

definition createDomainMachineSnapshot :: "'f jsv \<Rightarrow> ('x machine_error, 'f snapshot) res" where
  "createDomainMachineSnapshot v =
     rbind (readSnapshotState v) (\<lambda>s.
     rbind (readSnapshotContext v) (\<lambda>c.
     rbind (copyDomainMachineContext c) (\<lambda>c'.
     Inr \<lparr>snap_state = s, snap_context = c'\<rparr>)))"

definition validateDomainMachineSnapshot ::
    "'f jsv \<Rightarrow> 'f jsv \<Rightarrow> ('x machine_error, unit) res" where
  "validateDomainMachineSnapshot d v =
     rbind (guard_res (isRecord v) InvalidDomainMachineSnapshotError) (\<lambda>_.
     rbind (readSnapshotState v) (\<lambda>s.
     rbind (readSnapshotContext v) (\<lambda>_.
     guard_res (has_own (prop_val d ''states'') s) InvalidDomainMachineSnapshotError)))"

text \<open>A validation callback must return a boolean, and true.\<close>

definition check_verdict :: "'f jsv \<Rightarrow> ('x machine_error, unit) res" where
  "check_verdict v = (case v of
     VBool b \<Rightarrow> guard_res b InvalidDomainMachineSnapshotError
   | _ \<Rightarrow> Inl InvalidDomainMachineDefinitionError)"

definition validateDomainMachineSnapshotInvariant ::
    "('f, 'x) callbacks \<Rightarrow> 'f jsv \<Rightarrow> 'f snapshot \<Rightarrow> ('x machine_error, unit) res" where
  "validateDomainMachineSnapshotInvariant cb d s =
     rbind (case fun_val (prop_val (state_node d (snap_state s)) ''validateContext'') of
              None \<Rightarrow> Inr ()
            | Some f \<Rightarrow> rbind (call (cb_validateContext cb f (snap_state s) (snap_context s)))
                          check_verdict) (\<lambda>_.
     (case fun_val (prop_val d ''validateSnapshot'') of
        None \<Rightarrow> Inr ()
      | Some f \<Rightarrow> rbind (call (cb_validateSnapshot cb f (snap_state s) (snap_context s)))
                    check_verdict))"

definition prepareDomainMachineSnapshot ::
    "('f, 'x) callbacks \<Rightarrow> 'f jsv \<Rightarrow> 'f jsv \<Rightarrow> ('x machine_error, 'f snapshot) res" where
  "prepareDomainMachineSnapshot cb d v =
     rbind (validateDomainMachineSnapshot d v) (\<lambda>_.
     rbind (createDomainMachineSnapshot v) (\<lambda>s.
     rbind (validateDomainMachineSnapshot d (snapshot_obj (snap_state s) (snap_context s))) (\<lambda>_.
     rbind (validateDomainMachineSnapshotInvariant cb d s) (\<lambda>_. Inr s))))"

definition isDomainMachineInput :: "'f jsv \<Rightarrow> bool" where
  "isDomainMachineInput v \<longleftrightarrow> isRecord v \<and>
     (case own_desc v (KStr ''type'') of Some (DData (VStr s) e) \<Rightarrow> True | _ \<Rightarrow> False)"

datatype 'x guard_decision = Allowed | Refused "'x option"

definition resolveGuardResult ::
    "('f, 'x) guard_value \<Rightarrow> ('x machine_error, 'x guard_decision) res" where
  "resolveGuardResult g = (case g of
     GValue (VBool b) \<Rightarrow> Inr (if b then Allowed else Refused None)
   | GDomainError x \<Rightarrow> Inr (Refused (Some x))
   | _ \<Rightarrow> Inl InvalidDomainTransitionGuardResultError)"

definition readResultOutputs :: "'f jsv \<Rightarrow> 'f jsv" where
  "readResultOutputs r = prop_val r ''outputs''"

definition validateDomainTransitionResult :: "'f jsv \<Rightarrow> ('x machine_error, unit) res" where
  "validateDomainTransitionResult r =
     (if r = VUndef then Inr ()
      else guard_res (isPlainRecord r \<and>
        list_all (\<lambda>k. key_allowed (Some [''context'', ''outputs'']) k \<and>
          (case own_desc r k of Some d \<Rightarrow> \<not> is_accessor d | None \<Rightarrow> True)) (own_keys r) \<and>
        (readResultOutputs r = VUndef \<or> is_array (readResultOutputs r)))
        InvalidDomainTransitionResultError)"

definition readResultContext :: "'f jsv \<Rightarrow> 'f jsv option" where
  "readResultContext r = (if has_own r ''context'' then Some (prop_val r ''context'') else None)"

section \<open>Transitions\<close>

record 'f outcome =
  out_from :: string
  out_to :: string
  out_snapshot :: "'f snapshot"
  out_outputs :: "'f jsv"

definition createInitialSnapshot ::
    "('f, 'x) callbacks \<Rightarrow> 'f jsv \<Rightarrow> ('x machine_error, 'f snapshot) res" where
  "createInitialSnapshot cb d =
     rbind (case fun_val (prop_val d ''initialContext'') of
              Some f \<Rightarrow> call (cb_initialContext cb f)
            | None \<Rightarrow> Inl InvalidDomainMachineDefinitionError) (\<lambda>c.
     rbind (createDomainMachineSnapshot (snapshot_obj (str_val (prop_val d ''initial'')) c)) (\<lambda>s.
     rbind (validateDomainMachineSnapshotInvariant cb d s) (\<lambda>_. Inr s)))"

definition run_guard :: "('f, 'x) callbacks \<Rightarrow> 'f jsv \<Rightarrow> 'f snapshot \<Rightarrow> 'f jsv
    \<Rightarrow> ('x machine_error, 'x guard_decision) res" where
  "run_guard cb transition s input =
     (case fun_val (prop_val transition ''guard'') of
        None \<Rightarrow> Inr Allowed
      | Some f \<Rightarrow> rbind (call (cb_guard cb f (snap_state s) (snap_context s) input)) resolveGuardResult)"

definition canTransitionPrepared :: "('f, 'x) callbacks \<Rightarrow> 'f jsv \<Rightarrow> 'f snapshot \<Rightarrow> 'f jsv
    \<Rightarrow> ('x machine_error, bool) res" where
  "canTransitionPrepared cb d s input =
     (if \<not> isDomainMachineInput input then Inr False
      else if prop_val (state_node d (snap_state s)) ''terminal'' = VBool True then Inr False
      else let transition = getTransition d (snap_state s) input
      in if \<not> truthy transition then Inr False
         else rbind (copyDomainMachineInput input) (\<lambda>input'.
              rbind (run_guard cb transition s input') (\<lambda>decision. Inr (decision = Allowed))))"

definition transitionPrepared :: "('f, 'x) callbacks \<Rightarrow> 'f jsv \<Rightarrow> 'f snapshot \<Rightarrow> 'f jsv
    \<Rightarrow> ('x machine_error, 'f outcome) res" where
  "transitionPrepared cb d s input =
     rbind (guard_res (isDomainMachineInput input) InvalidDomainMachineInputError) (\<lambda>_.
     let from = snap_state s;
         transition = (if prop_val (state_node d from) ''terminal'' = VBool True then VUndef
                       else getTransition d from input)
     in if \<not> truthy transition then Inl (InvalidDomainTransitionError from (input_type input))
     else rbind (copyDomainMachineInput input) (\<lambda>input'.
          rbind (run_guard cb transition s input') (\<lambda>decision.
          (case decision of
             Refused (Some x) \<Rightarrow> Inl (GuardRejection x)
           | Refused None \<Rightarrow> Inl (DomainTransitionGuardRejectedError from (input_type input'))
           | Allowed \<Rightarrow>
          rbind (case fun_val (prop_val transition ''reduce'') of
                   None \<Rightarrow> Inr VUndef
                 | Some f \<Rightarrow> call (cb_reduce cb f from (snap_context s) input')) (\<lambda>result.
          rbind (validateDomainTransitionResult result) (\<lambda>_.
          let nextContext = (case readResultContext result of Some c \<Rightarrow> c | None \<Rightarrow> snap_context s);
              target = str_val (prop_val transition ''target'')
          in rbind (if nextContext = snap_context s
                    then Inr \<lparr>snap_state = target, snap_context = snap_context s\<rparr>
                    else createDomainMachineSnapshot (snapshot_obj target nextContext)) (\<lambda>next.
             rbind (validateDomainMachineSnapshotInvariant cb d next) (\<lambda>_.
             rbind (copyDomainMachineOutputs (readResultOutputs result)) (\<lambda>outputs.
             Inr \<lparr>out_from = from, out_to = target, out_snapshot = next, out_outputs = outputs\<rparr>)))))))))"

text \<open>The stateless entry points: definition and snapshot are prepared on every call.\<close>

definition canTransitionDomainState :: "('f, 'x) callbacks \<Rightarrow> bool \<Rightarrow> 'f jsv \<Rightarrow> 'f jsv \<Rightarrow> 'f jsv
    \<Rightarrow> ('x machine_error, bool) res" where
  "canTransitionDomainState cb prepared d snapshot input =
     rbind (ensureStableDomainMachineDefinition prepared d) (\<lambda>stable.
     rbind (prepareDomainMachineSnapshot cb stable snapshot) (\<lambda>s.
     canTransitionPrepared cb stable s input))"

definition transitionDomainState :: "('f, 'x) callbacks \<Rightarrow> bool \<Rightarrow> 'f jsv \<Rightarrow> 'f jsv \<Rightarrow> 'f jsv
    \<Rightarrow> ('x machine_error, 'f outcome) res" where
  "transitionDomainState cb prepared d snapshot input =
     rbind (ensureStableDomainMachineDefinition prepared d) (\<lambda>stable.
     rbind (prepareDomainMachineSnapshot cb stable snapshot) (\<lambda>s.
     transitionPrepared cb stable s input))"

section \<open>The machine\<close>

record 'f machine =
  m_definition :: "'f jsv"
  m_snapshot :: "'f snapshot"
  m_evaluating :: bool

definition new_machine :: "('f, 'x) callbacks \<Rightarrow> bool \<Rightarrow> 'f jsv \<Rightarrow> 'f jsv
    \<Rightarrow> ('x machine_error, 'f machine) res" where
  "new_machine cb prepared d suppliedSnapshot =
     rbind (ensureStableDomainMachineDefinition prepared d) (\<lambda>stable.
     rbind (if suppliedSnapshot \<noteq> VUndef then prepareDomainMachineSnapshot cb stable suppliedSnapshot
            else createInitialSnapshot cb stable) (\<lambda>s.
     Inr \<lparr>m_definition = stable, m_snapshot = s, m_evaluating = False\<rparr>))"

definition isTerminal :: "'f machine \<Rightarrow> bool" where
  "isTerminal m \<longleftrightarrow>
     prop_val (state_node (m_definition m) (snap_state (m_snapshot m))) ''terminal'' = VBool True"

definition evaluate :: "('f machine \<Rightarrow> ('x machine_error, 'r) res \<times> 'f machine) \<Rightarrow> 'f machine
    \<Rightarrow> ('x machine_error, 'r) res \<times> 'f machine" where
  "evaluate operation m =
     (if m_evaluating m then (Inl ReentrantDomainStateMachineEvaluationError, m)
      else let (r, m') = operation (m\<lparr>m_evaluating := True\<rparr>) in (r, m'\<lparr>m_evaluating := False\<rparr>))"

definition machine_can :: "('f, 'x) callbacks \<Rightarrow> 'f jsv \<Rightarrow> 'f machine
    \<Rightarrow> ('x machine_error, bool) res \<times> 'f machine" where
  "machine_can cb input = evaluate (\<lambda>m.
     (canTransitionPrepared cb (m_definition m) (m_snapshot m) input, m))"

definition machine_dispatch :: "('f, 'x) callbacks \<Rightarrow> 'f jsv \<Rightarrow> 'f machine
    \<Rightarrow> ('x machine_error, 'f outcome) res \<times> 'f machine" where
  "machine_dispatch cb input = evaluate (\<lambda>m.
     (case transitionPrepared cb (m_definition m) (m_snapshot m) input of
        Inl e \<Rightarrow> (Inl e, m)
      | Inr r \<Rightarrow> (Inr r, m\<lparr>m_snapshot := out_snapshot r\<rparr>)))"

section \<open>Copying keeps a valid definition valid\<close>

lemma entries_desc: "map_of (map (\<lambda>k. entry k (h k)) ks) (KStr k) =
    (if k \<in> set ks then Some (DData (h k) True) else None)"
  by (induction ks) (auto simp: entry_def)

lemma entry_fst [simp]: "fst (entry k v) = KStr k"
  by (simp add: entry_def)

lemma entries_keys: "object_keys (VObj p b t (map (\<lambda>k. entry k (h k)) ks)) = ks"
proof -
  have "concat (map (\<lambda>k. case map_of (map (\<lambda>k. entry k (h k)) ks) (KStr k) of None \<Rightarrow> []
      | Some d \<Rightarrow> if enumerable d then string_key (KStr k) else []) ks') = ks'"
    if "set ks' \<subseteq> set ks" for ks'
    using that by (induction ks') (auto simp: entries_desc)
  from this[of ks] show ?thesis by (simp add: object_keys_def comp_def)
qed

lemma object_keys_empty [simp]: "object_keys (VObj p b t []) = []"
  by (simp add: object_keys_def)

lemma entries_has_own: "has_own (VObj p b t (map (\<lambda>k. entry k (h k)) ks)) k \<longleftrightarrow> k \<in> set ks"
  by (simp add: has_own_def entries_desc)

lemma entries_read: "k \<in> set ks \<Longrightarrow> readProperty (VObj p b t (map (\<lambda>k. entry k (h k)) ks)) k = Inr (h k)"
  by (simp add: readProperty_def entries_desc)

lemma entries_map_ok: "assertEntryMap (VObj p b t (map (\<lambda>k. entry k (h k)) ks)) = Inr ()"
  by (auto simp: assertEntryMap_def assertDataProperties_def list_all_iff entries_desc key_allowed_def)

lemma has_own_mem: "has_own v k \<Longrightarrow> KStr k \<in> set (own_keys v)"
  by (cases v) (auto simp: has_own_def image_iff dest!: map_of_SomeD, force+)

lemma entry_map_has_own:
  assumes "assertEntryMap v = Inr ()" and "has_own v k"
  shows "k \<in> set (object_keys v)"
proof -
  from assms(2) have m: "KStr k \<in> set (own_keys v)" by (rule has_own_mem)
  with assms obtain d where "own_desc v (KStr k) = Some d" "enumerable d"
    by (fastforce simp: assertEntryMap_def list_all_iff split: option.splits)
  then show ?thesis unfolding object_keys_def
    by (auto intro!: bexI[OF _ m])
qed

lemma plain_truthy: "isPlainRecord v \<Longrightarrow> truthy v"
  by (cases v) auto

text \<open>What a copied transition, state node and definition are, on a validated source.\<close>

definition tr_copy :: "'f jsv \<Rightarrow> 'f jsv" where
  "tr_copy t = plain_obj [entry ''target'' (prop_val t ''target''), entry ''guard'' (prop_val t ''guard''),
     entry ''reduce'' (prop_val t ''reduce'')]"

definition node_copy :: "'f jsv \<Rightarrow> 'f jsv" where
  "node_copy n = (let ts = prop_val n ''on'' in
     plain_obj [entry ''terminal'' (prop_val n ''terminal''),
       entry ''validateContext'' (prop_val n ''validateContext''),
       entry ''on'' (VObj NullProto False False
         (map (\<lambda>i. entry i (tr_copy (prop_val ts i))) (object_keys ts)))])"

definition def_copy :: "'f jsv \<Rightarrow> 'f jsv" where
  "def_copy d = (let states = prop_val d ''states'' in
     plain_obj [entry ''initial'' (prop_val d ''initial''),
       entry ''initialContext'' (prop_val d ''initialContext''),
       entry ''validateSnapshot'' (prop_val d ''validateSnapshot''),
       entry ''states'' (VObj NullProto False False
         (map (\<lambda>s. entry s (node_copy (prop_val states s))) (object_keys states)))])"

lemma readProperty_Inr: "readProperty v k = Inr x \<longleftrightarrow> x = prop_val v k \<and>
    (\<exists>e. own_desc v (KStr k) = Some (DData x e))"
  by (auto simp: readProperty_def prop_val_def split: option.splits desc.splits)

lemma readOptionalProperty_Inr: "readOptionalProperty v k = Inr x \<Longrightarrow> x = prop_val v k"
  by (auto simp: readOptionalProperty_def prop_val_def split: option.splits desc.splits)

lemmas validate_defs = validateDomainMachineDefinition_def validateStateNode_def validateTransition_def

text \<open>
  What validation establishes of a transition and of a state node, in terms of what
  reading them gives.
\<close>

definition data_prop :: "'f jsv \<Rightarrow> string \<Rightarrow> bool" where
  "data_prop v k \<longleftrightarrow> (\<exists>x e. own_desc v (KStr k) = Some (DData x e))"

definition no_accessor :: "'f jsv \<Rightarrow> string \<Rightarrow> bool" where
  "no_accessor v k \<longleftrightarrow> own_desc v (KStr k) = None \<or> data_prop v k"

lemma readProperty_iff: "readProperty v k = Inr x \<longleftrightarrow> x = prop_val v k \<and> data_prop v k"
  by (auto simp: readProperty_Inr data_prop_def prop_val_def)

lemma readOptionalProperty_iff: "readOptionalProperty v k = Inr x \<longleftrightarrow> x = prop_val v k \<and> no_accessor v k"
  by (auto simp: readOptionalProperty_def prop_val_def no_accessor_def data_prop_def
      split: option.splits desc.splits)

definition transition_ok :: "'f jsv \<Rightarrow> 'f jsv \<Rightarrow> bool" where
  "transition_ok states t \<longleftrightarrow> data_prop t ''target'' \<and>
     is_string (prop_val t ''target'') \<and> has_own states (str_val (prop_val t ''target'')) \<and>
     no_accessor t ''guard'' \<and> (prop_val t ''guard'' = VUndef \<or> is_function (prop_val t ''guard'')) \<and>
     no_accessor t ''reduce'' \<and> (prop_val t ''reduce'' = VUndef \<or> is_function (prop_val t ''reduce''))"

lemma validateTransition_iff:
  "(validateTransition states ts i :: ('x machine_error, unit) res) = Inr () \<longleftrightarrow>
    data_prop ts i \<and> isPlainRecord (prop_val ts i) \<and> transition_ok states (prop_val ts i) \<and>
    (assertDataProperties (prop_val ts i) (Some TRANSITION_KEYS) :: ('x machine_error, unit) res) = Inr ()"
  unfolding validateTransition_def transition_ok_def
  by (simp add: readProperty_iff readOptionalProperty_iff) blast

definition node_ok :: "'f jsv \<Rightarrow> 'f jsv \<Rightarrow> bool" where
  "node_ok states n \<longleftrightarrow>
     no_accessor n ''terminal'' \<and> (prop_val n ''terminal'' = VUndef \<or> is_boolean (prop_val n ''terminal'')) \<and>
     no_accessor n ''validateContext'' \<and>
     (prop_val n ''validateContext'' = VUndef \<or> is_function (prop_val n ''validateContext'')) \<and>
     no_accessor n ''on'' \<and> (prop_val n ''on'' = VUndef \<or> isPlainRecord (prop_val n ''on'')) \<and>
     (prop_val n ''terminal'' = VBool True \<longrightarrow> object_keys (prop_val n ''on'') = []) \<and>
     (\<forall>i. has_own (prop_val n ''on'') i \<longleftrightarrow> i \<in> set (object_keys (prop_val n ''on''))) \<and>
     (\<forall>i \<in> set (object_keys (prop_val n ''on'')). data_prop (prop_val n ''on'') i \<and>
        isPlainRecord (prop_val (prop_val n ''on'') i) \<and>
        transition_ok states (prop_val (prop_val n ''on'') i))"

lemma string_key_mem [simp]: "k \<in> set (string_key x) \<longleftrightarrow> x = KStr k"
  by (cases x) auto

lemma object_keys_has_own: "k \<in> set (object_keys v) \<Longrightarrow> has_own v k"
  by (cases "own_desc v (KStr k)") (auto simp: object_keys_def has_own_def split: option.splits if_splits)

lemma entry_map_keys: "assertEntryMap v = Inr () \<Longrightarrow> has_own v k \<longleftrightarrow> k \<in> set (object_keys v)"
  using entry_map_has_own object_keys_has_own by blast

lemma validateStateNode_node_ok:
  assumes "validateStateNode states s = (Inr () :: ('x machine_error, unit) res)"
  shows "data_prop states s \<and> isPlainRecord (prop_val states s) \<and> node_ok states (prop_val states s)"
proof -
  let ?on = "prop_val (prop_val states s) ''on''"
  have "has_own ?on i \<longleftrightarrow> i \<in> set (object_keys ?on)" for i
  proof (cases "isPlainRecord ?on")
    case True
    with assms have "assertEntryMap ?on = (Inr () :: ('x machine_error, unit) res)"
      by (simp add: validateStateNode_def readProperty_iff readOptionalProperty_iff)
    then show ?thesis by (rule entry_map_keys)
  next
    case False
    with assms have "?on = VUndef"
      by (simp add: validateStateNode_def readProperty_iff readOptionalProperty_iff)
    then show ?thesis by (simp add: has_own_def object_keys_def)
  qed
  with assms show ?thesis unfolding validateStateNode_def node_ok_def
    by (simp add: readProperty_iff readOptionalProperty_iff validateTransition_iff)
qed

definition definition_ok :: "'f jsv \<Rightarrow> bool" where
  "definition_ok d \<longleftrightarrow>
     data_prop d ''initial'' \<and> is_string (prop_val d ''initial'') \<and>
     data_prop d ''initialContext'' \<and> is_function (prop_val d ''initialContext'') \<and>
     no_accessor d ''validateSnapshot'' \<and>
     (prop_val d ''validateSnapshot'' = VUndef \<or> is_function (prop_val d ''validateSnapshot'')) \<and>
     data_prop d ''states'' \<and>
     (\<forall>s. has_own (prop_val d ''states'') s \<longleftrightarrow> s \<in> set (object_keys (prop_val d ''states''))) \<and>
     has_own (prop_val d ''states'') (str_val (prop_val d ''initial'')) \<and>
     (\<forall>s \<in> set (object_keys (prop_val d ''states'')). data_prop (prop_val d ''states'') s \<and>
        isPlainRecord (state_node d s) \<and> node_ok (prop_val d ''states'') (state_node d s))"

lemma validate_definition_ok:
  assumes "validateDomainMachineDefinition d = (Inr () :: ('x machine_error, unit) res)"
  shows "definition_ok d"
proof -
  let ?ss = "prop_val d ''states''"
  from assms have m: "assertEntryMap ?ss = (Inr () :: ('x machine_error, unit) res)"
    and n: "\<forall>s \<in> set (object_keys ?ss). validateStateNode ?ss s = (Inr () :: ('x machine_error, unit) res)"
    by (simp_all add: validateDomainMachineDefinition_def readProperty_iff readOptionalProperty_iff)
  from n have "\<forall>s \<in> set (object_keys ?ss). data_prop ?ss s \<and> isPlainRecord (prop_val ?ss s) \<and>
      node_ok ?ss (prop_val ?ss s)"
    using validateStateNode_node_ok by blast
  moreover have "\<forall>s. has_own ?ss s \<longleftrightarrow> s \<in> set (object_keys ?ss)"
    using entry_map_keys[OF m] by blast
  ultimately show ?thesis using assms
    by (simp add: validateDomainMachineDefinition_def readProperty_iff readOptionalProperty_iff
        definition_ok_def state_node_def)
qed

lemma copyTransition_ok: "transition_ok states t \<Longrightarrow> copyTransition t = Inr (tr_copy t)"
  by (simp add: transition_ok_def copyTransition_def tr_copy_def readProperty_iff readOptionalProperty_iff)

lemma copyTransitions_ok:
  assumes "\<forall>i \<in> set ks. data_prop ts i \<and> isPlainRecord (prop_val ts i) \<and> transition_ok states (prop_val ts i)"
  shows "map_res (copyTransitionEntry ts) ks = Inr (map (\<lambda>i. [entry i (tr_copy (prop_val ts i))]) ks)"
  using assms by (intro map_res_Inr)
    (simp add: copyTransitionEntry_def readProperty_iff plain_truthy copyTransition_ok[of states])

lemma concat_singles [simp]: "concat (map (\<lambda>x. [f x]) xs) = map f xs"
  by (induction xs) auto

lemma copyStateEntry_ok:
  assumes "data_prop states s" and "node_ok states (prop_val states s)"
  shows "copyStateEntry states s = (Inr (entry s (node_copy (prop_val states s))) :: ('x machine_error, _) res)"
proof -
  let ?ts = "prop_val (prop_val states s) ''on''"
  have "map_res (copyTransitionEntry ?ts) (object_keys ?ts) =
      (Inr (map (\<lambda>i. [entry i (tr_copy (prop_val ?ts i))]) (object_keys ?ts)) :: ('x machine_error, _) res)"
    using assms(2) by (intro copyTransitions_ok[of _ _ states]) (simp add: node_ok_def)
  with assms show ?thesis
    by (simp add: copyStateEntry_def node_ok_def node_copy_def readProperty_iff readOptionalProperty_iff Let_def)
qed

lemma copy_definition_ok:
  assumes "definition_ok d"
  shows "copyDomainMachineDefinition d = (Inr (def_copy d) :: ('x machine_error, _) res)"
proof -
  let ?ss = "prop_val d ''states''"
  have "map_res (copyStateEntry ?ss) (object_keys ?ss) =
      (Inr (map (\<lambda>s. entry s (node_copy (prop_val ?ss s))) (object_keys ?ss)) :: ('x machine_error, _) res)"
    using assms by (intro map_res_Inr copyStateEntry_ok) (simp_all add: definition_ok_def state_node_def)
  with assms show ?thesis
    by (simp add: copyDomainMachineDefinition_def definition_ok_def def_copy_def readProperty_iff
        readOptionalProperty_iff Let_def)
qed

text \<open>The copies read like their sources.\<close>

lemma entry_prop [simp]: "prop_val (VObj p b t (entry k v # es)) k' = (if k' = k then v else prop_val (VObj p b t es) k')"
  "prop_val (VObj p b t []) k' = VUndef"
  by (auto simp: prop_val_def entry_def)

lemma entry_data [simp]: "data_prop (VObj p b t (entry k v # es)) k' \<longleftrightarrow> k' = k \<or> data_prop (VObj p b t es) k'"
  "data_prop (VObj p b t []) k' \<longleftrightarrow> False"
  by (auto simp: data_prop_def entry_def)

lemma entry_no_accessor [simp]: "data_prop v k \<Longrightarrow> no_accessor v k"
  by (simp add: no_accessor_def)

lemma entries_prop [simp]: "prop_val (VObj p b t (map (\<lambda>k. entry k (h k)) ks)) k = (if k \<in> set ks then h k else VUndef)"
  by (simp add: prop_val_def entries_desc)

lemma entries_data [simp]: "data_prop (VObj p b t (map (\<lambda>k. entry k (h k)) ks)) k \<longleftrightarrow> k \<in> set ks"
  unfolding data_prop_def by (auto simp: entries_desc)

lemma entry_keys_allowed: "set ks \<subseteq> set ks' \<Longrightarrow>
    assertDataProperties (VObj p b t (map (\<lambda>k. entry k (h k)) ks)) (Some ks') = Inr ()"
  by (auto simp: assertDataProperties_def list_all_iff entries_desc key_allowed_def)

lemma tr_copy_entries: "tr_copy t = plain_obj (map (\<lambda>k. entry k (prop_val t k)) TRANSITION_KEYS)"
  by (simp add: tr_copy_def TRANSITION_KEYS_def)

lemma tr_copy_ok:
  assumes "transition_ok states t" and "\<And>s. has_own states s \<Longrightarrow> has_own states' s"
  shows "isPlainRecord (tr_copy t)" "transition_ok states' (tr_copy t)"
    "assertDataProperties (tr_copy t) (Some TRANSITION_KEYS) = Inr ()"
  using assms entry_keys_allowed[of TRANSITION_KEYS TRANSITION_KEYS ObjectProto False False "prop_val t"]
  by (auto simp: tr_copy_entries transition_ok_def TRANSITION_KEYS_def)

lemma node_copy_shape: "node_copy n = plain_obj (map (\<lambda>k. entry k (if k = ''on'' then
      VObj NullProto False False (map (\<lambda>i. entry i (tr_copy (prop_val (prop_val n ''on'') i)))
        (object_keys (prop_val n ''on''))) else prop_val n k)) STATE_NODE_KEYS)"
  by (simp add: node_copy_def STATE_NODE_KEYS_def Let_def)

lemma def_copy_shape: "def_copy d = plain_obj (map (\<lambda>k. entry k (if k = ''states'' then
      VObj NullProto False False (map (\<lambda>s. entry s (node_copy (state_node d s)))
        (object_keys (prop_val d ''states''))) else prop_val d k)) DEFINITION_KEYS)"
  by (simp add: def_copy_def DEFINITION_KEYS_def state_node_def Let_def)

lemma node_copy_valid:
  assumes n: "node_ok states (prop_val ss s)" and s: "states' = VObj p b t (map (\<lambda>k. entry k (h k)) ks)"
    "s \<in> set ks" "h s = node_copy (prop_val ss s)" and sub: "\<And>s. has_own states s \<Longrightarrow> has_own states' s"
  shows "validateStateNode states' s = (Inr () :: ('x machine_error, unit) res)"
proof -
  let ?n = "prop_val ss s" and ?ts = "prop_val (prop_val ss s) ''on''"
  have tr: "validateTransition states' (VObj NullProto False False
      (map (\<lambda>i. entry i (tr_copy (prop_val ?ts i))) (object_keys ?ts))) i = (Inr () :: ('x machine_error, unit) res)"
    if "i \<in> set (object_keys ?ts)" for i
    using that n by (simp add: validateTransition_iff node_ok_def tr_copy_ok[of states _ states', OF _ sub])
  have "assertDataProperties (node_copy ?n) (Some STATE_NODE_KEYS) = (Inr () :: ('x machine_error, unit) res)"
    unfolding node_copy_shape by (rule entry_keys_allowed) simp
  with n s tr show ?thesis
    by (simp add: validateStateNode_def readProperty_iff readOptionalProperty_iff node_ok_def)
      (simp add: node_copy_def Let_def entries_keys entries_map_ok)
qed

lemma def_copy_valid:
  assumes d: "definition_ok d"
  shows "validateDomainMachineDefinition (def_copy d) = (Inr () :: ('x machine_error, unit) res)"
proof -
  let ?ss = "prop_val d ''states''"
  let ?cs = "VObj NullProto False False (map (\<lambda>s. entry s (node_copy (state_node d s))) (object_keys ?ss))"
  have "validateStateNode ?cs s = (Inr () :: ('x machine_error, unit) res)" if "s \<in> set (object_keys ?ss)" for s
    using d that
    by (intro node_copy_valid[of ?ss ?ss s ?cs NullProto False False "\<lambda>s. node_copy (state_node d s)"])
      (simp_all add: definition_ok_def entries_has_own state_node_def)
  moreover have "assertDataProperties (def_copy d) (Some DEFINITION_KEYS) = (Inr () :: ('x machine_error, unit) res)"
    unfolding def_copy_shape by (rule entry_keys_allowed) simp
  moreover have "str_val (prop_val d ''initial'') \<in> set (object_keys ?ss)"
    using d by (auto simp: definition_ok_def)
  ultimately show ?thesis using d
    by (simp add: validateDomainMachineDefinition_def readProperty_iff readOptionalProperty_iff definition_ok_def)
      (simp add: def_copy_shape DEFINITION_KEYS_def entries_keys entries_map_ok entries_has_own)
qed

section \<open>The machine invariant\<close>

lemma ensureStable_ok:
  assumes "ensureStableDomainMachineDefinition prepared d = Inr d'" and "prepared \<Longrightarrow> definition_ok d"
  shows "definition_ok d'"
  using assms validate_definition_ok
  by (auto simp: ensureStableDomainMachineDefinition_def split: if_splits)

text \<open>
  A machine holds a validated definition, a state of it, a context that is machine data,
  and a snapshot its callbacks accept; no operation of it is running.
\<close>

definition snapshot_ok :: "('f, 'x) callbacks \<Rightarrow> 'f jsv \<Rightarrow> 'f snapshot \<Rightarrow> bool" where
  "snapshot_ok cb d s \<longleftrightarrow> has_own (prop_val d ''states'') (snap_state s) \<and>
     (copyDomainMachineContext (snap_context s) :: ('x machine_error, _) res) = Inr (snap_context s) \<and>
     validateDomainMachineSnapshotInvariant cb d s = Inr ()"

definition machine_ok :: "('f, 'x) callbacks \<Rightarrow> 'f machine \<Rightarrow> bool" where
  "machine_ok cb m \<longleftrightarrow> definition_ok (m_definition m) \<and> snapshot_ok cb (m_definition m) (m_snapshot m)
     \<and> \<not> m_evaluating m"

lemma copy_data_id: "copy_data err v = Inr v' \<Longrightarrow> v' = v"
  by (auto simp: copy_data_def)

lemma snapshot_obj_read [simp]: "readSnapshotState (snapshot_obj st c) = Inr st"
  "readSnapshotContext (snapshot_obj st c) = Inr c" "isRecord (snapshot_obj st c)"
  by (simp_all add: readSnapshotState_def readSnapshotContext_def snapshot_obj_def entry_def)

lemma created_snapshot:
  assumes "createDomainMachineSnapshot (snapshot_obj st c) = (Inr s :: ('x machine_error, _) res)"
  shows "snap_state s = st" "snap_context s = c"
    "copyDomainMachineContext c = (Inr c :: ('x machine_error, _) res)"
  using assms by (auto simp: createDomainMachineSnapshot_def copyDomainMachineContext_def dest: copy_data_id)

lemma prepared_snapshot_ok:
  assumes "prepareDomainMachineSnapshot cb d v = Inr s"
  shows "snapshot_ok cb d s"
  using assms
  by (auto simp: prepareDomainMachineSnapshot_def createDomainMachineSnapshot_def snapshot_ok_def
      validateDomainMachineSnapshot_def copyDomainMachineContext_def copy_data_def)

lemma initial_snapshot_ok:
  assumes "createInitialSnapshot cb d = (Inr s :: ('x machine_error, _) res)" and "definition_ok d"
  shows "snapshot_ok cb d s"
proof -
  from assms obtain c where c: "createDomainMachineSnapshot
      (snapshot_obj (str_val (prop_val d ''initial'')) c) = (Inr s :: ('x machine_error, _) res)"
    "validateDomainMachineSnapshotInvariant cb d s = Inr ()"
    by (auto simp: createInitialSnapshot_def)
  have "has_own (prop_val d ''states'') (str_val (prop_val d ''initial''))"
    using assms(2) unfolding definition_ok_def by blast
  with c created_snapshot[OF c(1)] show ?thesis by (simp add: snapshot_ok_def)
qed

lemma new_machine_ok:
  assumes "new_machine cb prepared d v = (Inr m :: ('x machine_error, _) res)" and "prepared \<Longrightarrow> definition_ok d"
  shows "machine_ok cb m"
proof -
  from assms(1) obtain d' s where
    d': "ensureStableDomainMachineDefinition prepared d = (Inr d' :: ('x machine_error, _) res)"
    and s: "(if v \<noteq> VUndef then prepareDomainMachineSnapshot cb d' v else createInitialSnapshot cb d') = Inr s"
    and m: "m = \<lparr>m_definition = d', m_snapshot = s, m_evaluating = False\<rparr>"
    by (auto simp: new_machine_def)
  from ensureStable_ok[OF d' assms(2)] have "definition_ok d'" by simp
  with s have "snapshot_ok cb d' s"
    by (auto split: if_splits dest: prepared_snapshot_ok initial_snapshot_ok)
  with \<open>definition_ok d'\<close> show ?thesis by (simp add: m machine_ok_def)
qed

text \<open>What a transition that returns has done.\<close>

definition live_transition :: "'f jsv \<Rightarrow> string \<Rightarrow> 'f jsv \<Rightarrow> 'f jsv" where
  "live_transition d state input = (if prop_val (state_node d state) ''terminal'' = VBool True then VUndef
     else getTransition d state input)"

lemma truthy_not_undef: "truthy t \<Longrightarrow> t \<noteq> VUndef"
  by (cases t) auto

lemma live_transition_ok:
  assumes "definition_ok d" "has_own (prop_val d ''states'') st" "truthy (live_transition d st input)"
  shows "has_own (prop_val d ''states'') (str_val (prop_val (live_transition d st input) ''target''))"
proof -
  let ?ts = "prop_val (state_node d st) ''on''"
  from assms(3) have t: "live_transition d st input = prop_val ?ts (input_type input)"
    "has_own ?ts (input_type input)"
    by (auto simp: live_transition_def getTransition_def Let_def split: if_splits)
  from assms have n: "node_ok (prop_val d ''states'') (state_node d st)" by (auto simp: definition_ok_def)
  from n t(2) have "transition_ok (prop_val d ''states'') (prop_val ?ts (input_type input))"
    unfolding node_ok_def by blast
  then show ?thesis by (simp add: t(1) transition_ok_def)
qed

lemma transitionPrepared_Inr:
  fixes cb :: "('f, 'x) callbacks"
  assumes "transitionPrepared cb d s input = Inr r"
  defines "t \<equiv> live_transition d (snap_state s) input"
  obtains v where "isDomainMachineInput input" "truthy t" "run_guard cb t s input = Inr Allowed"
    "(case fun_val (prop_val t ''reduce'') of None \<Rightarrow> Inr VUndef
      | Some f \<Rightarrow> call (cb_reduce cb f (snap_state s) (snap_context s) input)) = (Inr v :: ('x machine_error, _) res)"
    "(if (case readResultContext v of Some c \<Rightarrow> c | None \<Rightarrow> snap_context s) = snap_context s
      then Inr \<lparr>snap_state = out_to r, snap_context = snap_context s\<rparr>
      else createDomainMachineSnapshot (snapshot_obj (out_to r)
        (case readResultContext v of Some c \<Rightarrow> c | None \<Rightarrow> snap_context s))) =
      (Inr (out_snapshot r) :: ('x machine_error, _) res)"
    "validateDomainMachineSnapshotInvariant cb d (out_snapshot r) = Inr ()"
    "out_from r = snap_state s" "out_to r = str_val (prop_val t ''target'')"
    "copyDomainMachineOutputs (readResultOutputs v) = (Inr (out_outputs r) :: ('x machine_error, _) res)"
  using assms
  by (auto simp: transitionPrepared_def live_transition_def Let_def copyDomainMachineInput_def copy_data_def
      split: if_splits guard_decision.splits option.splits)

lemma transition_snapshot_ok:
  fixes cb :: "('f, 'x) callbacks"
  assumes tr: "transitionPrepared cb d s input = Inr r" and d: "definition_ok d" and s: "snapshot_ok cb d s"
  shows "snapshot_ok cb d (out_snapshot r)" "out_to r = snap_state (out_snapshot r)"
proof -
  let ?t = "live_transition d (snap_state s) input"
  from tr obtain c where t: "truthy ?t" "out_to r = str_val (prop_val ?t ''target'')"
    and inv: "validateDomainMachineSnapshotInvariant cb d (out_snapshot r) = Inr ()"
    and n: "(if c = snap_context s
      then Inr \<lparr>snap_state = out_to r, snap_context = snap_context s\<rparr>
      else createDomainMachineSnapshot (snapshot_obj (out_to r) c)) =
      (Inr (out_snapshot r) :: ('x machine_error, _) res)"
    by (rule transitionPrepared_Inr) blast
  from n s have "snap_state (out_snapshot r) = out_to r \<and> (copyDomainMachineContext (snap_context (out_snapshot r))
      :: ('x machine_error, _) res) = Inr (snap_context (out_snapshot r))"
    by (auto simp: snapshot_ok_def split: if_splits dest: created_snapshot dest!: sym[where t = "out_snapshot r"])
  moreover have "has_own (prop_val d ''states'') (out_to r)"
    unfolding t(2) using d s t(1) by (intro live_transition_ok) (auto simp: snapshot_ok_def)
  ultimately show "snapshot_ok cb d (out_snapshot r)" "out_to r = snap_state (out_snapshot r)"
    using inv by (simp_all add: snapshot_ok_def)
qed

lemma dispatch_cases:
  assumes "\<not> m_evaluating m"
  shows "machine_dispatch cb input m = (case transitionPrepared cb (m_definition m) (m_snapshot m) input of
    Inl e \<Rightarrow> (Inl e, m) | Inr r \<Rightarrow> (Inr r, m\<lparr>m_snapshot := out_snapshot r\<rparr>))"
  using assms by (cases m) (auto simp: machine_dispatch_def evaluate_def split: sum.splits)

lemma can_idle: "\<not> m_evaluating m \<Longrightarrow> machine_can cb input m =
    (canTransitionPrepared cb (m_definition m) (m_snapshot m) input, m)"
  by (cases m) (simp add: machine_can_def evaluate_def)

lemma dispatch_ok [state_invs]:
  assumes "machine_ok cb m" and "machine_dispatch cb input m = (r, m')"
  shows "machine_ok cb m'"
  using assms dispatch_cases[of m cb input] transition_snapshot_ok[of cb "m_definition m" "m_snapshot m" input]
  by (auto simp: machine_ok_def split: sum.splits)

lemma can_ok [state_invs]: "machine_ok cb m \<Longrightarrow> machine_can cb input m = (r, m') \<Longrightarrow> m' = m"
  by (simp add: machine_ok_def can_idle)

text \<open>The states of a machine: construction, then any sequence of calls.\<close>

inductive machine_reachable :: "('f, 'x) callbacks \<Rightarrow> 'f machine \<Rightarrow> bool" for cb where
  created: "new_machine cb False d v = Inr m \<Longrightarrow> machine_reachable cb m"
| dispatched: "machine_reachable cb m \<Longrightarrow> machine_dispatch cb input m = (r, m') \<Longrightarrow> machine_reachable cb m'"
| asked: "machine_reachable cb m \<Longrightarrow> machine_can cb input m = (b, m') \<Longrightarrow> machine_reachable cb m'"

lemma reachable_ok: "machine_reachable cb m \<Longrightarrow> machine_ok cb m"
proof (induction rule: machine_reachable.induct)
  case (created d v m)
  then show ?case by (rule new_machine_ok) simp
next
  case (asked m input b m')
  then show ?case using can_ok by blast
qed (rule dispatch_ok)

lemma can_of_transition: "transitionPrepared cb d s input = Inr r \<Longrightarrow> canTransitionPrepared cb d s input = Inr True"
  by (auto simp: transitionPrepared_def canTransitionPrepared_def Let_def
      split: if_splits guard_decision.splits option.splits)

subsection \<open>A copied definition behaves like its source\<close>

lemma copied_node: "s \<in> set (object_keys (prop_val d ''states'')) \<Longrightarrow>
    state_node (def_copy d) s = node_copy (state_node d s)"
  by (simp add: def_copy_def state_node_def Let_def)

lemma copied_terminal:
  "definition_ok d \<Longrightarrow> s \<in> set (object_keys (prop_val d ''states'')) \<Longrightarrow>
    prop_val (state_node (def_copy d) s) ''terminal'' = prop_val (state_node d s) ''terminal''"
  by (simp add: copied_node node_copy_def Let_def)

lemma copied_transition:
  assumes d: "definition_ok d" and s: "s \<in> set (object_keys (prop_val d ''states''))"
  shows "(getTransition (def_copy d) s input = VUndef) = (getTransition d s input = VUndef) \<and>
    (\<forall>k \<in> {''target'', ''guard'', ''reduce''}.
      prop_val (getTransition (def_copy d) s input) k = prop_val (getTransition d s input) k)"
proof -
  let ?ts = "prop_val (state_node d s) ''on''" and ?i = "input_type input"
  have n: "node_ok (prop_val d ''states'') (state_node d s)" using d s by (simp add: definition_ok_def)
  have c: "getTransition (def_copy d) s input = (if ?i \<in> set (object_keys ?ts)
      then tr_copy (prop_val ?ts ?i) else VUndef)"
    by (simp add: getTransition_def copied_node[OF s] node_copy_def Let_def entries_has_own)
  have i: "has_own ?ts ?i \<longleftrightarrow> ?i \<in> set (object_keys ?ts)" using n unfolding node_ok_def by blast
  show ?thesis
  proof (cases "?i \<in> set (object_keys ?ts)")
    case True
    then have "isPlainRecord (prop_val ?ts ?i)" using n unfolding node_ok_def by blast
    moreover have "truthy ?ts" using True n by (auto simp: node_ok_def object_keys_def plain_truthy)
    with True i have "getTransition d s input = prop_val ?ts ?i" by (simp add: getTransition_def Let_def)
    ultimately show ?thesis unfolding c using True by (cases "prop_val ?ts ?i") (auto simp: tr_copy_def)
  next
    case False
    then have "getTransition d s input = VUndef" using i by (simp add: getTransition_def Let_def)
    then show ?thesis unfolding c using False by simp
  qed
qed

section \<open>Properties\<close>

text \<open>
  C12. A definition that validates is copied, the copy validates again, and it is the same
  machine: the same states, the same terminal flags and, for every state and input, the
  same declared transition with the same target, guard and reducer.
\<close>

theorem stable_copy_is_the_definition:
  assumes "validateDomainMachineDefinition d = (Inr () :: ('x machine_error, unit) res)"
  shows "\<exists>d'. ensureStableDomainMachineDefinition False d = (Inr d' :: ('x machine_error, _) res) \<and>
    validateDomainMachineDefinition d' = (Inr () :: ('x machine_error, unit) res) \<and>
    object_keys (prop_val d' ''states'') = object_keys (prop_val d ''states'') \<and>
    (\<forall>s \<in> set (object_keys (prop_val d ''states'')).
      prop_val (state_node d' s) ''terminal'' = prop_val (state_node d s) ''terminal'' \<and>
      (\<forall>input. (getTransition d' s input = VUndef) = (getTransition d s input = VUndef) \<and>
        (\<forall>k \<in> {''target'', ''guard'', ''reduce''}.
          prop_val (getTransition d' s input) k = prop_val (getTransition d s input) k)))"
proof -
  from assms have d: "definition_ok d" by (rule validate_definition_ok)
  let ?d = "def_copy d" and ?ss = "prop_val d ''states''"
  have "ensureStableDomainMachineDefinition False d = (Inr ?d :: ('x machine_error, _) res)"
    using assms copy_definition_ok[OF d] def_copy_valid[OF d]
    by (simp add: ensureStableDomainMachineDefinition_def)
  moreover have "validateDomainMachineDefinition ?d = (Inr () :: ('x machine_error, unit) res)"
    by (rule def_copy_valid[OF d])
  moreover have "object_keys (prop_val ?d ''states'') = object_keys ?ss"
    by (simp add: def_copy_def Let_def entries_keys)
  moreover have "prop_val (state_node ?d s) ''terminal'' = prop_val (state_node d s) ''terminal'' \<and>
      (\<forall>input. (getTransition ?d s input = VUndef) = (getTransition d s input = VUndef) \<and>
        (\<forall>k \<in> {''target'', ''guard'', ''reduce''}.
          prop_val (getTransition ?d s input) k = prop_val (getTransition d s input) k))"
    if s: "s \<in> set (object_keys ?ss)" for s
    using copied_transition[OF d s] copied_terminal[OF d s] by blast
  ultimately show ?thesis by blast
qed

text \<open>
  A small machine for the witnesses: \<open>draft --publish--> published\<close>, \<open>published\<close> terminal,
  the guard of \<open>publish\<close> accepts, the initial context is \<open>null\<close>.
\<close>

definition ex_definition :: "nat jsv" where
  "ex_definition = plain_obj [
     entry ''initial'' (VStr ''draft''),
     entry ''initialContext'' (VFun 0),
     entry ''states'' (plain_obj [
       entry ''draft'' (plain_obj [entry ''on'' (plain_obj [entry ''publish'' (plain_obj [
         entry ''target'' (VStr ''published''), entry ''guard'' (VFun 1)])])]),
       entry ''published'' (plain_obj [entry ''terminal'' (VBool True)])])]"

definition ex_callbacks :: "(nat, string) callbacks" where
  "ex_callbacks = \<lparr>cb_initialContext = \<lambda>f. Inr VNull, cb_validateContext = \<lambda>f s c. Inr (VBool True),
     cb_validateSnapshot = \<lambda>f s c. Inr (VBool True), cb_guard = \<lambda>f s c i. Inr (GValue (VBool True)),
     cb_reduce = \<lambda>f s c i. Inr VUndef\<rparr>"

definition ex_input :: "nat jsv" where
  "ex_input = plain_obj [entry ''type'' (VStr ''publish'')]"

lemma ex_definition_valid:
  "validateDomainMachineDefinition ex_definition = (Inr () :: (string machine_error, unit) res)"
  by code_simp

definition ex_machine :: "nat machine" where
  "ex_machine = (case new_machine ex_callbacks False ex_definition VUndef of Inr m \<Rightarrow> m)"

lemma ex_machine_new: "new_machine ex_callbacks False ex_definition VUndef = Inr ex_machine"
proof -
  have "case new_machine ex_callbacks False ex_definition VUndef of Inr m \<Rightarrow> True | Inl e \<Rightarrow> False" by code_simp
  then show ?thesis by (auto simp: ex_machine_def split: sum.splits)
qed

lemma ex_states: "object_keys (prop_val ex_definition ''states'') = [''draft'', ''published'']"
  by code_simp

theorem stable_copy_witness:
  "\<exists>d'. ensureStableDomainMachineDefinition False ex_definition = (Inr d' :: (string machine_error, _) res) \<and>
     object_keys (prop_val d' ''states'') = [''draft'', ''published'']"
  using stable_copy_is_the_definition[OF ex_definition_valid] unfolding ex_states by blast

text \<open>
  C8. Whatever is called on a machine, in whatever order, it holds a validated definition
  and a snapshot in a state of that definition, with a context that is plain data and that
  the declared invariants accept.
\<close>

theorem reachable_machine_invariant:
  assumes "machine_reachable cb m"
  shows "definition_ok (m_definition m) \<and> snapshot_ok cb (m_definition m) (m_snapshot m) \<and> \<not> m_evaluating m"
  using reachable_ok[OF assms] by (simp add: machine_ok_def)

theorem reachable_machine_witness:
  "snapshot_ok ex_callbacks (m_definition ex_machine) (m_snapshot ex_machine)"
  using reachable_machine_invariant[OF machine_reachable.created[OF ex_machine_new]] by blast

text \<open>
  C9. Dispatching is all or nothing: a dispatch that throws, whatever threw, leaves the
  machine as it was; one that returns moved it along the declared transition, from its
  state to the declared target, with the guard's consent.
\<close>

theorem dispatch_all_or_nothing:
  fixes cb :: "('f, 'x) callbacks"
  assumes "machine_reachable cb m"
  shows "case machine_dispatch cb input m of
      (Inl e, m') \<Rightarrow> m' = m
    | (Inr r, m') \<Rightarrow> m' = m\<lparr>m_snapshot := out_snapshot r\<rparr> \<and> out_from r = snap_state (m_snapshot m) \<and>
        snap_state (m_snapshot m') = out_to r \<and> \<not> isTerminal m \<and>
        getTransition (m_definition m) (out_from r) input \<noteq> VUndef \<and>
        out_to r = str_val (prop_val (getTransition (m_definition m) (out_from r) input) ''target'') \<and>
        run_guard cb (getTransition (m_definition m) (out_from r) input) (m_snapshot m) input = Inr Allowed"
proof (cases "transitionPrepared cb (m_definition m) (m_snapshot m) input")
  case (Inl e)
  then show ?thesis using reachable_ok[OF assms] by (simp add: machine_ok_def dispatch_cases)
next
  case (Inr r)
  from reachable_ok[OF assms] have m: "definition_ok (m_definition m)"
    "snapshot_ok cb (m_definition m) (m_snapshot m)" "\<not> m_evaluating m" by (simp_all add: machine_ok_def)
  let ?t = "live_transition (m_definition m) (snap_state (m_snapshot m)) input"
  from Inr have t: "truthy ?t" "run_guard cb ?t (m_snapshot m) input = Inr Allowed"
    "out_from r = snap_state (m_snapshot m)" "out_to r = str_val (prop_val ?t ''target'')"
    by (auto elim: transitionPrepared_Inr)
  then have "\<not> isTerminal m" "?t = getTransition (m_definition m) (snap_state (m_snapshot m)) input"
    by (auto simp: live_transition_def isTerminal_def split: if_splits)
  with t transition_snapshot_ok[OF Inr m(1,2)] show ?thesis
    by (simp add: dispatch_cases m(3) Inr truthy_not_undef)
qed

theorem dispatch_all_or_nothing_witness:
  "\<exists>r m'. machine_dispatch ex_callbacks ex_input ex_machine = (Inr r, m') \<and>
     snap_state (m_snapshot m') = out_to r \<and> out_to r = ''published''"
proof -
  have "case machine_dispatch ex_callbacks ex_input ex_machine of (Inr r, m') \<Rightarrow> out_to r = ''published''
    | (Inl e, m') \<Rightarrow> False" by code_simp
  with dispatch_all_or_nothing[OF machine_reachable.created[OF ex_machine_new], of ex_input]
  show ?thesis by (auto split: prod.splits sum.splits)
qed

text \<open>
  A terminal state is final: no input is declared for it, \<open>can\<close> answers false and
  every dispatch throws and changes nothing.
\<close>

theorem terminal_is_final:
  fixes cb :: "('f, 'x) callbacks"
  assumes "machine_reachable cb m" and "isTerminal m"
  shows "machine_can cb input m = (Inr False, m) \<and>
    machine_dispatch cb input m = (Inl (if isDomainMachineInput input
      then InvalidDomainTransitionError (snap_state (m_snapshot m)) (input_type input)
      else InvalidDomainMachineInputError), m) \<and>
    getTransition (m_definition m) (snap_state (m_snapshot m)) input = VUndef"
proof -
  let ?d = "m_definition m" and ?s = "m_snapshot m"
  from reachable_ok[OF assms(1)] have m: "definition_ok ?d" "snapshot_ok cb ?d ?s" "\<not> m_evaluating m"
    by (simp_all add: machine_ok_def)
  from m(1,2) have n: "node_ok (prop_val ?d ''states'') (state_node ?d (snap_state ?s))"
    unfolding snapshot_ok_def definition_ok_def by blast
  with assms(2) have "\<not> has_own (prop_val (state_node ?d (snap_state ?s)) ''on'') (input_type input)"
    unfolding node_ok_def isTerminal_def by auto
  moreover from assms(2) have "canTransitionPrepared cb ?d ?s input = Inr False"
    by (simp add: canTransitionPrepared_def isTerminal_def)
  moreover from assms(2) have "transitionPrepared cb ?d ?s input = Inl (if isDomainMachineInput input
      then InvalidDomainTransitionError (snap_state ?s) (input_type input)
      else InvalidDomainMachineInputError)"
    by (simp add: transitionPrepared_def isTerminal_def)
  ultimately show ?thesis using m(3) by (simp add: dispatch_cases can_idle getTransition_def Let_def)
qed

theorem terminal_is_final_witness:
  "\<exists>m. machine_dispatch ex_callbacks ex_input m = (Inl (InvalidDomainTransitionError ''published'' ''publish''), m)"
proof -
  let ?m = "snd (machine_dispatch ex_callbacks ex_input ex_machine)"
  have r: "machine_reachable ex_callbacks ?m"
    by (rule machine_reachable.dispatched[OF machine_reachable.created[OF ex_machine_new], of ex_input
        "fst (machine_dispatch ex_callbacks ex_input ex_machine)"]) simp
  moreover have "isTerminal ?m" by code_simp
  moreover have "snap_state (m_snapshot ?m) = ''published'' \<and> isDomainMachineInput ex_input \<and>
      input_type ex_input = ''publish''" by code_simp
  ultimately show ?thesis using terminal_is_final[OF r, of ex_input] by (intro exI[of _ ?m]) simp
qed

text \<open>
  \<open>can\<close> answers for \<open>dispatch\<close>: when it answers false the dispatch throws one of the
  refusals, when a dispatch returns the answer was true, and asking changes nothing.
\<close>

theorem can_answers_for_dispatch:
  fixes cb :: "('f, 'x) callbacks"
  assumes "machine_reachable cb m"
  shows "snd (machine_can cb input m) = m \<and>
    (fst (machine_can cb input m) = Inr False \<longrightarrow>
      (\<exists>e. machine_dispatch cb input m = (Inl e, m) \<and>
        (e = InvalidDomainMachineInputError \<or> (\<exists>s i. e = InvalidDomainTransitionError s i) \<or>
         (\<exists>s i. e = DomainTransitionGuardRejectedError s i) \<or> (\<exists>x. e = GuardRejection x)))) \<and>
    (\<forall>r m'. machine_dispatch cb input m = (Inr r, m') \<longrightarrow> fst (machine_can cb input m) = Inr True)"
proof -
  from reachable_ok[OF assms] have m: "\<not> m_evaluating m" by (simp add: machine_ok_def)
  let ?d = "m_definition m" and ?s = "m_snapshot m"
  have "\<exists>e. transitionPrepared cb ?d ?s input = Inl e \<and>
      (e = InvalidDomainMachineInputError \<or> (\<exists>s i. e = InvalidDomainTransitionError s i) \<or>
       (\<exists>s i. e = DomainTransitionGuardRejectedError s i) \<or> (\<exists>x. e = GuardRejection x))"
    if "canTransitionPrepared cb ?d ?s input = Inr False"
    using that by (auto simp: canTransitionPrepared_def transitionPrepared_def Let_def
        split: if_splits guard_decision.splits option.splits)
  with can_of_transition[of cb ?d ?s input] show ?thesis
    by (auto simp: dispatch_cases[OF m] can_idle[OF m] split: sum.splits)
qed

theorem can_answers_for_dispatch_witness:
  "fst (machine_can ex_callbacks ex_input ex_machine) = Inr True \<and>
   snd (machine_can ex_callbacks ex_input ex_machine) = ex_machine"
proof -
  have "case machine_dispatch ex_callbacks ex_input ex_machine of (Inr r, m') \<Rightarrow> True | _ \<Rightarrow> False"
    by code_simp
  with can_answers_for_dispatch[OF machine_reachable.created[OF ex_machine_new], of ex_input]
  show ?thesis by (auto split: prod.splits sum.splits)
qed

end
