(* ===== verification/Machine_Analyzer.thy ===== *)
theory Machine_Analyzer
  imports State_Machine "HOL-Library.List_Lexorder" "HOL-Library.Char_ord"
begin

text \<open>
  The structural analysis of a machine definition
  (src/domain-state-machine/analyzer.ts): the declared transitions as a graph, the two graph
  searches over it, from the initial state forwards and from the terminal states backwards,
  and the diagnostics. The stack of a search is kept with its top first; states are sorted
  by their character codes, the order of \<open>compareStrings\<close>.
\<close>

section \<open>The analysis\<close>

datatype diagnostic = UnreachableState string | StructuralDeadEnd string | NoTerminalPath string

record transition_description =
  td_state :: string
  td_inputType :: string
  td_target :: string
  td_guarded :: bool

record analysis =
  an_diagnostics :: "diagnostic list"
  an_transitions :: "transition_description list"
  an_reachable :: "string list"
  an_terminal_path :: "string list"

type_synonym graph = "(string, string list) jmap"

definition edges_of :: "graph \<Rightarrow> string \<Rightarrow> string list" where
  "edges_of g s = (case jget g s of Some ts \<Rightarrow> ts | None \<Rightarrow> [])"

definition push_edge :: "string \<Rightarrow> string \<Rightarrow> graph \<Rightarrow> graph" where
  "push_edge s t g = (case jget g s of Some ts \<Rightarrow> jset s (ts @ [t]) g | None \<Rightarrow> g)"

text \<open>\<open>visitGraph\<close>: pop a state; skip it when visited, else push its unvisited successors.\<close>

function visit_loop :: "graph \<Rightarrow> string list \<Rightarrow> string list \<Rightarrow> string list" where
  "visit_loop g visited [] = visited"
| "visit_loop g visited (s # pending) =
     (if s \<in> set visited then visit_loop g visited pending
      else visit_loop g (visited @ [s]) (rev (filter (\<lambda>t. t \<notin> set (visited @ [s])) (edges_of g s)) @ pending))"
  by pat_completeness auto
termination
proof (relation "measures [\<lambda>(g, visited, pending). card (set (jkeys g) - set visited), \<lambda>(g, visited, pending). length pending]")
  fix g :: graph and visited pending :: "string list" and s :: string
  assume s: "s \<notin> set visited"
  show "((g, visited @ [s], rev (filter (\<lambda>t. t \<notin> set (visited @ [s])) (edges_of g s)) @ pending), (g, visited, s # pending))
    \<in> measures [\<lambda>(g, visited, pending). card (set (jkeys g) - set visited), \<lambda>(g, visited, pending). length pending]"
  proof (cases "s \<in> set (jkeys g)")
    case True
    with s have "set (jkeys g) - set (visited @ [s]) \<subset> set (jkeys g) - set visited" by auto
    then have "card (set (jkeys g) - set (visited @ [s])) < card (set (jkeys g) - set visited)" by (rule psubset_card_mono[rotated]) simp
    then show ?thesis by simp
  next
    case False
    then have "jget g s = None" by (simp add: map_of_eq_None_iff)
    then have "edges_of g s = []" by (simp add: edges_of_def)
    moreover from False have "set (jkeys g) - set (visited @ [s]) = set (jkeys g) - set visited" by auto
    ultimately show ?thesis by simp
  qed
qed simp_all

definition visitGraph :: "string list \<Rightarrow> graph \<Rightarrow> string list" where
  "visitGraph startStates g = visit_loop g [] (rev startStates)"

definition describe_state :: "'f jsv \<Rightarrow> string \<Rightarrow> transition_description list" where
  "describe_state d state =
     (let stateTransitions = prop_val (state_node d state) ''on''
      in concat (map (\<lambda>inputType. let transition = prop_val stateTransitions inputType
           in if transition = VUndef then []
              else [\<lparr>td_state = state, td_inputType = inputType, td_target = str_val (prop_val transition ''target''),
                     td_guarded = (prop_val transition ''guard'' \<noteq> VUndef)\<rparr>])
         (sort (object_keys stateTransitions))))"

definition analyze_stable :: "'f jsv \<Rightarrow> analysis" where
  "analyze_stable d =
     (let states = sort (object_keys (prop_val d ''states''));
          transitions = concat (map (describe_state d) states);
          empty = map (\<lambda>s. (s, [])) states;
          outgoing = fold (\<lambda>t. push_edge (td_state t) (td_target t)) transitions empty;
          incoming = fold (\<lambda>t. push_edge (td_target t) (td_state t)) transitions empty;
          terminal = (\<lambda>s. prop_val (state_node d s) ''terminal'' = VBool True);
          structurallyReachable = visitGraph [str_val (prop_val d ''initial'')] outgoing;
          statesWithTerminalPath = visitGraph (filter terminal states) incoming
      in \<lparr>an_diagnostics = map UnreachableState (filter (\<lambda>s. s \<notin> set structurallyReachable) states)
            @ map StructuralDeadEnd (filter (\<lambda>s. \<not> terminal s \<and> jget outgoing s = Some []) states)
            @ map NoTerminalPath (filter (\<lambda>s. s \<notin> set statesWithTerminalPath) states),
          an_transitions = transitions,
          an_reachable = filter (\<lambda>s. s \<in> set structurallyReachable) states,
          an_terminal_path = filter (\<lambda>s. s \<in> set statesWithTerminalPath) states\<rparr>)"

definition analyzeDomainMachineDefinition :: "bool \<Rightarrow> 'f jsv \<Rightarrow> ('x machine_error, analysis) res" where
  "analyzeDomainMachineDefinition prepared d =
     rbind (ensureStableDomainMachineDefinition prepared d) (\<lambda>stable. Inr (analyze_stable stable))"

section \<open>The searches\<close>

definition links :: "graph \<Rightarrow> (string \<times> string) set" where
  "links g = {(s, t). t \<in> set (edges_of g s)}"

text \<open>
  A search keeps: what is visited leads on to what is visited or pending. So it ends with all
  that its start leads to, and it never leaves it.
\<close>

lemma visit_loop_closed:
  assumes "\<forall>s \<in> set visited. \<forall>t \<in> set (edges_of g s). t \<in> set visited \<union> set pending"
  shows "set visited \<union> set pending \<subseteq> set (visit_loop g visited pending)
    \<and> (\<forall>s \<in> set (visit_loop g visited pending). \<forall>t \<in> set (edges_of g s). t \<in> set (visit_loop g visited pending))"
  using assms
proof (induction g visited pending rule: visit_loop.induct)
  case (2 g visited s pending)
  show ?case
  proof (cases "s \<in> set visited")
    case True
    then have "\<forall>u \<in> set visited. \<forall>t \<in> set (edges_of g u). t \<in> set visited \<union> set pending"
      using "2.prems" by auto
    from "2.IH"(1)[OF True this] True show ?thesis by auto
  next
    case False
    have "\<forall>u \<in> set (visited @ [s]). \<forall>t \<in> set (edges_of g u). t \<in> set (visited @ [s])
        \<union> set (rev (filter (\<lambda>t. t \<notin> set (visited @ [s])) (edges_of g s)) @ pending)"
      using "2.prems" by auto
    from "2.IH"(2)[OF False this] False show ?thesis by auto
  qed
qed simp

lemma visit_loop_inside:
  fixes R :: "string set"
  assumes "set visited \<union> set pending \<subseteq> R" "\<And>s t. s \<in> R \<Longrightarrow> t \<in> set (edges_of g s) \<Longrightarrow> t \<in> R"
  shows "set (visit_loop g visited pending) \<subseteq> R"
  using assms
proof (induction g visited pending rule: visit_loop.induct)
  case (2 g visited s pending)
  show ?case
  proof (cases "s \<in> set visited")
    case True
    with 2 show ?thesis by simp
  next
    case False
    have "set (visited @ [s]) \<union> set (rev (filter (\<lambda>t. t \<notin> set (visited @ [s])) (edges_of g s)) @ pending) \<subseteq> R"
      using "2.prems" by auto
    from "2.IH"(2)[OF False this "2.prems"(2)] False show ?thesis by simp
  qed
qed simp

lemma visitGraph_reachable: "set (visitGraph starts g) = (links g)\<^sup>* `` set starts"
proof
  show "set (visitGraph starts g) \<subseteq> (links g)\<^sup>* `` set starts"
    unfolding visitGraph_def
    by (rule visit_loop_inside) (auto simp: links_def intro: rtrancl_into_rtrancl)
  have c: "set starts \<subseteq> set (visitGraph starts g)"
    "\<forall>s \<in> set (visitGraph starts g). \<forall>t \<in> set (edges_of g s). t \<in> set (visitGraph starts g)"
    using visit_loop_closed[of "[]" g "rev starts"] by (auto simp: visitGraph_def)
  show "(links g)\<^sup>* `` set starts \<subseteq> set (visitGraph starts g)"
  proof
    fix s assume "s \<in> (links g)\<^sup>* `` set starts"
    then obtain a where a: "a \<in> set starts" "(a, s) \<in> (links g)\<^sup>*" by blast
    from a(2) show "s \<in> set (visitGraph starts g)"
      by (induction rule: rtrancl_induct) (use a(1) c in \<open>auto simp: links_def\<close>)
  qed
qed

lemma push_edge_keys [simp]: "jkeys (push_edge s t g) = jkeys g"
  by (simp add: push_edge_def jkeys_set split: option.split)

lemma push_edge_edges: "edges_of (push_edge s t g) u = (if u = s \<and> jhas g s then edges_of g u @ [t] else edges_of g u)"
  by (auto simp: edges_of_def push_edge_def split: option.split)

lemma push_edges_keys [simp]: "jkeys (fold (\<lambda>x. push_edge (f x) (h x)) xs g) = jkeys g"
  by (induction xs arbitrary: g) simp_all

lemma push_edges:
  "t \<in> set (edges_of (fold (\<lambda>x. push_edge (f x) (h x)) xs g) u)
    \<longleftrightarrow> t \<in> set (edges_of g u) \<or> (jhas g u \<and> (\<exists>x \<in> set xs. f x = u \<and> h x = t))"
proof (induction xs arbitrary: g)
  case (Cons x xs)
  have "jhas (push_edge (f x) (h x) g) u = jhas g u" by (auto simp: push_edge_def split: option.split)
  then show ?case by (auto simp: Cons.IH push_edge_edges)
qed simp

section \<open>The graph of a definition\<close>

definition arcs :: "'f jsv \<Rightarrow> (string \<times> string) set" where
  "arcs d = {(s, t). s \<in> set (object_keys (prop_val d ''states'')) \<and>
     (\<exists>i \<in> set (object_keys (prop_val (state_node d s) ''on'')).
        prop_val (prop_val (state_node d s) ''on'') i \<noteq> VUndef \<and>
        t = str_val (prop_val (prop_val (prop_val (state_node d s) ''on'') i) ''target''))}"

abbreviation states_of :: "'f jsv \<Rightarrow> string list" where
  "states_of d \<equiv> object_keys (prop_val d ''states'')"

abbreviation is_terminal :: "'f jsv \<Rightarrow> string \<Rightarrow> bool" where
  "is_terminal d s \<equiv> prop_val (state_node d s) ''terminal'' = VBool True"

lemma described_arc:
  "(\<exists>x \<in> set (concat (map (describe_state d) (sort (states_of d)))). td_state x = s \<and> td_target x = t) \<longleftrightarrow> (s, t) \<in> arcs d"
  by (auto simp: arcs_def describe_state_def Let_def split: if_splits)

lemma arcs_inside:
  assumes "definition_ok d" "(s, t) \<in> arcs d"
  shows "t \<in> set (states_of d)"
proof -
  from assms(2) obtain i where s: "s \<in> set (states_of d)" and i: "i \<in> set (object_keys (prop_val (state_node d s) ''on''))"
    "t = str_val (prop_val (prop_val (prop_val (state_node d s) ''on'') i) ''target'')" by (auto simp: arcs_def)
  from assms(1) s have "node_ok (prop_val d ''states'') (state_node d s)" by (simp add: definition_ok_def)
  with i have "has_own (prop_val d ''states'') t" by (simp add: node_ok_def transition_ok_def)
  with assms(1) show ?thesis by (simp add: definition_ok_def)
qed

definition no_edges :: "'f jsv \<Rightarrow> graph" where
  "no_edges d = map (\<lambda>s. (s, [])) (sort (states_of d))"

lemma no_edges_get [simp]: "jget (no_edges d) s = (if s \<in> set (states_of d) then Some [] else None)"
proof -
  have "map_of (map (\<lambda>s. (s, [])) ss) s = (if s \<in> set ss then Some [] else None)" for ss :: "string list" by (induction ss) auto
  from this[of "sort (states_of d)"] show ?thesis by (simp add: no_edges_def)
qed

lemma no_edges_edges [simp]: "edges_of (no_edges d) s = []"
  by (simp add: edges_of_def)

lemma outgoing_links:
  "links (fold (\<lambda>x. push_edge (td_state x) (td_target x)) (concat (map (describe_state d) (sort (states_of d)))) (no_edges d)) = arcs d"
proof -
  have "(s, t) \<in> arcs d \<Longrightarrow> s \<in> set (states_of d)" for s t by (simp add: arcs_def)
  then show ?thesis by (auto simp: links_def push_edges described_arc simp del: set_concat)
qed

lemma incoming_links:
  assumes "definition_ok d"
  shows "links (fold (\<lambda>x. push_edge (td_target x) (td_state x)) (concat (map (describe_state d) (sort (states_of d)))) (no_edges d)) = (arcs d)\<inverse>"
proof -
  have "(\<exists>x \<in> set (concat (map (describe_state d) (sort (states_of d)))). td_target x = s \<and> td_state x = t) \<longleftrightarrow> (t, s) \<in> arcs d" for s t
    using described_arc[of d t s] by blast
  then show ?thesis using arcs_inside[OF assms] by (auto simp: links_def push_edges simp del: set_concat)
qed

lemma analysis_sets:
  assumes "definition_ok d"
  shows "set (an_reachable (analyze_stable d)) = set (states_of d) \<inter> (arcs d)\<^sup>* `` {str_val (prop_val d ''initial'')}"
    and "NoTerminalPath s \<in> set (an_diagnostics (analyze_stable d)) \<longleftrightarrow>
      s \<in> set (states_of d) \<and> \<not> (\<exists>t \<in> set (states_of d). is_terminal d t \<and> (s, t) \<in> (arcs d)\<^sup>*)"
    and "UnreachableState s \<in> set (an_diagnostics (analyze_stable d)) \<longleftrightarrow>
      s \<in> set (states_of d) \<and> (str_val (prop_val d ''initial''), s) \<notin> (arcs d)\<^sup>*"
    and "StructuralDeadEnd s \<in> set (an_diagnostics (analyze_stable d)) \<longleftrightarrow>
      s \<in> set (states_of d) \<and> \<not> is_terminal d s \<and> s \<notin> Domain (arcs d)"
proof -
  let ?out = "fold (\<lambda>x. push_edge (td_state x) (td_target x)) (concat (map (describe_state d) (sort (states_of d)))) (no_edges d)"
  let ?in = "fold (\<lambda>x. push_edge (td_target x) (td_state x)) (concat (map (describe_state d) (sort (states_of d)))) (no_edges d)"
  have out: "set (visitGraph xs ?out) = (arcs d)\<^sup>* `` set xs" for xs by (simp add: visitGraph_reachable outgoing_links)
  have inc: "set (visitGraph xs ?in) = ((arcs d)\<inverse>)\<^sup>* `` set xs" for xs by (simp add: visitGraph_reachable incoming_links[OF assms])
  have dead: "jget ?out s = Some [] \<longleftrightarrow> s \<notin> Domain (arcs d)" if "s \<in> set (states_of d)"
  proof -
    have "jhas (no_edges d) s" using that by simp
    then have "jhas ?out s" by (simp only: map_of_eq_None_iff push_edges_keys simp_thms set_map[symmetric])
    then obtain ts where ts: "jget ?out s = Some ts" by blast
    then have "edges_of ?out s = ts" by (simp add: edges_of_def)
    then have "t \<in> set ts \<longleftrightarrow> (s, t) \<in> arcs d" for t using outgoing_links[of d] by (auto simp: links_def)
    then have "ts = [] \<longleftrightarrow> s \<notin> Domain (arcs d)" by (metis Domain.simps list.set_intros(1) neq_Nil_conv empty_iff list.set(1))
    with ts show ?thesis by simp
  qed
  note a = analyze_stable_def[of d, unfolded Let_def, folded no_edges_def]
  show "set (an_reachable (analyze_stable d)) = set (states_of d) \<inter> (arcs d)\<^sup>* `` {str_val (prop_val d ''initial'')}"
    unfolding a by (auto simp: out)
  show "NoTerminalPath s \<in> set (an_diagnostics (analyze_stable d)) \<longleftrightarrow>
      s \<in> set (states_of d) \<and> \<not> (\<exists>t \<in> set (states_of d). is_terminal d t \<and> (s, t) \<in> (arcs d)\<^sup>*)"
    unfolding a by (auto simp: inc rtrancl_converse)
  show "UnreachableState s \<in> set (an_diagnostics (analyze_stable d)) \<longleftrightarrow>
      s \<in> set (states_of d) \<and> (str_val (prop_val d ''initial''), s) \<notin> (arcs d)\<^sup>*"
    unfolding a by (auto simp: out)
  show "StructuralDeadEnd s \<in> set (an_diagnostics (analyze_stable d)) \<longleftrightarrow>
      s \<in> set (states_of d) \<and> \<not> is_terminal d s \<and> s \<notin> Domain (arcs d)"
    unfolding a using dead by auto
qed

section \<open>Diagnostics and machines\<close>

text \<open>What calls on a machine may make of it.\<close>

inductive reached_from :: "('f, 'x) callbacks \<Rightarrow> 'f machine \<Rightarrow> 'f machine \<Rightarrow> bool" for cb m where
  start: "reached_from cb m m"
| dispatched: "reached_from cb m m1 \<Longrightarrow> machine_dispatch cb input m1 = (r, m2) \<Longrightarrow> reached_from cb m m2"
| asked: "reached_from cb m m1 \<Longrightarrow> machine_can cb input m1 = (b, m2) \<Longrightarrow> reached_from cb m m2"

lemma transition_arc:
  assumes t: "transitionPrepared cb d s input = Inr r" and d: "definition_ok d" and s: "has_own (prop_val d ''states'') (snap_state s)"
  shows "(snap_state s, out_to r) \<in> arcs d"
proof -
  let ?t = "live_transition d (snap_state s) input" and ?on = "prop_val (state_node d (snap_state s)) ''on''"
  from t have l: "truthy ?t" by (rule transitionPrepared_Inr)
  from t have o: "out_to r = str_val (prop_val ?t ''target'')" by (rule transitionPrepared_Inr)
  from l have g: "?t = prop_val ?on (input_type input)" "has_own ?on (input_type input)"
    by (auto simp: live_transition_def getTransition_def Let_def split: if_splits)
  from d s have "node_ok (prop_val d ''states'') (state_node d (snap_state s))" and k: "snap_state s \<in> set (states_of d)"
    by (simp_all add: definition_ok_def)
  with g(2) have "input_type input \<in> set (object_keys ?on)" by (simp add: node_ok_def)
  with g(1) k truthy_not_undef[OF l] o show ?thesis by (auto simp: arcs_def)
qed

lemma dispatch_arc:
  assumes "machine_ok cb m" "machine_dispatch cb input m = (r, m')"
  shows "m_definition m' = m_definition m
    \<and> (m' = m \<or> (snap_state (m_snapshot m), snap_state (m_snapshot m')) \<in> arcs (m_definition m))"
proof (cases "transitionPrepared cb (m_definition m) (m_snapshot m) input")
  case (Inr x)
  from assms(1) have ok: "definition_ok (m_definition m)" "snapshot_ok cb (m_definition m) (m_snapshot m)" "\<not> m_evaluating m"
    by (simp_all add: machine_ok_def)
  from assms(2) ok(3) Inr have m': "m' = m\<lparr>m_snapshot := out_snapshot x\<rparr>" by (simp add: dispatch_cases)
  have "(snap_state (m_snapshot m), out_to x) \<in> arcs (m_definition m)"
    using Inr ok(1,2) by (intro transition_arc) (auto simp: snapshot_ok_def)
  with transition_snapshot_ok(2)[OF Inr ok(1,2)] m' show ?thesis by simp
qed (use assms in \<open>auto simp: machine_ok_def dispatch_cases\<close>)

lemma reached_from_arcs:
  assumes "reached_from cb m m'" "machine_ok cb m"
  shows "machine_ok cb m' \<and> m_definition m' = m_definition m
    \<and> (snap_state (m_snapshot m), snap_state (m_snapshot m')) \<in> (arcs (m_definition m))\<^sup>*"
  using assms
proof (induction rule: reached_from.induct)
  case (dispatched m1 input r m2)
  then have m1: "machine_ok cb m1" by blast
  from dispatch_ok[OF m1 dispatched.hyps(2)] dispatch_arc[OF m1 dispatched.hyps(2)] dispatched.IH[OF dispatched.prems]
  show ?case by (auto intro: rtrancl_into_rtrancl)
next
  case (asked m1 input b m2)
  with can_ok[of cb m1 input b m2] show ?case by simp
qed simp


definition ex_analysis :: analysis where
  "ex_analysis = analyze_stable (m_definition ex_machine)"


end
