(* ===== verification/Errors.thy ===== *)
theory Errors
  imports Prelude
begin

text \<open>
  The error classes of src/core/errors.ts and src/app/unit-of-work.ts with the identifying
  fields their constructors store (rendered positions and messages are left out), their
  category and retryability. Any other thrown value is \<open>PlainError\<close> (a built-in
  error, by name) or \<open>Thrown\<close> (whatever user code throws); both a kit error and a plain
  error may carry a \<open>cause\<close>. A
  \<open>RollbackError\<close> carries its cause and the error of the scope.
\<close>

datatype kit_error =
    InMemoryCapacityExceededError string string nat nat nat
  | MissingHandlerError string
  | UnprojectableEventError string string
  | ProjectionGapError string string
  | ProjectionOrderViolationError string string
  | ProjectionIdentityViolationError string string string
  | ProjectionReceiptViolationError string string
  | InvalidIntegrationMessageError string
  | HostileStateKeyError string
  | UnreplayableAggregateError string
  | MisaddressedEventError string string string "string option" "string option"
  | SnapshotCorruptedError
  | UnmintedEventError string
  | ForeignEventError string string string "string option" "string option"
  | NonProgressingEventStreamPageError string string nat nat
  | EventHarvestError "string option"
  | UnregisteredHandlerError string string
  | DuplicateHandlerRegistrationError string string
  | ErrorMapperFailedError string
  | UnenrolledChangesError string
  | AggregateDeletedError string
  | AggregateNotFoundError string string
  | DuplicateAggregateError string string
  | SnapshotSchemaMismatchError string string nat nat
  | ConcurrencyConflictError string string nat nat
  | IdempotencyKeyReuseError string string string
  | IdempotencyClaimLostError string string
  | IdempotencyInFlightError string
  | IdempotencyReconciliationRequiredError string string string
  | IdempotencyCompletionWithoutClaimError string
  | NestedUnitOfWorkError
  | TransactionClosedError string
  | CommitError

datatype category = DOMAIN | WIRING | INFRASTRUCTURE

fun category_of :: "kit_error \<Rightarrow> category" where
  "category_of (MissingHandlerError _) = WIRING"
| "category_of (UnprojectableEventError _ _) = WIRING"
| "category_of (HostileStateKeyError _) = WIRING"
| "category_of (UnreplayableAggregateError _) = WIRING"
| "category_of (MisaddressedEventError _ _ _ _ _) = WIRING"
| "category_of (UnmintedEventError _) = WIRING"
| "category_of (EventHarvestError _) = WIRING"
| "category_of (UnregisteredHandlerError _ _) = WIRING"
| "category_of (DuplicateHandlerRegistrationError _ _) = WIRING"
| "category_of (ErrorMapperFailedError _) = WIRING"
| "category_of (UnenrolledChangesError _) = WIRING"
| "category_of (AggregateDeletedError _) = WIRING"
| "category_of (IdempotencyCompletionWithoutClaimError _) = WIRING"
| "category_of NestedUnitOfWorkError = WIRING"
| "category_of (TransactionClosedError _) = WIRING"
| "category_of _ = INFRASTRUCTURE"

fun retryable_of :: "kit_error \<Rightarrow> bool" where
  "retryable_of (ConcurrencyConflictError _ _ _ _) = True"
| "retryable_of (IdempotencyClaimLostError _ _) = True"
| "retryable_of (IdempotencyInFlightError _) = True"
| "retryable_of _ = False"

text \<open>
  What a JavaScript \<open>throw\<close> can carry here. \<open>UserError category retryable n\<close> is an error
  of a user's own subclass of the kit's bases; \<open>Thrown n\<close> an opaque value.
\<close>

datatype js_error =
    KitError kit_error "js_error option"
  | PlainError string "js_error option"
  | RollbackError js_error js_error
  | AggregateError "js_error list"
  | UserError category bool nat
  | Thrown nat

abbreviation kit :: "kit_error \<Rightarrow> js_error" where
  "kit e \<equiv> KitError e None"

abbreviation typeError :: js_error where
  "typeError \<equiv> PlainError ''TypeError'' None"

abbreviation rangeError :: js_error where
  "rangeError \<equiv> PlainError ''RangeError'' None"

text \<open>The \<open>cause\<close> link, and the chain of causes from an error.\<close>

fun cause_of :: "js_error \<Rightarrow> js_error option" where
  "cause_of (KitError _ c) = c"
| "cause_of (PlainError _ c) = c"
| "cause_of (RollbackError c r) = Some c"
| "cause_of _ = None"

fun causes :: "js_error \<Rightarrow> js_error list" where
  "causes (KitError k (Some c)) = KitError k (Some c) # causes c"
| "causes (PlainError n (Some c)) = PlainError n (Some c) # causes c"
| "causes (RollbackError c r) = RollbackError c r # causes c"
| "causes e = [e]"

lemma causes_not_Nil [simp]: "causes e \<noteq> []"
  by (cases e rule: causes.cases) auto

lemma retryable_infrastructure: "retryable_of e \<Longrightarrow> category_of e = INFRASTRUCTURE"
  by (cases e) auto

end
