(* ===== verification/Validation.thy ===== *)
theory Validation
  imports Js_Objects Errors
begin

text \<open>
  The option checks the adapters and pollers share (src/utils/validate.ts), on JavaScript
  numbers. Counts that pass are used as natural numbers.
\<close>

fun js_integer :: "js_num \<Rightarrow> int option" where
  "js_integer (Num q) = (if of_int \<lfloor>q\<rfloor> = q then Some \<lfloor>q\<rfloor> else None)"
| "js_integer _ = None"

definition assertPositiveInteger :: "js_num \<Rightarrow> (js_error, nat) res" where
  "assertPositiveInteger v = (case js_integer v of
     Some n \<Rightarrow> if n < 1 then Inl (PlainError ''Error'' None) else Inr (nat n)
   | None \<Rightarrow> Inl (PlainError ''Error'' None))"

definition assertPositiveSafeInteger :: "js_num \<Rightarrow> (js_error, nat) res" where
  "assertPositiveSafeInteger v =
     (if is_safe_integer v then (case js_integer v of
        Some n \<Rightarrow> if n < 1 then Inl rangeError else Inr (nat n) | None \<Rightarrow> Inl rangeError)
      else Inl rangeError)"

definition opt_limit :: "js_num option \<Rightarrow> (js_error, nat option) res" where
  "opt_limit v = (case v of None \<Rightarrow> Inr None
     | Some n \<Rightarrow> rbind (assertPositiveSafeInteger n) (\<lambda>k. Inr (Some k)))"

definition assertNonNegativeFinite :: "js_num \<Rightarrow> (js_error, rat) res" where
  "assertNonNegativeFinite v = (case v of
     Num q \<Rightarrow> if q < 0 then Inl (PlainError ''Error'' None) else Inr q
   | _ \<Rightarrow> Inl (PlainError ''Error'' None))"

text \<open>A stream position or limit: an absent bound, or a non-negative safe integer.\<close>

definition opt_position :: "js_num option \<Rightarrow> (js_error, nat option) res" where
  "opt_position v = (case v of
     None \<Rightarrow> Inr None
   | Some n \<Rightarrow> (if is_safe_integer n then (case js_integer n of
        Some k \<Rightarrow> if k < 0 then Inl rangeError else Inr (Some (nat k)) | None \<Rightarrow> Inl rangeError)
      else Inl rangeError))"

lemma safe_integer_num: "is_safe_integer (Num (of_nat n)) \<longleftrightarrow> int n \<le> max_safe_integer"
  by (auto simp: max_safe_integer_def)

lemma positive_safe_nat [simp]: "0 < n \<Longrightarrow> int n \<le> max_safe_integer \<Longrightarrow>
    assertPositiveSafeInteger (Num (of_nat n)) = Inr n"
  by (simp add: assertPositiveSafeInteger_def safe_integer_num)

lemma opt_position_nat [simp]: "int n \<le> max_safe_integer \<Longrightarrow> opt_position (Some (Num (of_nat n))) = Inr (Some n)"
  by (simp add: opt_position_def safe_integer_num)

lemma positive_safe_pos: "assertPositiveSafeInteger v = Inr n \<Longrightarrow> 0 < n"
  by (auto simp: assertPositiveSafeInteger_def split: option.splits if_splits)

end
