(* ===== verification/Domain_Events.thy ===== *)
theory Domain_Events
  imports Validation
begin

text \<open>
  Domain events (src/aggregate/domain-event.ts, clock.ts, aggregate-address.ts): the event
  record, the minting constructor with its ownership checks on payload and metadata, the
  metadata helpers, and the qualified source address with its string encoding.
\<close>

section \<open>Addresses\<close>

record aggregate_address =
  addr_type :: string
  addr_id :: string

text \<open>\<open>JSON.stringify\<close> of a string: the ECMAScript \<open>QuoteJSONString\<close> escapes.\<close>

definition hex_digit :: "nat \<Rightarrow> char" where
  "hex_digit n = (if n < 10 then char_of (48 + n) else char_of (87 + n))"

definition short_escape :: "char \<Rightarrow> char option" where
  "short_escape c =
     (if c = CHR 0x22 then Some (CHR 0x22)
      else if c = CHR 0x5C then Some (CHR 0x5C)
      else if c = CHR 0x08 then Some (CHR ''b'')
      else if c = CHR 0x0C then Some (CHR ''f'')
      else if c = CHR 0x0A then Some (CHR ''n'')
      else if c = CHR 0x0D then Some (CHR ''r'')
      else if c = CHR 0x09 then Some (CHR ''t'')
      else None)"

definition json_escape :: "char \<Rightarrow> string" where
  "json_escape c = (case short_escape c of
       Some x \<Rightarrow> [CHR 0x5C, x]
     | None \<Rightarrow> if (of_char c :: nat) < 32
         then [CHR 0x5C, CHR ''u'', CHR ''0'', CHR ''0'', hex_digit (of_char c div 16), hex_digit (of_char c mod 16)]
         else [c])"

definition json_quote :: "string \<Rightarrow> string" where
  "json_quote s = CHR 0x22 # concat (map json_escape s) @ [CHR 0x22]"

definition encodeAggregateAddress :: "aggregate_address \<Rightarrow> string" where
  "encodeAggregateAddress a =
     ''['' @ json_quote (addr_type a) @ '','' @ json_quote (addr_id a) @ '']''"

subsection \<open>The encoding loses nothing\<close>

lemma hex_digit_inj:
  assumes "a < 16" "b < 16" "hex_digit a = hex_digit b"
  shows "a = b"
proof -
  have "(of_char (hex_digit a) :: nat) = of_char (hex_digit b)" using assms(3) by simp
  with assms(1,2) show ?thesis by (simp add: hex_digit_def split: if_splits)
qed

lemma of_char_eq: "(of_char c :: nat) div 16 = of_char d div 16 \<Longrightarrow> (of_char c :: nat) mod 16 = of_char d mod 16 \<Longrightarrow> c = d"
  by (metis div_mult_mod_eq of_char_eq_iff)

lemma low_nibbles: "(of_char c :: nat) < 32 \<Longrightarrow> (of_char d :: nat) < 32 \<Longrightarrow>
    hex_digit (of_char c div 16) = hex_digit (of_char d div 16) \<Longrightarrow>
    hex_digit (of_char c mod 16) = hex_digit (of_char d mod 16) \<Longrightarrow> c = d"
  by (rule of_char_eq; rule hex_digit_inj) (auto simp: div_less_iff_less_mult)

lemma short_escape_inj: "short_escape c = Some x \<Longrightarrow> short_escape d = Some x \<Longrightarrow> c = d"
  unfolding short_escape_def by (auto split: if_splits)

lemma short_escape_not_u: "short_escape c = Some x \<Longrightarrow> x \<noteq> CHR ''u''"
  by (auto simp: short_escape_def split: if_splits)

lemma short_escape_None: "short_escape c = None \<Longrightarrow> c \<noteq> CHR 0x5C \<and> c \<noteq> CHR 0x22"
  by (auto simp: short_escape_def split: if_splits)

lemma json_escape_prefix_free:
  "json_escape c @ r = json_escape d @ q \<Longrightarrow> c = d \<and> r = q"
  using low_nibbles[of c d] short_escape_None[of c] short_escape_None[of d]
    short_escape_not_u[of c] short_escape_not_u[of d] short_escape_inj[of c _ d]
  by (cases "short_escape c"; cases "short_escape d") (auto simp: json_escape_def split: if_splits)

lemma json_escape_no_quote: "json_escape c @ r \<noteq> CHR 0x22 # q"
  using short_escape_None[of c] by (auto simp: json_escape_def split: option.splits)

lemma json_body_inj:
  "concat (map json_escape s) @ CHR 0x22 # r = concat (map json_escape t) @ CHR 0x22 # q \<Longrightarrow> s = t \<and> r = q"
proof (induction s arbitrary: t)
  case Nil
  show ?case
  proof (cases t)
    case (Cons d t')
    with Nil have "json_escape d @ concat (map json_escape t') @ CHR 0x22 # q = CHR 0x22 # r" by simp
    with json_escape_no_quote show ?thesis by blast
  qed (use Nil in simp)
next
  case (Cons c s)
  show ?case
  proof (cases t)
    case Nil
    with Cons.prems have "json_escape c @ concat (map json_escape s) @ CHR 0x22 # r = CHR 0x22 # q" by simp
    with json_escape_no_quote show ?thesis by blast
  next
    case (Cons d t')
    with Cons.prems have "json_escape c @ concat (map json_escape s) @ CHR 0x22 # r =
        json_escape d @ concat (map json_escape t') @ CHR 0x22 # q" by simp
    from json_escape_prefix_free[OF this] Cons.IH[of t'] Cons show ?thesis by simp
  qed
qed

lemma json_quote_inj: "json_quote s @ r = json_quote t @ q \<Longrightarrow> s = t \<and> r = q"
  using json_body_inj[of s r t q] by (simp add: json_quote_def)

text \<open>
  The map key of an aggregate address identifies the address: aggregates of different
  types, or with different ids, never share a source key, whatever characters they hold.
\<close>

theorem encoded_address_unique: "encodeAggregateAddress a = encodeAggregateAddress b \<longleftrightarrow> a = b"
proof
  assume "encodeAggregateAddress a = encodeAggregateAddress b"
  then have "json_quote (addr_type a) @ CHR '','' # json_quote (addr_id a) @ '']'' =
      json_quote (addr_type b) @ CHR '','' # json_quote (addr_id b) @ '']''"
    by (simp add: encodeAggregateAddress_def)
  from json_quote_inj[OF this] have "addr_type a = addr_type b"
    and "json_quote (addr_id a) @ '']'' = json_quote (addr_id b) @ '']''" by simp_all
  with json_quote_inj show "a = b" by (metis aggregate_address.equality old.unit.exhaust)
qed simp

section \<open>Event data\<close>

text \<open>
  The values a payload or a metadata entry can hold, as the ownership check and the
  structured clone tell them apart: primitives, symbols, functions, binary data (views
  and buffers), what cannot be cloned (a promise, a weak collection), maps (keys and
  values flattened in iteration order), sets, arrays, and objects by their own enumerable
  string keys.
\<close>

datatype ev_data =
    EPrim js_num | EBool bool | EStr string | EUndef | ENull | ESym string | EFun nat
  | EBinary nat | EUncloneable nat
  | EMap "ev_data list" | ESet "ev_data list" | EArr "ev_data list"
  | EObj "(string \<times> ev_data) list"

text \<open>Does the walk of \<open>assertNoBinaryData\<close> meet binary data?\<close>

fun has_binary :: "ev_data \<Rightarrow> bool" where
  "has_binary (EBinary n) = True"
| "has_binary (EMap vs) \<longleftrightarrow> (\<exists>v \<in> set vs. has_binary v)"
| "has_binary (ESet vs) \<longleftrightarrow> (\<exists>v \<in> set vs. has_binary v)"
| "has_binary (EArr vs) \<longleftrightarrow> (\<exists>v \<in> set vs. has_binary v)"
| "has_binary (EObj es) \<longleftrightarrow> (\<exists>e \<in> set es. has_binary (snd e))"
| "has_binary _ = False"

definition assertNoBinaryData :: "ev_data \<Rightarrow> (js_error, unit) res" where
  "assertNoBinaryData v = guard_res (\<not> has_binary v) typeError"

text \<open>
  \<open>structuredClone\<close> refuses functions, symbols and uncloneable values at any depth; on
  values without identity the clone equals its source.
\<close>

fun cloneable :: "ev_data \<Rightarrow> bool" where
  "cloneable (EFun n) = False"
| "cloneable (ESym s) = False"
| "cloneable (EUncloneable n) = False"
| "cloneable (EMap vs) \<longleftrightarrow> (\<forall>v \<in> set vs. cloneable v)"
| "cloneable (ESet vs) \<longleftrightarrow> (\<forall>v \<in> set vs. cloneable v)"
| "cloneable (EArr vs) \<longleftrightarrow> (\<forall>v \<in> set vs. cloneable v)"
| "cloneable (EObj es) \<longleftrightarrow> (\<forall>e \<in> set es. cloneable (snd e))"
| "cloneable _ = True"

fun is_object_data :: "ev_data \<Rightarrow> bool" where
  "is_object_data (EBinary _) = True"
| "is_object_data (EUncloneable _) = True"
| "is_object_data (EMap _) = True"
| "is_object_data (ESet _) = True"
| "is_object_data (EArr _) = True"
| "is_object_data (EObj _) = True"
| "is_object_data _ = False"

definition cloneOwnedEventData :: "ev_data \<Rightarrow> (js_error, ev_data) res" where
  "cloneOwnedEventData v =
     (if (case v of EFun n \<Rightarrow> True | _ \<Rightarrow> False) then Inl typeError
      else if \<not> is_object_data v then Inr v
      else rbind (assertNoBinaryData v) (\<lambda>_.
        if cloneable v then Inr v else Inl typeError))"

section \<open>Metadata\<close>

text \<open>
  A metadata object by its own properties: the key, the value and whether the property is
  enumerable. The order of the merged keys is the order of definition.
\<close>

type_synonym metadata_obj = "(pkey, ev_data \<times> bool) jmap"

definition assertNoHostileOwnProtoKey :: "metadata_obj \<Rightarrow> (js_error, unit) res" where
  "assertNoHostileOwnProtoKey m =
     guard_res (\<not> jhas m (KStr ''__proto__'')) (kit (HostileStateKeyError ''__proto__''))"

text \<open>The loop over one metadata object, and the spread of an object into a literal.\<close>

fun define_enumerable :: "metadata_obj \<Rightarrow> metadata_obj \<Rightarrow> metadata_obj" where
  "define_enumerable merged [] = merged"
| "define_enumerable merged ((k, v, e) # m) =
     define_enumerable (if e then jset k (v, True) merged else merged) m"

fun mergeMetadata_into :: "metadata_obj \<Rightarrow> metadata_obj option list \<Rightarrow> (js_error, metadata_obj) res" where
  "mergeMetadata_into merged [] = Inr merged"
| "mergeMetadata_into merged (None # ms) = mergeMetadata_into merged ms"
| "mergeMetadata_into merged (Some m # ms) = rbind (assertNoHostileOwnProtoKey m) (\<lambda>_.
     mergeMetadata_into (define_enumerable merged m) ms)"

definition mergeMetadata :: "metadata_obj option list \<Rightarrow> (js_error, metadata_obj) res" where
  "mergeMetadata = mergeMetadata_into []"

definition opt_check :: "('a \<Rightarrow> ('e, unit) res) \<Rightarrow> 'a option \<Rightarrow> ('e, unit) res" where
  "opt_check f x = (case x of None \<Rightarrow> Inr () | Some a \<Rightarrow> f a)"

definition copyMetadata :: "metadata_obj option \<Rightarrow> metadata_obj option \<Rightarrow> (js_error, metadata_obj) res" where
  "copyMetadata source additional =
     rbind (opt_check assertNoHostileOwnProtoKey source) (\<lambda>_.
     rbind (opt_check assertNoHostileOwnProtoKey additional) (\<lambda>_.
     Inr (define_enumerable (define_enumerable [] (case source of Some m \<Rightarrow> m | None \<Rightarrow> []))
       (case additional of Some m \<Rightarrow> m | None \<Rightarrow> []))))"

text \<open>
  The clone of the metadata of an event keeps the enumerable string-keyed entries.
\<close>

definition own_enumerable :: "metadata_obj \<Rightarrow> (string \<times> ev_data) list" where
  "own_enumerable m = concat (map (\<lambda>(k, v, e). case k of KStr s \<Rightarrow> if e then [(s, v)] else [] | KSym _ \<Rightarrow> []) m)"

definition guardedMetadataClone ::
    "metadata_obj option \<Rightarrow> (js_error, metadata_obj option) res" where
  "guardedMetadataClone metadata = (case metadata of
     None \<Rightarrow> Inr None
   | Some m \<Rightarrow> rbind (assertNoHostileOwnProtoKey m) (\<lambda>_.
       rbind (cloneOwnedEventData (EObj (own_enumerable m))) (\<lambda>_.
       Inr (Some (map (\<lambda>(k, v). (KStr k, v, True)) (own_enumerable m))))))"

section \<open>Minting\<close>

text \<open>\<open>minted\<close> is the brand: the event was built by the minting constructor or adopted.\<close>

record 'p domain_event =
  eventId :: string
  event_type :: string
  ev_aggregateId :: "string option"
  ev_aggregateType :: "string option"
  payload :: 'p
  occurredAt :: js_num
  event_version :: nat
  metadata :: "metadata_obj option"
  minted :: bool

record event_options =
  opt_eventId :: "string option"
  opt_aggregateId :: "string option"
  opt_aggregateType :: "string option"
  opt_occurredAt :: "js_num option"
  opt_version :: "nat option"
  opt_metadata :: "metadata_obj option"

text \<open>A clock is read as the millisecond value of its date, \<open>None\<close> for a non-date.\<close>

definition readClock :: "js_num option \<Rightarrow> (js_error, js_num) res" where
  "readClock reading = (let value = (case reading of Some t \<Rightarrow> t | None \<Rightarrow> NaN)
     in if is_finite value then Inr value else Inl typeError)"

definition mintDomainEvent :: "string \<Rightarrow> ev_data \<Rightarrow> event_options \<Rightarrow> string \<Rightarrow> js_num option
    \<Rightarrow> (js_error, ev_data domain_event) res" where
  "mintDomainEvent type pl options newId clock =
     rbind (cloneOwnedEventData pl) (\<lambda>p.
     rbind (case opt_occurredAt options of Some t \<Rightarrow> Inr t | None \<Rightarrow> readClock clock) (\<lambda>t.
     rbind (guardedMetadataClone (opt_metadata options)) (\<lambda>m.
     Inr \<lparr>eventId = (case opt_eventId options of Some i \<Rightarrow> i | None \<Rightarrow> newId),
          event_type = type, ev_aggregateId = opt_aggregateId options,
          ev_aggregateType = opt_aggregateType options, payload = p, occurredAt = t,
          event_version = (case opt_version options of Some v \<Rightarrow> v | None \<Rightarrow> 1),
          metadata = m, minted = True\<rparr>)))"

definition isMintedEvent :: "('p, 'z) domain_event_scheme \<Rightarrow> bool" where
  "isMintedEvent e = minted e"

definition adoptMintedEvent :: "('p, 'z) domain_event_scheme \<Rightarrow> ('p, 'z) domain_event_scheme" where
  "adoptMintedEvent e = e\<lparr>minted := True\<rparr>"

section \<open>What minting guarantees\<close>

text \<open>The values reachable inside a value.\<close>

inductive part_of :: "ev_data \<Rightarrow> ev_data \<Rightarrow> bool" where
  itself: "part_of v v"
| in_map: "part_of u v \<Longrightarrow> v \<in> set vs \<Longrightarrow> part_of u (EMap vs)"
| in_set: "part_of u v \<Longrightarrow> v \<in> set vs \<Longrightarrow> part_of u (ESet vs)"
| in_arr: "part_of u v \<Longrightarrow> v \<in> set vs \<Longrightarrow> part_of u (EArr vs)"
| in_obj: "part_of u v \<Longrightarrow> (k, v) \<in> set es \<Longrightarrow> part_of u (EObj es)"

inductive_cases part_of_leaf: "part_of u (EPrim n)" "part_of u (EBool b)" "part_of u (EStr s)" "part_of u EUndef" "part_of u ENull"
  "part_of u (ESym s)"

fun plain_leaf :: "ev_data \<Rightarrow> bool" where
  "plain_leaf (EFun n) = False"
| "plain_leaf (EBinary n) = False"
| "plain_leaf (EUncloneable n) = False"
| "plain_leaf _ = True"

lemma parts_plain: "part_of u v \<Longrightarrow> \<not> has_binary v \<Longrightarrow> cloneable v \<Longrightarrow> plain_leaf u"
proof (induction rule: part_of.induct)
  case (itself v)
  then show ?case by (cases v) auto
qed fastforce+

lemma clone_parts_plain:
  assumes "cloneOwnedEventData v = Inr w"
  shows "w = v \<and> (\<forall>u. part_of u v \<longrightarrow> plain_leaf u)"
proof (cases "is_object_data v")
  case True
  with assms parts_plain show ?thesis
    by (auto simp: cloneOwnedEventData_def assertNoBinaryData_def split: if_splits)
next
  case False
  with assms show ?thesis
    by (cases v) (auto simp: cloneOwnedEventData_def elim: part_of_leaf)
qed

lemma own_enumerable_mem: "(s, v) \<in> set (own_enumerable m) \<Longrightarrow> (KStr s, v, True) \<in> set m"
  by (auto simp: own_enumerable_def split: pkey.splits if_splits)


definition ex_options :: event_options where
  "ex_options = \<lparr>opt_eventId = None, opt_aggregateId = Some ''o-1'', opt_aggregateType = Some ''Order'',
     opt_occurredAt = None, opt_version = None,
     opt_metadata = Some [(KStr ''userId'', EStr ''u'', True)]\<rparr>"


section \<open>What merging gives\<close>

lemma define_enumerable_get: "jok m \<Longrightarrow> jget (define_enumerable merged m) k =
    (case jget m k of Some (v, True) \<Rightarrow> Some (v, True) | _ \<Rightarrow> jget merged k)"
proof (induction merged m rule: define_enumerable.induct)
  case (2 merged k' v e m)
  then have "jok m" "k' \<notin> fst ` set m" by (auto simp: jok_def)
  then have "jget m k' = None" by (simp add: jget_None_iff)
  with 2 \<open>jok m\<close> show ?case by (auto split: option.splits)
qed simp

text \<open>The value the last of the objects defines for a key.\<close>

fun last_defined :: "metadata_obj option list \<Rightarrow> pkey \<Rightarrow> ev_data option" where
  "last_defined [] k = None"
| "last_defined (None # ms) k = last_defined ms k"
| "last_defined (Some m # ms) k = (case last_defined ms k of Some v \<Rightarrow> Some v
     | None \<Rightarrow> (case jget m k of Some (v, True) \<Rightarrow> Some v | _ \<Rightarrow> None))"

lemma mergeMetadata_into_get:
  "mergeMetadata_into acc ms = Inr merged \<Longrightarrow> (\<And>m. Some m \<in> set ms \<Longrightarrow> jok m) \<Longrightarrow>
    jget merged k = (case last_defined ms k of Some v \<Rightarrow> Some (v, True) | None \<Rightarrow> jget acc k)"
proof (induction acc ms rule: mergeMetadata_into.induct)
  case (3 acc m ms)
  then have "mergeMetadata_into (define_enumerable acc m) ms = Inr merged" "jok m" by auto
  with 3 show ?case by (auto simp: define_enumerable_get split: option.splits bool.splits)
qed simp_all

lemma mergeMetadata_into_ok:
  "(\<exists>merged. mergeMetadata_into acc ms = Inr merged) \<longleftrightarrow> (\<forall>m. Some m \<in> set ms \<longrightarrow> \<not> jhas m (KStr ''__proto__''))"
  by (induction acc ms rule: mergeMetadata_into.induct) (auto simp: assertNoHostileOwnProtoKey_def)

text \<open>
  Merging metadata succeeds exactly when no object carries an own \<open>__proto__\<close>; each key
  then has the enumerable value of the last object that defines it.
\<close>

theorem merge_last_wins:
  assumes "\<And>m. Some m \<in> set ms \<Longrightarrow> jok m"
  shows "case mergeMetadata ms of
      Inr merged \<Rightarrow> (\<forall>m. Some m \<in> set ms \<longrightarrow> \<not> jhas m (KStr ''__proto__'')) \<and>
        (\<forall>k. jget merged k = map_option (\<lambda>v. (v, True)) (last_defined ms k))
    | Inl e \<Rightarrow> (\<exists>m. Some m \<in> set ms \<and> jhas m (KStr ''__proto__'')) \<and> e = kit (HostileStateKeyError ''__proto__'')"
proof (cases "mergeMetadata ms")
  case (Inr merged)
  then have "mergeMetadata_into [] ms = Inr merged" by (simp add: mergeMetadata_def)
  from mergeMetadata_into_get[OF this assms] mergeMetadata_into_ok[of "[]" ms] this Inr show ?thesis
    by (auto simp: map_option_case split: option.splits)
next
  case (Inl e)
  have "mergeMetadata_into acc ms = Inl e \<Longrightarrow> e = kit (HostileStateKeyError ''__proto__'')" for acc
    by (induction acc ms rule: mergeMetadata_into.induct)
      (auto simp: assertNoHostileOwnProtoKey_def rbind_Inl_iff)
  with Inl mergeMetadata_into_ok[of "[]" ms] show ?thesis by (auto simp: mergeMetadata_def)
qed

theorem merge_last_wins_witness:
  "case mergeMetadata [Some [(KStr ''a'', EStr ''1'', True)], None, Some [(KStr ''a'', EStr ''2'', True)]] of
     Inr merged \<Rightarrow> jget merged (KStr ''a'') = Some (EStr ''2'', True) | Inl e \<Rightarrow> False"
proof -
  let ?ms = "[Some [(KStr ''a'', EStr ''1'', True)], None, Some [(KStr ''a'', EStr ''2'', True)]]"
  have "Some m \<in> set ?ms \<Longrightarrow> jok m" for m by (auto simp: jok_def)
  from merge_last_wins[of ?ms, OF this] show ?thesis by (auto split: sum.splits)
qed

text \<open>
  \<open>copyMetadata\<close> is the merge of the metadata of the source event with the additions.
\<close>

theorem copy_is_merge: "copyMetadata source additional = mergeMetadata [source, additional]"
  by (cases source; cases additional)
    (simp_all add: copyMetadata_def mergeMetadata_def opt_check_def assertNoHostileOwnProtoKey_def guard_res_def)

end
