(* ===== verification/Outbox.thy ===== *)
theory Outbox
  imports Domain_Events
begin

text \<open>
  The in-memory outbox (src/events/outbox.ts, ports.ts): pending records, dead letters,
  the bounded receipts of dispatched events and the source cursors that link commits.
  Every operation is a function on \<open>outbox_state\<close>; \<open>add\<close> returns its error together with
  the state at the throw, as the code leaves it.
\<close>

section \<open>State\<close>

record commit_position =
  aggregateVersion :: nat
  commitSequence :: nat
  commitSize :: nat

record linked_position = commit_position +
  previousEventfulAggregateVersion :: "nat option"

record 'p candidate =
  c_event :: "'p domain_event"
  c_source :: aggregate_address
  c_position :: commit_position

record 'p outbox_record =
  dispatchId :: string
  r_event :: "'p domain_event"
  r_source :: aggregate_address
  r_position :: linked_position
  attempts :: nat
  lastError :: "js_error option"

record source_cursor =
  cur_version :: nat
  cur_previous :: "nat option"
  cur_commitSize :: nat
  eventIdsBySequence :: "(nat, string) jmap"

record receipt =
  rc_source :: aggregate_address
  rc_position :: commit_position

record 'p outbox_state =
  pending :: "(string, 'p outbox_record) jmap"
  dead :: "(string, 'p outbox_record) jmap"
  sourceCursors :: "(string, source_cursor) jmap"
  dispatchedEventIds :: "(string, receipt) jmap"
  maxDeliveryAttempts :: nat
  maxRetainedDispatchedEventIds :: nat
  maxRecords :: "nat option"
  maxSources :: "nat option"

record outbox_options =
  o_maxRecords :: "js_num option"
  o_maxSources :: "js_num option"
  o_maxDeliveryAttempts :: "js_num option"
  o_maxRetained :: "js_num option"

definition new_outbox :: "outbox_options \<Rightarrow> (js_error, 'p outbox_state) res" where
  "new_outbox options =
     rbind (assertPositiveInteger (case o_maxDeliveryAttempts options of Some n \<Rightarrow> n | None \<Rightarrow> Num 5)) (\<lambda>m.
     rbind (assertPositiveInteger (case o_maxRetained options of Some n \<Rightarrow> n | None \<Rightarrow> Num 10000)) (\<lambda>r.
     rbind (opt_limit (o_maxRecords options)) (\<lambda>recs.
     rbind (opt_limit (o_maxSources options)) (\<lambda>srcs.
     Inr \<lparr>pending = [], dead = [], sourceCursors = [], dispatchedEventIds = [],
       maxDeliveryAttempts = m, maxRetainedDispatchedEventIds = r, maxRecords = recs, maxSources = srcs\<rparr>))))"

section \<open>Checks\<close>

abbreviation harvest_error :: "'p domain_event \<Rightarrow> js_error" where
  "harvest_error e \<equiv> kit (EventHarvestError (Some (event_type e)))"

abbreviation cid :: "'p candidate \<Rightarrow> string" where
  "cid c \<equiv> eventId (c_event c)"

abbreviation csource :: "'p candidate \<Rightarrow> string" where
  "csource c \<equiv> encodeAggregateAddress (c_source c)"

abbreviation cversion :: "'p candidate \<Rightarrow> nat" where
  "cversion c \<equiv> aggregateVersion (c_position c)"

definition assertSameEventSource ::
    "'p domain_event \<Rightarrow> aggregate_address \<Rightarrow> aggregate_address \<Rightarrow> (js_error, unit) res" where
  "assertSameEventSource e received recorded = guard_res
     (addr_type received = addr_type recorded \<and> addr_id received = addr_id recorded) (harvest_error e)"

definition assertSameCandidateReceipt :: "'p domain_event \<Rightarrow> commit_position
    \<Rightarrow> ('z) commit_position_scheme \<Rightarrow> bool \<Rightarrow> (js_error, unit) res" where
  "assertSameCandidateReceipt e received recorded allowRefresh = guard_res
     ((allowRefresh \<or> aggregateVersion received = aggregateVersion recorded) \<and>
      commitSequence received = commitSequence recorded \<and> commitSize received = commitSize recorded)
     (harvest_error e)"

definition check_recorded :: "'p candidate \<Rightarrow> aggregate_address
    \<Rightarrow> ('z) commit_position_scheme \<Rightarrow> bool \<Rightarrow> (js_error, unit) res" where
  "check_recorded c src pos allowRefresh =
     rbind (assertSameEventSource (c_event c) (c_source c) src) (\<lambda>_.
     assertSameCandidateReceipt (c_event c) (c_position c) pos allowRefresh)"

fun assertBatchEventReceiptIntegrity_from ::
    "'p outbox_state \<Rightarrow> (string, receipt) jmap \<Rightarrow> 'p candidate list \<Rightarrow> (js_error, unit) res" where
  "assertBatchEventReceiptIntegrity_from s receiptsInBatch [] = Inr ()"
| "assertBatchEventReceiptIntegrity_from s receiptsInBatch (c # cs) =
     rbind (case jget receiptsInBatch (cid c) of
              Some r \<Rightarrow> check_recorded c (rc_source r) (rc_position r) False
            | None \<Rightarrow> Inr ()) (\<lambda>_.
     let batch' = (if jhas receiptsInBatch (cid c) then receiptsInBatch
                   else jset (cid c) \<lparr>rc_source = c_source c, rc_position = c_position c\<rparr> receiptsInBatch)
     in rbind (case jget (dispatchedEventIds s) (cid c) of
                 Some r \<Rightarrow> check_recorded c (rc_source r) (rc_position r) False
               | None \<Rightarrow>
                   rbind (case jget (pending s) (cid c) of
                      Some r \<Rightarrow> check_recorded c (r_source r) (r_position r) True | None \<Rightarrow> Inr ()) (\<lambda>_.
                   (case jget (dead s) (cid c) of
                      Some r \<Rightarrow> check_recorded c (r_source r) (r_position r) False | None \<Rightarrow> Inr ()))) (\<lambda>_.
        assertBatchEventReceiptIntegrity_from s batch' cs))"

definition assertBatchEventReceiptIntegrity :: "'p outbox_state \<Rightarrow> 'p candidate list \<Rightarrow> (js_error, unit) res" where
  "assertBatchEventReceiptIntegrity s = assertBatchEventReceiptIntegrity_from s []"

definition cursorWithEvent :: "source_cursor \<Rightarrow> nat \<Rightarrow> string \<Rightarrow> source_cursor" where
  "cursorWithEvent cursor seq i = cursor\<lparr>eventIdsBySequence := jset seq i (eventIdsBySequence cursor)\<rparr>"

definition fresh_cursor :: "'p candidate \<Rightarrow> nat option \<Rightarrow> source_cursor" where
  "fresh_cursor c prev = \<lparr>cur_version = cversion c, cur_previous = prev,
     cur_commitSize = commitSize (c_position c),
     eventIdsBySequence = [(commitSequence (c_position c), cid c)]\<rparr>"

text \<open>The position of an event at the head version of its source: same size, free or its own.\<close>

definition check_position :: "'p candidate \<Rightarrow> source_cursor \<Rightarrow> (js_error, unit) res" where
  "check_position c cursor = guard_res
     (cur_commitSize cursor = commitSize (c_position c) \<and>
      (case jget (eventIdsBySequence cursor) (commitSequence (c_position c)) of
         Some owner \<Rightarrow> owner = cid c | None \<Rightarrow> True)) (harvest_error (c_event c))"

fun assertBatchPositionIntegrity_from ::
    "'p outbox_state \<Rightarrow> (string, source_cursor) jmap \<Rightarrow> 'p candidate list \<Rightarrow> (js_error, unit) res" where
  "assertBatchPositionIntegrity_from s sim [] = Inr ()"
| "assertBatchPositionIntegrity_from s sim (c # cs) =
     (let cursor = (case jget sim (csource c) of Some k \<Rightarrow> Some k | None \<Rightarrow> jget (sourceCursors s) (csource c))
      in case cursor of
        None \<Rightarrow> assertBatchPositionIntegrity_from s (jset (csource c) (fresh_cursor c None) sim) cs
      | Some k \<Rightarrow>
          if cur_version k < cversion c
          then assertBatchPositionIntegrity_from s (jset (csource c) (fresh_cursor c (Some (cur_version k))) sim) cs
          else if cversion c < cur_version k then assertBatchPositionIntegrity_from s sim cs
          else rbind (check_position c k) (\<lambda>_.
            assertBatchPositionIntegrity_from s
              (if jhas (eventIdsBySequence k) (commitSequence (c_position c)) then sim
               else jset (csource c) (cursorWithEvent k (commitSequence (c_position c)) (cid c)) sim) cs))"

definition assertBatchPositionIntegrity :: "'p outbox_state \<Rightarrow> 'p candidate list \<Rightarrow> (js_error, unit) res" where
  "assertBatchPositionIntegrity s = assertBatchPositionIntegrity_from s []"

definition known :: "'p outbox_state \<Rightarrow> string \<Rightarrow> bool" where
  "known s i \<longleftrightarrow> jhas (pending s) i \<or> jhas (dead s) i \<or> jhas (dispatchedEventIds s) i"

definition new_ids :: "'p outbox_state \<Rightarrow> 'p candidate list \<Rightarrow> string list" where
  "new_ids s cs = remdups (map cid (filter (\<lambda>c. \<not> known s (cid c)) cs))"

definition new_sources :: "'p outbox_state \<Rightarrow> 'p candidate list \<Rightarrow> string list" where
  "new_sources s cs = remdups (filter (\<lambda>k. \<not> jhas (sourceCursors s) k)
     (map csource (filter (\<lambda>c. \<not> known s (cid c)) cs)))"

definition exceeds :: "nat \<Rightarrow> nat option \<Rightarrow> bool" where
  "exceeds n limit = (case limit of Some m \<Rightarrow> m < n | None \<Rightarrow> False)"

definition assertCapacity :: "'p outbox_state \<Rightarrow> 'p candidate list \<Rightarrow> (js_error, unit) res" where
  "assertCapacity s cs =
     (let records = length (pending s) + length (dead s);
          newRecords = length (new_ids s cs); newSources = length (new_sources s cs)
      in if exceeds (records + newRecords) (maxRecords s)
         then Inl (kit (InMemoryCapacityExceededError ''InMemoryOutbox'' ''records''
                (the (maxRecords s)) records newRecords))
         else if exceeds (length (sourceCursors s) + newSources) (maxSources s)
         then Inl (kit (InMemoryCapacityExceededError ''InMemoryOutbox'' ''sources''
                (the (maxSources s)) (length (sourceCursors s)) newSources))
         else Inr ())"

section \<open>Operations\<close>

text \<open>Refresh the receipt, then drop the oldest ones beyond the bound.\<close>

definition to_receipt :: "aggregate_address \<Rightarrow> ('z) commit_position_scheme \<Rightarrow> receipt" where
  "to_receipt src pos = \<lparr>rc_source = src, rc_position =
     \<lparr>aggregateVersion = aggregateVersion pos, commitSequence = commitSequence pos, commitSize = commitSize pos\<rparr>\<rparr>"

fun evict_oldest :: "nat \<Rightarrow> ('k, 'v) jmap \<Rightarrow> ('k, 'v) jmap" where
  "evict_oldest n m = (if n < length m then (case m of [] \<Rightarrow> [] | _ # m' \<Rightarrow> evict_oldest n m') else m)"

declare evict_oldest.simps [simp del]

definition rememberDispatched :: "string \<Rightarrow> aggregate_address \<Rightarrow> ('z) commit_position_scheme
    \<Rightarrow> 'p outbox_state \<Rightarrow> 'p outbox_state" where
  "rememberDispatched i src pos s = s\<lparr>dispatchedEventIds :=
     evict_oldest (maxRetainedDispatchedEventIds s)
       (jset i (to_receipt src pos) (jdel i (dispatchedEventIds s)))\<rparr>"

text \<open>The head a candidate is stale against, if any.\<close>

definition stale_head :: "'p outbox_state \<Rightarrow> 'p candidate \<Rightarrow> nat option" where
  "stale_head s c = (case jget (pending s) (cid c) of
     Some existing \<Rightarrow> if cversion c < aggregateVersion (r_position existing)
                      then Some (aggregateVersion (r_position existing)) else None
   | None \<Rightarrow> (case jget (sourceCursors s) (csource c) of
       Some cursor \<Rightarrow> if cversion c < cur_version cursor then Some (cur_version cursor) else None
     | None \<Rightarrow> None))"

definition check_head :: "'p outbox_state \<Rightarrow> 'p candidate \<Rightarrow> (js_error, unit) res" where
  "check_head s c = (case jget (sourceCursors s) (csource c) of
     Some cursor \<Rightarrow> if cur_version cursor = cversion c then check_position c cursor else Inr ()
   | None \<Rightarrow> Inr ())"

text \<open>Join the commit the cursor is at, unless the sequence is already owned.\<close>

definition join_cursor :: "'p candidate \<Rightarrow> source_cursor \<Rightarrow> (string, source_cursor) jmap
    \<Rightarrow> (string, source_cursor) jmap" where
  "join_cursor c cursor m = (if jhas (eventIdsBySequence cursor) (commitSequence (c_position c)) then m
     else jset (csource c) (cursorWithEvent cursor (commitSequence (c_position c)) (cid c)) m)"

text \<open>The predecessor of the commit, and the cursors after the candidate.\<close>

definition link_commit :: "'p outbox_state \<Rightarrow> 'p candidate
    \<Rightarrow> nat option \<times> (string, source_cursor) jmap" where
  "link_commit s c =
     (let cursors = sourceCursors s; cursor = jget cursors (csource c)
      in case jget (pending s) (cid c) of
        Some existing \<Rightarrow>
          (let pos = r_position existing; prev = previousEventfulAggregateVersion pos
           in if aggregateVersion pos \<noteq> cversion c
              then (prev, case cursor of
                 Some k \<Rightarrow>
                   if cur_version k = aggregateVersion pos
                   then jset (csource c) (fresh_cursor c prev) cursors
                   else if cur_version k = cversion c then join_cursor c k cursors
                   else cursors
               | None \<Rightarrow> cursors)
              else (prev, cursors))
      | None \<Rightarrow>
          (case cursor of
             Some k \<Rightarrow>
               if cur_version k = cversion c then (cur_previous k, join_cursor c k cursors)
               else (Some (cur_version k), jset (csource c) (fresh_cursor c (Some (cur_version k))) cursors)
           | None \<Rightarrow> (None, jset (csource c) (fresh_cursor c None) cursors)))"

definition link_position :: "commit_position \<Rightarrow> nat option \<Rightarrow> linked_position" where
  "link_position pos prev = \<lparr>aggregateVersion = aggregateVersion pos, commitSequence = commitSequence pos,
     commitSize = commitSize pos, previousEventfulAggregateVersion = prev\<rparr>"

definition new_record :: "'p candidate \<Rightarrow> nat option \<Rightarrow> 'p outbox_record" where
  "new_record c prev = \<lparr>dispatchId = cid c, r_event = c_event c, r_source = c_source c,
     r_position = link_position (c_position c) prev, attempts = 0, lastError = None\<rparr>"

text \<open>One round of the loop of \<open>add\<close>: it throws before it changes anything, or updates the state.\<close>

definition add_one :: "'p outbox_state \<Rightarrow> 'p candidate \<Rightarrow> (js_error, 'p outbox_state) res" where
  "add_one s c = (case jget (dispatchedEventIds s) (cid c) of
     Some r \<Rightarrow> rbind (check_recorded c (rc_source r) (rc_position r) False) (\<lambda>_.
       Inr (rememberDispatched (cid c) (rc_source r) (rc_position r) s))
   | None \<Rightarrow>
     rbind (case jget (pending s) (cid c) of
        Some existing \<Rightarrow> check_recorded c (r_source existing) (r_position existing) True
      | None \<Rightarrow> Inr ()) (\<lambda>_.
     case jget (dead s) (cid c) of
       Some d \<Rightarrow> rbind (check_recorded c (r_source d) (r_position d) False) (\<lambda>_.
         Inr (s\<lparr>dead := jdel (cid c) (dead s),
                pending := jset (cid c) (d\<lparr>attempts := 0, lastError := None\<rparr>) (pending s)\<rparr>))
     | None \<Rightarrow>
       rbind (guard_res (stale_head s c = None) (harvest_error (c_event c))) (\<lambda>_.
       rbind (check_head s c) (\<lambda>_.
       let (prev, cursors) = link_commit s c;
           s' = s\<lparr>sourceCursors := cursors\<rparr>
       in Inr (case jget (pending s) (cid c) of
            Some existing \<Rightarrow> s'\<lparr>pending := jset (cid c) (existing\<lparr>r_event := c_event c,
                r_source := c_source c, r_position := link_position (c_position c) prev\<rparr>) (pending s)\<rparr>
          | None \<Rightarrow> s'\<lparr>pending := jset (cid c) (new_record c prev) (pending s)\<rparr>)))))"

fun add_loop :: "'p candidate list \<Rightarrow> 'p outbox_state \<Rightarrow> (js_error, unit) res \<times> 'p outbox_state" where
  "add_loop [] s = (Inr (), s)"
| "add_loop (c # cs) s = (case add_one s c of Inl e \<Rightarrow> (Inl e, s) | Inr s' \<Rightarrow> add_loop cs s')"

definition add :: "'p candidate list \<Rightarrow> 'p outbox_state \<Rightarrow> (js_error, unit) res \<times> 'p outbox_state" where
  "add cs s = (case rbind (assertBatchEventReceiptIntegrity s cs) (\<lambda>_.
       rbind (assertBatchPositionIntegrity s cs) (\<lambda>_. assertCapacity s cs)) of
     Inl e \<Rightarrow> (Inl e, s)
   | Inr _ \<Rightarrow> add_loop cs s)"

text \<open>\<open>getPending\<close>: a missing limit is no limit, \<open>NaN\<close> and negative ones are zero.\<close>

fun at_least :: "nat \<Rightarrow> js_num \<Rightarrow> bool" where
  "at_least n (Num q) \<longleftrightarrow> q \<le> of_nat n"
| "at_least n PosInfinity = False"
| "at_least n _ = True"

fun take_until :: "js_num \<Rightarrow> nat \<Rightarrow> 'a list \<Rightarrow> 'a list" where
  "take_until limit n [] = []"
| "take_until limit n (x # xs) = (if at_least n limit then [] else x # take_until limit (Suc n) xs)"

definition pending_limit :: "js_num option \<Rightarrow> js_num" where
  "pending_limit limit = (case limit of
     None \<Rightarrow> PosInfinity
   | Some NaN \<Rightarrow> Num 0
   | Some (Num q) \<Rightarrow> Num (max 0 q)
   | Some NegInfinity \<Rightarrow> Num 0
   | Some PosInfinity \<Rightarrow> PosInfinity)"

definition getPending :: "js_num option \<Rightarrow> 'p outbox_state \<Rightarrow> 'p outbox_record list" where
  "getPending limit s = take_until (pending_limit limit) 0 (jvals (pending s))"

definition mark_one :: "string \<Rightarrow> 'p outbox_state \<Rightarrow> 'p outbox_state" where
  "mark_one i s =
     (let record = (case jget (pending s) i of Some r \<Rightarrow> Some r | None \<Rightarrow> jget (dead s) i);
          s' = (case record of Some r \<Rightarrow> rememberDispatched i (r_source r) (r_position r) s | None \<Rightarrow> s)
      in s'\<lparr>pending := jdel i (pending s'), dead := jdel i (dead s')\<rparr>)"

definition markDispatched :: "string list \<Rightarrow> 'p outbox_state \<Rightarrow> 'p outbox_state" where
  "markDispatched is s = fold mark_one is s"

definition markFailed :: "string \<Rightarrow> js_error \<Rightarrow> 'p outbox_state
    \<Rightarrow> 'p outbox_record option \<times> 'p outbox_state" where
  "markFailed i err s = (case jget (pending s) i of
     None \<Rightarrow> (None, s)
   | Some r \<Rightarrow>
       let r' = r\<lparr>attempts := attempts r + 1, lastError := Some err\<rparr>
       in if maxDeliveryAttempts s \<le> attempts r'
          then (Some r', s\<lparr>pending := jdel i (pending s), dead := jset i r' (dead s)\<rparr>)
          else (None, s\<lparr>pending := jset i r' (pending s)\<rparr>))"

definition deadLetters :: "'p outbox_state \<Rightarrow> 'p outbox_record list" where
  "deadLetters s = jvals (dead s)"

text \<open>The writer that accepts the loss of events.\<close>

definition outboxWriterAcceptingEventLoss_add :: "'p candidate list \<Rightarrow> (js_error, unit) res" where
  "outboxWriterAcceptingEventLoss_add events = Inr ()"

section \<open>The invariant\<close>

definition records_ok :: "(nat \<Rightarrow> bool) \<Rightarrow> (string, 'p outbox_record) jmap \<Rightarrow> bool" where
  "records_ok P m \<longleftrightarrow> jok m \<and> (\<forall>i r. jget m i = Some r \<longrightarrow> dispatchId r = i \<and> eventId (r_event r) = i \<and> P (attempts r))"

definition fits :: "nat \<Rightarrow> nat option \<Rightarrow> bool" where
  "fits n limit \<longleftrightarrow> \<not> exceeds n limit"

definition outbox_ok :: "'p outbox_state \<Rightarrow> bool" where
  "outbox_ok s \<longleftrightarrow>
     records_ok (\<lambda>n. n < maxDeliveryAttempts s) (pending s) \<and>
     records_ok (\<lambda>n. n = maxDeliveryAttempts s) (dead s) \<and>
     (\<forall>i. jhas (pending s) i \<longrightarrow> \<not> jhas (dead s) i) \<and>
     jok (sourceCursors s) \<and> jok (dispatchedEventIds s) \<and>
     length (dispatchedEventIds s) \<le> maxRetainedDispatchedEventIds s \<and>
     fits (length (pending s) + length (dead s)) (maxRecords s) \<and>
     fits (length (sourceCursors s)) (maxSources s) \<and>
     0 < maxDeliveryAttempts s \<and> 0 < maxRetainedDispatchedEventIds s"

text \<open>What no operation touches.\<close>

definition same_config :: "'p outbox_state \<Rightarrow> 'p outbox_state \<Rightarrow> bool" where
  "same_config s s' \<longleftrightarrow> maxDeliveryAttempts s' = maxDeliveryAttempts s \<and>
     maxRetainedDispatchedEventIds s' = maxRetainedDispatchedEventIds s \<and>
     maxRecords s' = maxRecords s \<and> maxSources s' = maxSources s"

lemma same_config_trans: "same_config s t \<Longrightarrow> same_config t u \<Longrightarrow> same_config s u"
  by (simp add: same_config_def)

lemma fits_mono: "fits n limit \<Longrightarrow> m \<le> n \<Longrightarrow> fits m limit"
  by (auto simp: fits_def exceeds_def split: option.splits)

lemma records_ok_set:
  "records_ok P m \<Longrightarrow> dispatchId r = i \<Longrightarrow> eventId (r_event r) = i \<Longrightarrow> P (attempts r) \<Longrightarrow> records_ok P (jset i r m)"
  by (auto simp: records_ok_def)

lemma records_ok_del: "records_ok P m \<Longrightarrow> records_ok P (jdel i m)"
  by (auto simp: records_ok_def)

lemma records_okD:
  "records_ok P m \<Longrightarrow> jget m i = Some r \<Longrightarrow> dispatchId r = i \<and> eventId (r_event r) = i \<and> P (attempts r)"
  by (auto simp: records_ok_def)

lemma evict_oldest_spec: "jok m \<Longrightarrow> jok (evict_oldest n m) \<and> length (evict_oldest n m) \<le> n
    \<and> (length m \<le> n \<longrightarrow> evict_oldest n m = m) \<and> set (evict_oldest n m) \<subseteq> set m"
proof (induction n m rule: evict_oldest.induct)
  case (1 n m)
  show ?case
  proof (cases "n < length m")
    case True
    then obtain p m' where m: "m = p # m'" by (cases m) auto
    with "1.prems" have "jok m'" by (simp add: jok_def)
    with "1.IH"[OF True m] True m show ?thesis by (auto simp: evict_oldest.simps[of n "p # m'"])
  qed (use 1 in \<open>simp add: evict_oldest.simps[of n m]\<close>)
qed

lemma remember_fields [simp]:
  "pending (rememberDispatched i src pos s) = pending s" "dead (rememberDispatched i src pos s) = dead s"
  "sourceCursors (rememberDispatched i src pos s) = sourceCursors s"
  "same_config s (rememberDispatched i src pos s)"
  by (simp_all add: rememberDispatched_def same_config_def)

lemma remember_ok [state_invs]: "outbox_ok s \<Longrightarrow> outbox_ok (rememberDispatched i src pos s)"
  using evict_oldest_spec[of "jset i (to_receipt src pos) (jdel i (dispatchedEventIds s))"
      "maxRetainedDispatchedEventIds s"]
  by (simp add: outbox_ok_def rememberDispatched_def)

lemma mark_one_ok [state_invs]:
  assumes "outbox_ok s"
  shows "outbox_ok (mark_one i s)"
proof -
  have "outbox_ok (t\<lparr>pending := jdel i (pending t), dead := jdel i (dead t)\<rparr>)" if "outbox_ok t" for t :: "'a outbox_state"
    using that length_jdel_le[of i "pending t"] length_jdel_le[of i "dead t"]
    by (auto simp: outbox_ok_def records_ok_del intro: fits_mono)
  with assms show ?thesis by (auto simp: mark_one_def Let_def remember_ok split: option.splits)
qed

lemma markDispatched_ok [state_invs]: "outbox_ok s \<Longrightarrow> outbox_ok (markDispatched is s)"
  unfolding markDispatched_def by (induction "is" arbitrary: s) (auto intro: mark_one_ok)

lemma markFailed_ok [state_invs]:
  assumes s: "outbox_ok s" and f: "markFailed i err s = (d, s')"
  shows "outbox_ok s'"
proof (cases "jget (pending s) i")
  case None
  with assms show ?thesis by (simp add: markFailed_def)
next
  case (Some r)
  let ?r = "r\<lparr>attempts := attempts r + 1, lastError := Some err\<rparr>"
  from s Some have r: "dispatchId r = i" "eventId (r_event r) = i" "attempts r < maxDeliveryAttempts s"
    and nd: "jget (dead s) i = None" and ok: "jok (pending s)" "jok (dead s)"
    by (auto simp: outbox_ok_def records_ok_def)
  have "length (jdel i (pending s)) + length (jset i ?r (dead s)) = length (pending s) + length (dead s)"
    using Some nd ok js_map.size_pos[of "pending s" i] by (simp add: length_jdel length_jset)
  then have "outbox_ok (s\<lparr>pending := jdel i (pending s), dead := jset i ?r (dead s)\<rparr>)" if "attempts ?r = maxDeliveryAttempts s"
    using s r that by (auto simp: outbox_ok_def records_ok_del records_ok_set)
  moreover have "outbox_ok (s\<lparr>pending := jset i ?r (pending s)\<rparr>)" if "attempts ?r < maxDeliveryAttempts s"
    using s r that Some by (auto simp: outbox_ok_def records_ok_set length_jset)
  moreover have "attempts ?r \<le> maxDeliveryAttempts s" using r(3) by simp
  ultimately show ?thesis using f Some
    by (cases "attempts ?r = maxDeliveryAttempts s") (auto simp: markFailed_def Let_def split: if_splits)
qed

subsection \<open>Adding\<close>

text \<open>The room the capacity check leaves for the rest of a batch.\<close>

definition room :: "'p outbox_state \<Rightarrow> 'p candidate list \<Rightarrow> bool" where
  "room s cs \<longleftrightarrow> fits (length (pending s) + length (dead s) + length (new_ids s cs)) (maxRecords s) \<and>
     fits (length (sourceCursors s) + length (new_sources s cs)) (maxSources s)"

lemma length_new: "length (new_ids s cs) = card (set (new_ids s cs))"
    "length (new_sources s cs) = card (set (new_sources s cs))"
  by (simp_all only: new_ids_def new_sources_def length_remdups_card_conv set_remdups)

lemma set_new: "set (new_ids s cs) = {i \<in> cid ` set cs. \<not> known s i}"
    "set (new_sources s cs) = {k \<in> csource ` {c \<in> set cs. \<not> known s (cid c)}. \<not> jhas (sourceCursors s) k}"
  unfolding new_ids_def new_sources_def by (simp_all only: set_remdups set_map set_filter) blast+

lemma new_ids_known: "known s (cid c) \<Longrightarrow> new_ids s (c # cs) = new_ids s cs"
  and new_sources_known: "known s (cid c) \<Longrightarrow> new_sources s (c # cs) = new_sources s cs"
  by (simp_all add: new_ids_def new_sources_def)

lemma room_same_keys:
  assumes "room s (c # cs)" "known s (cid c)" and same: "same_config s s'" "\<And>i. known s' i = known s i"
    "length (pending s') + length (dead s') = length (pending s) + length (dead s)"
    "\<And>k. jhas (sourceCursors s') k = jhas (sourceCursors s) k"
    "length (sourceCursors s') = length (sourceCursors s)"
  shows "room s' cs"
proof -
  have "new_ids s' cs = new_ids s cs" "new_sources s' cs = new_sources s cs"
    using same by (simp_all add: new_ids_def new_sources_def)
  with assms show ?thesis
    by (simp add: room_def new_ids_known new_sources_known same_config_def)
qed

lemma room_new_record:
  assumes "room s (c # cs)" "\<not> known s (cid c)" "same_config s s'"
    and k: "\<And>i. known s' i \<longleftrightarrow> i = cid c \<or> known s i"
    and l: "length (pending s') + length (dead s') = Suc (length (pending s) + length (dead s))"
    and cu: "\<And>k. jhas (sourceCursors s') k \<longleftrightarrow> k = csource c \<or> jhas (sourceCursors s) k"
    and lc: "length (sourceCursors s') = (if jhas (sourceCursors s) (csource c) then length (sourceCursors s)
      else Suc (length (sourceCursors s)))"
  shows "room s' cs"
proof -
  have ids: "set (new_ids s (c # cs)) = insert (cid c) (set (new_ids s' cs))" "cid c \<notin> set (new_ids s' cs)"
    unfolding set_new using assms(2) k by (simp_all, blast)
  then have a: "length (new_ids s (c # cs)) = Suc (length (new_ids s' cs))"
    unfolding length_new by simp
  have sub: "set (new_sources s' cs) \<subseteq> set (new_sources s (c # cs)) - (if jhas (sourceCursors s) (csource c) then {} else {csource c})"
    and mem: "\<not> jhas (sourceCursors s) (csource c) \<Longrightarrow> csource c \<in> set (new_sources s (c # cs))"
    unfolding set_new using assms(2) k cu by (auto split: if_splits)
  have "length (new_sources s' cs) + (if jhas (sourceCursors s) (csource c) then 0 else 1)
      \<le> length (new_sources s (c # cs))"
  proof (cases "jhas (sourceCursors s) (csource c)")
    case True
    with sub show ?thesis unfolding length_new by (auto intro: card_mono)
  next
    case False
    then have "csource c \<in> set (new_sources s (c # cs))" by (rule mem)
    with sub False have "insert (csource c) (set (new_sources s' cs)) \<subseteq> set (new_sources s (c # cs))"
      "csource c \<notin> set (new_sources s' cs)" by auto
    then have "Suc (card (set (new_sources s' cs))) \<le> card (set (new_sources s (c # cs)))"
      by (metis card_insert_disjoint card_mono finite_set)
    with False show ?thesis unfolding length_new by simp
  qed
  with assms(1,3) a l lc show ?thesis
    by (auto simp: room_def same_config_def split: if_splits elim: fits_mono)
qed

lemma join_cursor_keys:
  assumes "jget m (csource c) = Some k"
  shows "jget (join_cursor c k m) x = None \<longleftrightarrow> jget m x = None" "length (join_cursor c k m) = length m"
    "jok m \<Longrightarrow> jok (join_cursor c k m)"
  using assms by (auto simp: join_cursor_def length_jset)

lemma link_commit_existing:
  assumes "jget (pending s) (cid c) = Some r"
  shows "jhas (snd (link_commit s c)) x = jhas (sourceCursors s) x"
    "length (snd (link_commit s c)) = length (sourceCursors s)"
    "jok (sourceCursors s) \<Longrightarrow> jok (snd (link_commit s c))"
  using assms by (auto simp: link_commit_def Let_def join_cursor_keys length_jset simp del: not_None_eq split: option.splits)

lemma link_commit_new:
  assumes "jget (pending s) (cid c) = None"
  shows "jhas (snd (link_commit s c)) x \<longleftrightarrow> x = csource c \<or> jhas (sourceCursors s) x"
    "length (snd (link_commit s c)) = (if jhas (sourceCursors s) (csource c) then length (sourceCursors s)
      else Suc (length (sourceCursors s)))"
    "jok (sourceCursors s) \<Longrightarrow> jok (snd (link_commit s c))"
  using assms by (auto simp: link_commit_def Let_def join_cursor_keys length_jset simp del: not_None_eq split: option.splits)

text \<open>The four ways a candidate is taken in.\<close>

lemma add_one_cases:
  assumes "add_one s c = Inr s'"
  obtains (acknowledged) r where "jget (dispatchedEventIds s) (cid c) = Some r"
      "s' = rememberDispatched (cid c) (rc_source r) (rc_position r) s"
  | (requeued) d where "jget (dispatchedEventIds s) (cid c) = None" "jget (dead s) (cid c) = Some d"
      "s' = s\<lparr>dead := jdel (cid c) (dead s), pending := jset (cid c) (d\<lparr>attempts := 0, lastError := None\<rparr>) (pending s)\<rparr>"
  | (refreshed) r where "jget (dispatchedEventIds s) (cid c) = None" "jget (dead s) (cid c) = None"
      "jget (pending s) (cid c) = Some r" "stale_head s c = None" "check_head s c = Inr ()"
      "s' = s\<lparr>sourceCursors := snd (link_commit s c), pending := jset (cid c) (r\<lparr>r_event := c_event c,
        r_source := c_source c, r_position := link_position (c_position c) (fst (link_commit s c))\<rparr>) (pending s)\<rparr>"
  | (recorded) "\<not> known s (cid c)" "stale_head s c = None" "check_head s c = Inr ()"
      "s' = s\<lparr>sourceCursors := snd (link_commit s c),
        pending := jset (cid c) (new_record c (fst (link_commit s c))) (pending s)\<rparr>"
proof (cases "jget (dispatchedEventIds s) (cid c)")
  case (Some r)
  with assms acknowledged show ?thesis by (auto simp: add_one_def)
next
  case dn: None
  show ?thesis
  proof (cases "jget (dead s) (cid c)")
    case (Some d)
    with assms dn requeued show ?thesis by (auto simp: add_one_def)
  next
    case None
    with dn assms refreshed recorded show ?thesis
      by (cases "jget (pending s) (cid c)") (auto simp: add_one_def known_def split: prod.splits)
  qed
qed

lemma evict_id: "length m \<le> n \<Longrightarrow> evict_oldest n m = m"
  by (simp add: evict_oldest.simps)

lemma add_one_room:
  assumes ok: "outbox_ok s" and r: "room s (c # cs)" and a: "add_one s c = Inr s'"
  shows "room s' cs"
  using a
proof (cases rule: add_one_cases)
  case (acknowledged r)
  then have "length (jset (cid c) (to_receipt (rc_source r) (rc_position r)) (jdel (cid c) (dispatchedEventIds s)))
      = length (dispatchedEventIds s)"
    using ok js_map.touch_keeps_size[of "dispatchedEventIds s" "cid c" r] by (simp add: outbox_ok_def)
  then have "known s' i = known s i" for i
    using acknowledged ok by (auto simp: known_def rememberDispatched_def outbox_ok_def evict_id)
  with r acknowledged show ?thesis by (intro room_same_keys[of s c cs]) (auto simp: known_def)
next
  case (requeued d)
  have "jget (pending s) (cid c) = None" using ok requeued by (cases "jget (pending s) (cid c)") (auto simp: outbox_ok_def)
  moreover have "0 < length (dead s)" using requeued(2) by (cases "dead s") auto
  ultimately show ?thesis using requeued ok r
    by (intro room_same_keys[of s c cs])
      (auto simp: known_def same_config_def length_jset length_jdel outbox_ok_def records_ok_def)
next
  case (refreshed r)
  with assms(2) show ?thesis
    by (intro room_same_keys[of s c cs])
      (auto simp: known_def same_config_def length_jset link_commit_existing simp del: not_None_eq)
next
  case recorded
  then have "jget (pending s) (cid c) = None" by (simp add: known_def)
  with recorded r show ?thesis
    by (intro room_new_record[of s c cs])
      (auto simp: known_def same_config_def length_jset link_commit_new simp del: not_None_eq)
qed

lemma add_one_ok [state_invs]:
  assumes ok: "outbox_ok s" and r: "room s (c # cs)" and a: "add_one s c = Inr s'"
  shows "outbox_ok s'" "same_config s s'"
proof -
  from add_one_room[OF assms] have "room s' cs" .
  then have cap: "fits (length (pending s') + length (dead s')) (maxRecords s')"
    "fits (length (sourceCursors s')) (maxSources s')"
    by (auto simp: room_def elim: fits_mono)
  from a have "outbox_ok s' \<and> same_config s s'"
  proof (cases rule: add_one_cases)
    case (acknowledged r)
    with ok show ?thesis by (simp add: remember_ok)
  next
    case (requeued d)
    then have "dispatchId d = cid c" "eventId (r_event d) = cid c" "0 < maxDeliveryAttempts s"
      using ok by (auto simp: outbox_ok_def dest: records_okD)
    with requeued ok cap show ?thesis
      by (auto simp: outbox_ok_def same_config_def records_ok_del intro!: records_ok_set)
  next
    case (refreshed r)
    then have "dispatchId r = cid c" "attempts r < maxDeliveryAttempts s"
      using ok by (auto simp: outbox_ok_def dest: records_okD)
    with refreshed ok cap show ?thesis
      by (auto simp: outbox_ok_def same_config_def link_commit_existing intro!: records_ok_set)
  next
    case recorded
    then have "jget (pending s) (cid c) = None" "jget (dead s) (cid c) = None" by (simp_all add: known_def)
    with recorded ok cap show ?thesis
      by (auto simp: outbox_ok_def same_config_def link_commit_new new_record_def intro!: records_ok_set)
  qed
  then show "outbox_ok s'" "same_config s s'" by simp_all
qed

lemma add_loop_ok:
  assumes "outbox_ok s" "room s cs" "add_loop cs s = (r, s')"
  shows "outbox_ok s' \<and> same_config s s'"
  using assms
proof (induction cs arbitrary: s)
  case Nil
  then show ?case by (simp add: same_config_def)
next
  case (Cons c cs)
  show ?case
  proof (cases "add_one s c")
    case (Inl e)
    with Cons.prems show ?thesis by (simp add: same_config_def)
  next
    case (Inr t)
    with Cons.prems add_one_ok[OF Cons.prems(1,2) Inr] add_one_room[OF Cons.prems(1,2) Inr] Cons.IH[of t]
    show ?thesis by (auto intro: same_config_trans)
  qed
qed

lemma assertCapacity_room: "assertCapacity s cs = Inr u \<Longrightarrow> room s cs"
  by (auto simp: assertCapacity_def room_def fits_def Let_def split: if_splits)

lemma add_ok [state_invs]:
  assumes "outbox_ok s" "add cs s = (r, s')"
  shows "outbox_ok s' \<and> same_config s s'"
  using assms add_loop_ok[of s cs r s'] assertCapacity_room[of s cs]
  by (auto simp: add_def same_config_def split: sum.splits)

lemma new_outbox_ok: "new_outbox options = Inr s \<Longrightarrow> outbox_ok s"
  by (auto simp: new_outbox_def outbox_ok_def records_ok_def fits_def exceeds_def assertPositiveInteger_def
      split: option.splits if_splits)

text \<open>The states of an outbox: construction, then any sequence of operations.\<close>

inductive outbox_reachable :: "'p outbox_state \<Rightarrow> bool" where
  created: "new_outbox options = Inr s \<Longrightarrow> outbox_reachable s"
| added: "outbox_reachable s \<Longrightarrow> add cs s = (r, s') \<Longrightarrow> outbox_reachable s'"
| acknowledged: "outbox_reachable s \<Longrightarrow> outbox_reachable (markDispatched is s)"
| failed: "outbox_reachable s \<Longrightarrow> markFailed i err s = (d, s') \<Longrightarrow> outbox_reachable s'"

lemma outbox_reachable_ok: "outbox_reachable s \<Longrightarrow> outbox_ok s"
  by (induction rule: outbox_reachable.induct)
    (auto dest: new_outbox_ok add_ok markFailed_ok intro: markDispatched_ok)

section \<open>Batches of new events\<close>

text \<open>
  The specification of the source chain: per source, the version of its last eventful
  commit and the version before that one. \<open>link_batch\<close> gives each candidate of a batch the
  predecessor of its commit.
\<close>

type_synonym chain = "string \<Rightarrow> (nat \<times> nat option) option"

definition chain_of :: "(string, source_cursor) jmap \<Rightarrow> chain" where
  "chain_of cursors k = map_option (\<lambda>cur. (cur_version cur, cur_previous cur)) (jget cursors k)"

definition extend_chain :: "chain \<Rightarrow> 'p candidate \<Rightarrow> chain" where
  "extend_chain ch c = (case ch (csource c) of
     None \<Rightarrow> ch(csource c \<mapsto> (cversion c, None))
   | Some (v, p) \<Rightarrow> if v = cversion c then ch else ch(csource c \<mapsto> (cversion c, Some v)))"

definition chain_prev :: "chain \<Rightarrow> 'p candidate \<Rightarrow> nat option" where
  "chain_prev ch c = (case extend_chain ch c (csource c) of Some (v, p) \<Rightarrow> p | None \<Rightarrow> None)"

fun link_batch :: "chain \<Rightarrow> 'p candidate list \<Rightarrow> (string, 'p outbox_record) jmap" where
  "link_batch ch [] = []"
| "link_batch ch (c # cs) = (cid c, new_record c (chain_prev ch c)) # link_batch (extend_chain ch c) cs"

text \<open>No candidate is older than the head of its source at its turn.\<close>

fun in_version_order :: "chain \<Rightarrow> 'p candidate list \<Rightarrow> bool" where
  "in_version_order ch [] = True"
| "in_version_order ch (c # cs) \<longleftrightarrow>
     (case ch (csource c) of Some (v, p) \<Rightarrow> v \<le> cversion c | None \<Rightarrow> True) \<and>
     in_version_order (extend_chain ch c) cs"

definition fresh_batch :: "'p outbox_state \<Rightarrow> 'p candidate list \<Rightarrow> bool" where
  "fresh_batch s cs \<longleftrightarrow> distinct (map cid cs) \<and> (\<forall>c \<in> set cs. \<not> known s (cid c))"

text \<open>The cursors the position check simulates, over those of the state.\<close>

definition overlay :: "(string, source_cursor) jmap \<Rightarrow> (string, source_cursor) jmap \<Rightarrow> string \<Rightarrow> source_cursor option" where
  "overlay sim cursors k = (case jget sim k of Some c \<Rightarrow> Some c | None \<Rightarrow> jget cursors k)"

lemma chain_join [simp]: "jget m (csource c) = Some k \<Longrightarrow> chain_of (join_cursor c k m) = chain_of m"
  by (auto simp: chain_of_def join_cursor_def cursorWithEvent_def fun_eq_iff)

lemma add_one_fresh:
  assumes "\<not> known t (cid c)" and "stale_head t c = None" and "check_head t c = Inr ()"
  shows "add_one t c = Inr (t\<lparr>sourceCursors := snd (link_commit t c),
    pending := pending t @ [(cid c, new_record c (fst (link_commit t c)))]\<rparr>)"
  using assms by (auto simp: add_one_def known_def jset_new split: prod.splits)

lemma link_commit_chain:
  assumes "\<not> known t (cid c)"
  shows "fst (link_commit t c) = chain_prev (chain_of (sourceCursors t)) c"
    "chain_of (snd (link_commit t c)) = extend_chain (chain_of (sourceCursors t)) c"
proof -
  have p: "jget (pending t) (cid c) = None" using assms by (simp add: known_def)
  show "fst (link_commit t c) = chain_prev (chain_of (sourceCursors t)) c"
    by (auto simp: link_commit_def p chain_prev_def extend_chain_def chain_of_def split: option.splits)
  show "chain_of (snd (link_commit t c)) = extend_chain (chain_of (sourceCursors t)) c"
    by (auto simp: link_commit_def p extend_chain_def fun_eq_iff fresh_cursor_def Let_def split: option.splits)
      (auto simp: chain_of_def)
qed

text \<open>On a fresh candidate in order, the check and the loop take the same step.\<close>

lemma position_step:
  assumes "assertBatchPositionIntegrity_from s sim (c # cs) = Inr ()"
    and ov: "overlay sim (sourceCursors s) = jget (sourceCursors t)"
    and "\<not> known t (cid c)" and "in_version_order (chain_of (sourceCursors t)) (c # cs)"
  shows "\<exists>sim'. assertBatchPositionIntegrity_from s sim' cs = Inr () \<and> stale_head t c = None \<and>
    check_head t c = Inr () \<and> overlay sim' (sourceCursors s) = jget (snd (link_commit t c))"
proof -
  have p: "jget (pending t) (cid c) = None" using assms(3) by (simp add: known_def)
  have cur: "(case jget sim (csource c) of Some k \<Rightarrow> Some k | None \<Rightarrow> jget (sourceCursors s) (csource c))
      = jget (sourceCursors t) (csource c)" using ov by (simp add: overlay_def fun_eq_iff)
  have set_ov: "overlay (jset k v sim) (sourceCursors s) = jget (jset k v (sourceCursors t))" for k v
    using ov by (auto simp: overlay_def fun_eq_iff)
  show ?thesis
  proof (cases "jget (sourceCursors t) (csource c)")
    case None
    with assms(1) cur have "assertBatchPositionIntegrity_from s (jset (csource c) (fresh_cursor c None) sim) cs = Inr ()"
      by simp
    with None p set_ov show ?thesis
      by (auto simp: stale_head_def check_head_def link_commit_def Let_def)
  next
    case (Some k)
    with assms(4) have le: "cur_version k \<le> cversion c" by (simp add: chain_of_def)
    show ?thesis
    proof (cases "cur_version k < cversion c")
      case True
      with assms(1) cur Some have "assertBatchPositionIntegrity_from s
          (jset (csource c) (fresh_cursor c (Some (cur_version k))) sim) cs = Inr ()" by simp
      with True Some p set_ov show ?thesis
        by (auto simp: stale_head_def check_head_def link_commit_def Let_def)
    next
      case False
      let ?sim = "if jhas (eventIdsBySequence k) (commitSequence (c_position c)) then sim
        else jset (csource c) (cursorWithEvent k (commitSequence (c_position c)) (cid c)) sim"
      from False le assms(1) cur Some have "check_position c k = Inr ()"
        "assertBatchPositionIntegrity_from s ?sim cs = Inr ()" by (simp_all del: not_None_eq)
      with False le Some p set_ov ov show ?thesis
        by (intro exI[of _ ?sim])
          (auto simp: stale_head_def check_head_def link_commit_def Let_def join_cursor_def)
    qed
  qed
qed

lemma add_loop_fresh:
  assumes "assertBatchPositionIntegrity_from s sim cs = Inr ()"
    and "overlay sim (sourceCursors s) = jget (sourceCursors t)"
    and "fresh_batch t cs" and "in_version_order (chain_of (sourceCursors t)) cs"
  shows "\<exists>t'. add_loop cs t = (Inr (), t') \<and> dead t' = dead t \<and> dispatchedEventIds t' = dispatchedEventIds t \<and>
    pending t' = pending t @ link_batch (chain_of (sourceCursors t)) cs"
  using assms
proof (induction cs arbitrary: sim t)
  case Nil
  then show ?case by simp
next
  case (Cons c cs)
  have fr: "\<not> known t (cid c)" using Cons.prems(3) by (simp add: fresh_batch_def)
  from position_step[OF Cons.prems(1,2) fr Cons.prems(4)] obtain sim' where
    sim': "assertBatchPositionIntegrity_from s sim' cs = Inr ()" and st: "stale_head t c = None" "check_head t c = Inr ()"
    and ov: "overlay sim' (sourceCursors s) = jget (snd (link_commit t c))" by blast
  let ?t = "t\<lparr>sourceCursors := snd (link_commit t c),
    pending := pending t @ [(cid c, new_record c (fst (link_commit t c)))]\<rparr>"
  have n: "cid c \<notin> cid ` set cs" using Cons.prems(3) by (simp add: fresh_batch_def)
  have "cid c' \<noteq> cid c" if "c' \<in> set cs" for c'
  proof -
    have "cid c' \<in> cid ` set cs" using that by (rule imageI)
    with n show ?thesis by (cases "cid c' = cid c") simp_all
  qed
  then have "fresh_batch ?t cs" using Cons.prems(3) by (auto simp: fresh_batch_def known_def)
  moreover have "in_version_order (chain_of (sourceCursors ?t)) cs"
    using Cons.prems(4) link_commit_chain[OF fr] by simp
  ultimately obtain t' where "add_loop cs ?t = (Inr (), t')" "dead t' = dead t"
    "dispatchedEventIds t' = dispatchedEventIds t"
    "pending t' = pending ?t @ link_batch (chain_of (sourceCursors ?t)) cs"
    using Cons.IH[of sim' ?t] sim' ov by auto
  then show ?case using add_one_fresh[OF fr st] link_commit_chain[OF fr] by simp
qed

section \<open>Keeping and acknowledging\<close>

lemma add_one_keeps:
  assumes "add_one s c = Inr s'" "jhas (pending s) i \<or> jhas (dead s) i"
  shows "jhas (pending s') i \<or> jhas (dead s') i"
  using assms(1)
proof (cases rule: add_one_cases)
  case (requeued d)
  with assms(2) show ?thesis by (cases "i = cid c") auto
qed (use assms(2) in \<open>cases "i = cid c"; auto\<close>)+

lemma add_one_takes:
  assumes "add_one s c = Inr s'"
  shows "jhas (pending s') (cid c) \<or> jhas (dispatchedEventIds s) (cid c)"
  using assms by (cases rule: add_one_cases) auto

lemma add_one_receipts:
  assumes "outbox_ok s" "add_one s c = Inr s'"
  shows "jhas (dispatchedEventIds s') i \<longleftrightarrow> jhas (dispatchedEventIds s) i"
  using assms(2)
proof (cases rule: add_one_cases)
  case (acknowledged r)
  then have "length (jset (cid c) (to_receipt (rc_source r) (rc_position r)) (jdel (cid c) (dispatchedEventIds s)))
      = length (dispatchedEventIds s)"
    using assms(1) js_map.touch_keeps_size[of "dispatchedEventIds s" "cid c" r] by (simp add: outbox_ok_def)
  with acknowledged assms(1) show ?thesis
    by (auto simp: rememberDispatched_def outbox_ok_def evict_id)
qed auto

lemma add_one_pending_id:
  assumes "add_one s c = Inr s'" "jhas (pending s) i"
  shows "jhas (pending s') i"
  using assms(1) by (cases rule: add_one_cases) (use assms(2) in auto)

lemma add_loop_keeps:
  assumes "add_loop cs s = (r, s')" "jhas (pending s) i \<or> jhas (dead s) i"
  shows "jhas (pending s') i \<or> jhas (dead s') i"
  using assms
proof (induction cs arbitrary: s)
  case (Cons c cs)
  show ?case
  proof (cases "add_one s c")
    case (Inr t)
    with Cons.prems(1) have "add_loop cs t = (r, s')" by simp
    from Cons.IH[OF this add_one_keeps[OF Inr Cons.prems(2)]] show ?thesis .
  qed (use Cons.prems in auto)
qed auto

lemma add_loop_pending:
  assumes "add_loop cs s = (r, s')" "jhas (pending s) i"
  shows "jhas (pending s') i"
  using assms
proof (induction cs arbitrary: s)
  case (Cons c cs)
  show ?case
  proof (cases "add_one s c")
    case (Inr t)
    with Cons.prems(1) have "add_loop cs t = (r, s')" by simp
    from Cons.IH[OF this add_one_pending_id[OF Inr Cons.prems(2)]] show ?thesis .
  qed (use Cons.prems in auto)
qed auto

lemma add_loop_takes:
  assumes "outbox_ok s" "room s cs" "add_loop cs s = (Inr (), s')" "c \<in> set cs"
  shows "jhas (pending s') (cid c) \<or> jhas (dispatchedEventIds s) (cid c)"
  using assms
proof (induction cs arbitrary: s)
  case (Cons b cs)
  from Cons.prems(3) obtain t where t: "add_one s b = Inr t" "add_loop cs t = (Inr (), s')"
    by (auto split: sum.splits)
  note ok = add_one_ok(1)[OF Cons.prems(1,2) t(1)] and rm = add_one_room[OF Cons.prems(1,2) t(1)]
  show ?case
  proof (cases "c = b")
    case True
    with add_one_takes[OF t(1)] add_loop_pending[OF t(2)] show ?thesis by blast
  next
    case False
    with Cons.prems(4) Cons.IH[OF ok rm t(2)] add_one_receipts[OF Cons.prems(1) t(1)] show ?thesis by auto
  qed
qed simp

lemma remember_has:
  assumes "outbox_ok s" "0 < maxRetainedDispatchedEventIds s"
  shows "jget (dispatchedEventIds (rememberDispatched i src pos s)) i = Some (to_receipt src pos)"
proof -
  have "n > 0 \<Longrightarrow> jok (m @ [(i, v)]) \<Longrightarrow> jget (evict_oldest n (m @ [(i, v)])) i = Some v" for n m and v :: receipt
  proof (induction m)
    case (Cons p m)
    then show ?case by (subst evict_oldest.simps) (auto simp: jok_def map_add_def split: option.splits dest: map_of_SomeD, force dest: map_of_SomeD)
  qed (simp add: evict_oldest.simps)
  moreover have "jset i (to_receipt src pos) (jdel i (dispatchedEventIds s)) =
      jdel i (dispatchedEventIds s) @ [(i, to_receipt src pos)]" by (simp add: jset_new)
  moreover have "jok (jset i (to_receipt src pos) (jdel i (dispatchedEventIds s)))"
    using assms(1) by (simp add: outbox_ok_def)
  ultimately show ?thesis using assms(2) by (simp add: rememberDispatched_def)
qed

section \<open>Properties\<close>

text \<open>
  C1. Whatever operations ran, failed ones included, the outbox is consistent: every record
  is filed under its event's id, an event is never both pending and dead-lettered, a
  pending record still has delivery attempts left and a dead letter has none, and the
  capacity limits and the receipt bound hold.
\<close>

theorem outbox_invariant:
  assumes "outbox_reachable s"
  shows "(\<forall>i r. jget (pending s) i = Some r \<longrightarrow> eventId (r_event r) = i \<and> attempts r < maxDeliveryAttempts s) \<and>
    (\<forall>i r. jget (dead s) i = Some r \<longrightarrow> eventId (r_event r) = i \<and> attempts r = maxDeliveryAttempts s) \<and>
    set (jkeys (pending s)) \<inter> set (jkeys (dead s)) = {} \<and>
    (\<forall>n. maxRecords s = Some n \<longrightarrow> length (pending s) + length (dead s) \<le> n) \<and>
    (\<forall>n. maxSources s = Some n \<longrightarrow> length (sourceCursors s) \<le> n) \<and>
    length (dispatchedEventIds s) \<le> maxRetainedDispatchedEventIds s"
proof -
  from outbox_reachable_ok[OF assms] have ok: "outbox_ok s" .
  then have "set (jkeys (pending s)) \<inter> set (jkeys (dead s)) = {}"
    unfolding outbox_ok_def disjoint_iff using jget_None_iff by metis
  with ok show ?thesis
    by (auto simp: outbox_ok_def fits_def exceeds_def dest: records_okD)
qed

text \<open>
  A batch of new events, none older than the head of its source when its turn comes, is
  taken as a whole or not at all: \<open>add\<close> throws and changes nothing, or it appends one
  pending record per event, in order, each linked to the commit before it.
\<close>

theorem fresh_batch_all_or_nothing:
  assumes "fresh_batch s cs" and "in_version_order (chain_of (sourceCursors s)) cs"
  shows "case add cs s of
      (Inl e, s') \<Rightarrow> s' = s
    | (Inr _, s') \<Rightarrow> pending s' = pending s @ link_batch (chain_of (sourceCursors s)) cs \<and>
        dead s' = dead s \<and> dispatchedEventIds s' = dispatchedEventIds s"
proof (cases "rbind (assertBatchEventReceiptIntegrity s cs) (\<lambda>_.
       rbind (assertBatchPositionIntegrity s cs) (\<lambda>_. assertCapacity s cs))")
  case (Inl e)
  then show ?thesis by (simp add: add_def)
next
  case (Inr u)
  then have "assertBatchPositionIntegrity_from s [] cs = Inr ()"
    by (auto simp: assertBatchPositionIntegrity_def)
  from add_loop_fresh[OF this _ assms] Inr show ?thesis
    by (auto simp: add_def overlay_def fun_eq_iff)
qed

lemma unknown_lookup [simp]:
  assumes "\<not> known s i"
  shows "jget (pending s) i = None" "jget (dead s) i = None" "jget (dispatchedEventIds s) i = None"
  using assms by (auto simp: known_def)

text \<open>
  Without the order the batch is not atomic: adding a new event of a new source together
  with one of another source that is older than the head of that source throws at the second,
  yet the first stays pending: the checks before the loop do not look for stale heads.
\<close>

theorem stale_batch_leaks_prefix:
  assumes "fresh_batch s [f, c]" and "jget (sourceCursors s) (csource f) = None"
    and "csource f \<noteq> csource c" and "jget (sourceCursors s) (csource c) = Some head"
    and "cversion c < cur_version head" and "assertCapacity s [f, c] = Inr ()"
  shows "fst (add [f, c] s) = Inl (harvest_error (c_event c)) \<and>
    pending (snd (add [f, c] s)) = pending s @ [(cid f, new_record f None)]"
proof -
  from assms(1) have fresh: "\<not> known s (cid f)" "\<not> known s (cid c)" "cid f \<noteq> cid c" "cid c \<noteq> cid f"
    by (auto simp: fresh_batch_def)
  let ?s = "s\<lparr>sourceCursors := jset (csource f) (fresh_cursor f None) (sourceCursors s),
    pending := jset (cid f) (new_record f None) (pending s)\<rparr>"
  have "assertBatchEventReceiptIntegrity s [f, c] = Inr ()" "assertBatchPositionIntegrity s [f, c] = Inr ()"
    using fresh assms(2-5) by (simp_all add: assertBatchEventReceiptIntegrity_def assertBatchPositionIntegrity_def)
  then have "add [f, c] s = add_loop [f, c] s" by (simp add: add_def assms(6))
  moreover have "add_one s f = Inr ?s"
    using fresh assms(2) by (simp add: add_one_def stale_head_def check_head_def link_commit_def)
  moreover have "add_one ?s c = Inl (harvest_error (c_event c))"
    using fresh assms(3-5) by (simp add: add_one_def stale_head_def guard_res_def)
  ultimately show ?thesis using fresh by (simp add: jset_new)
qed

definition ex_event :: "string \<Rightarrow> unit domain_event" where
  "ex_event i = \<lparr>eventId = i, event_type = ''Placed'', ev_aggregateId = None, ev_aggregateType = None,
     payload = (), occurredAt = Num 0, event_version = 1, metadata = None, minted = True\<rparr>"

definition ex_candidate :: "string \<Rightarrow> string \<Rightarrow> nat \<Rightarrow> unit candidate" where
  "ex_candidate i agg v = \<lparr>c_event = ex_event i, c_source = \<lparr>addr_type = ''Order'', addr_id = agg\<rparr>,
     c_position = \<lparr>aggregateVersion = v, commitSequence = 0, commitSize = 1\<rparr>\<rparr>"

definition ex_outbox :: "unit outbox_state" where
  "ex_outbox = \<lparr>pending = [], dead = [], sourceCursors = [], dispatchedEventIds = [],
     maxDeliveryAttempts = 2, maxRetainedDispatchedEventIds = 10, maxRecords = Some 5, maxSources = None\<rparr>"

definition ex_outbox1 :: "unit outbox_state" where
  "ex_outbox1 = snd (add [ex_candidate ''e1'' ''a'' 2] ex_outbox)"

theorem stale_batch_witness:
  "map fst (pending (snd (add [ex_candidate ''e2'' ''b'' 1, ex_candidate ''e3'' ''a'' 1] ex_outbox1))) = [''e1'', ''e2'']"
proof -
  let ?f = "ex_candidate ''e2'' ''b'' 1" and ?c = "ex_candidate ''e3'' ''a'' 1"
  let ?head = "fresh_cursor (ex_candidate ''e1'' ''a'' 2) None"
  have "fresh_batch ex_outbox1 [?f, ?c]" "jget (sourceCursors ex_outbox1) (csource ?f) = None"
    "csource ?f \<noteq> csource ?c" "jget (sourceCursors ex_outbox1) (csource ?c) = Some ?head"
    "cversion ?c < cur_version ?head" "assertCapacity ex_outbox1 [?f, ?c] = Inr ()"
    by code_simp+
  note stale_batch_leaks_prefix[OF this]
  moreover have "map fst (pending ex_outbox1) = [''e1'']" "cid ?f = ''e2''" by code_simp+
  ultimately show ?thesis by simp
qed

lemma ex_outbox_new: "new_outbox \<lparr>o_maxRecords = Some (Num 5), o_maxSources = None,
    o_maxDeliveryAttempts = Some (Num 2), o_maxRetained = Some (Num 10)\<rparr> = Inr ex_outbox"
  by (simp add: new_outbox_def ex_outbox_def assertPositiveInteger_def assertPositiveSafeInteger_def
      opt_limit_def max_safe_integer_def)

lemma ex_outbox1_reachable: "outbox_reachable ex_outbox1"
  unfolding ex_outbox1_def
  by (rule outbox_reachable.added[OF outbox_reachable.created[OF ex_outbox_new],
      of "[ex_candidate ''e1'' ''a'' 2]" "fst (add [ex_candidate ''e1'' ''a'' 2] ex_outbox)"]) simp

theorem outbox_invariant_witness: "length (pending ex_outbox1) + length (dead ex_outbox1) \<le> 5"
proof -
  have "maxRecords ex_outbox1 = Some 5" by code_simp
  with outbox_invariant[OF ex_outbox1_reachable] show ?thesis by blast
qed

theorem fresh_batch_witness:
  "map fst (pending (snd (add [ex_candidate ''e2'' ''b'' 1, ex_candidate ''e3'' ''a'' 3] ex_outbox1)))
     = [''e1'', ''e2'', ''e3'']"
proof -
  let ?cs = "[ex_candidate ''e2'' ''b'' 1, ex_candidate ''e3'' ''a'' 3]"
  have "fresh_batch ex_outbox1 ?cs" "in_version_order (chain_of (sourceCursors ex_outbox1)) ?cs" by code_simp+
  note fresh_batch_all_or_nothing[OF this]
  moreover have "case add ?cs ex_outbox1 of (Inr _, s') \<Rightarrow> True | _ \<Rightarrow> False" by code_simp
  moreover have "map fst (pending ex_outbox1) = [''e1'']" by code_simp
  ultimately show ?thesis
    by (auto simp: ex_candidate_def ex_event_def split: prod.splits sum.splits)
qed

lemma add_state: "snd (add cs s) = s \<or> snd (add cs s) = snd (add_loop cs s)"
  by (simp add: add_def split: sum.split)

definition held :: "'p outbox_state \<Rightarrow> string \<Rightarrow> bool" where
  "held s i \<longleftrightarrow> jhas (pending s) i \<or> jhas (dead s) i"

lemma markFailed_held: "markFailed i err s = (d, s') \<Longrightarrow> held s' j \<longleftrightarrow> held s j"
  by (auto simp: markFailed_def held_def Let_def split: option.splits if_splits)

lemma mark_one_held: "held (mark_one i s) j \<longleftrightarrow> held s j \<and> j \<noteq> i"
  by (auto simp: mark_one_def held_def Let_def split: option.splits)

lemma markDispatched_held: "held (markDispatched is s) j \<longleftrightarrow> held s j \<and> j \<notin> set is"
  unfolding markDispatched_def by (induction "is" arbitrary: s) (auto simp: mark_one_held)

lemma add_held: "add cs s = (r, s') \<Longrightarrow> held s i \<Longrightarrow> held s' i"
  using add_loop_keeps[of cs s r s' i] unfolding held_def add_def by (auto split: sum.splits)

text \<open>
  C2. No event is lost: adding, even when it throws, and failing a delivery keep every
  pending or dead-lettered event; only acknowledging it removes one; and when \<open>add\<close> returns,
  every event of the batch is pending unless it was acknowledged before.
\<close>

theorem no_event_lost:
  assumes "outbox_reachable s"
  shows "(\<forall>cs r s' i. add cs s = (r, s') \<and> held s i \<longrightarrow> held s' i) \<and>
    (\<forall>cs s' c. add cs s = (Inr (), s') \<and> c \<in> set cs \<longrightarrow>
      jhas (pending s') (cid c) \<or> jhas (dispatchedEventIds s) (cid c)) \<and>
    (\<forall>i err d s' j. markFailed i err s = (d, s') \<longrightarrow> held s' j = held s j) \<and>
    (\<forall>is j. held (markDispatched is s) j \<longleftrightarrow> held s j \<and> j \<notin> set is)"
proof -
  have "jhas (pending s') (cid c) \<or> jhas (dispatchedEventIds s) (cid c)"
    if "add cs s = (Inr (), s')" "c \<in> set cs" for cs s' c
  proof -
    from that(1) have "assertCapacity s cs = Inr ()" "add_loop cs s = (Inr (), s')"
      by (auto simp: add_def split: sum.splits)
    with add_loop_takes[OF outbox_reachable_ok[OF assms] assertCapacity_room _ that(2)] show ?thesis by blast
  qed
  then show ?thesis using add_held markFailed_held markDispatched_held by blast
qed

theorem no_event_lost_witness:
  "held (snd (add [ex_candidate ''e3'' ''a'' 1] ex_outbox1)) ''e1''"
proof -
  have "held ex_outbox1 ''e1''" by code_simp
  with no_event_lost[OF ex_outbox1_reachable] show ?thesis by (metis prod.collapse)
qed

text \<open>
  An acknowledged event is not delivered again while its receipt is kept: adding it
  again, with any position, leaves the pending records and the dead letters as they are.
\<close>

theorem acknowledged_not_redelivered:
  fixes s :: "'p outbox_state"
  assumes "outbox_reachable s" and "held s (cid c)"
  shows "case add [c] (markDispatched [cid c] s) of
    (r, s') \<Rightarrow> pending s' = pending (markDispatched [cid c] s) \<and> dead s' = dead (markDispatched [cid c] s)"
proof -
  let ?m = "markDispatched [cid c] s"
  from outbox_reachable_ok[OF assms(1)] have ok: "outbox_ok s" "0 < maxRetainedDispatchedEventIds s"
    by (auto simp: outbox_ok_def)
  from assms(2) obtain r :: "'p outbox_record" where "?m = (rememberDispatched (cid c) (r_source r) (r_position r) s)
      \<lparr>pending := jdel (cid c) (pending s), dead := jdel (cid c) (dead s)\<rparr>"
    unfolding held_def markDispatched_def mark_one_def by (cases "jget (pending s) (cid c)") auto
  then have "jget (dispatchedEventIds ?m) (cid c) = Some (to_receipt (r_source r) (r_position r))"
    using remember_has[OF ok] by simp
  then have "pending (snd (add_loop [c] ?m)) = pending ?m \<and> dead (snd (add_loop [c] ?m)) = dead ?m"
    by (simp add: add_one_def split: sum.split)
  with add_state[of "[c]" ?m] show ?thesis by (auto simp: case_prod_unfold)
qed

theorem acknowledged_not_redelivered_witness:
  "pending (snd (add [ex_candidate ''e1'' ''a'' 2] (markDispatched [''e1''] ex_outbox1))) = []"
proof -
  have "held ex_outbox1 (cid (ex_candidate ''e1'' ''a'' 2))" by code_simp
  from acknowledged_not_redelivered[OF ex_outbox1_reachable this]
  have "pending (snd (add [ex_candidate ''e1'' ''a'' 2] (markDispatched [''e1''] ex_outbox1))) =
      pending (markDispatched [''e1''] ex_outbox1)"
    by (simp add: ex_candidate_def ex_event_def split: prod.splits)
  also have "\<dots> = []" by code_simp
  finally show ?thesis .
qed

text \<open>Failing a delivery several times in a row.\<close>

fun fail_times :: "nat \<Rightarrow> string \<Rightarrow> js_error \<Rightarrow> 'p outbox_state \<Rightarrow> 'p outbox_state" where
  "fail_times 0 i err s = s"
| "fail_times (Suc n) i err s = fail_times n i err (snd (markFailed i err s))"

lemma fail_below_limit:
  assumes "jget (pending s) i = Some r" "attempts r + 1 < maxDeliveryAttempts s"
  shows "snd (markFailed i err s) =
    s\<lparr>pending := jset i (r\<lparr>attempts := attempts r + 1, lastError := Some err\<rparr>) (pending s)\<rparr>"
  using assms by (simp add: markFailed_def Let_def)

lemma fail_times_pending:
  assumes "jget (pending s) i = Some r" "attempts r + n < maxDeliveryAttempts s"
  shows "\<exists>r'. jget (pending (fail_times n i err s)) i = Some r' \<and> attempts r' = attempts r + n \<and>
        r_event r' = r_event r \<and> r_position r' = r_position r"
  using assms
proof (induction n arbitrary: s r)
  case (Suc n)
  let ?r = "r\<lparr>attempts := attempts r + 1, lastError := Some err\<rparr>"
  from Suc.prems fail_below_limit[of s i r err] Suc.IH[of "s\<lparr>pending := jset i ?r (pending s)\<rparr>" ?r]
  show ?case by simp
qed auto

lemma fail_times_Suc: "fail_times (Suc n) i err s = snd (markFailed i err (fail_times n i err s))"
  by (induction n arbitrary: s) simp_all

lemma fail_times_config: "maxDeliveryAttempts (fail_times n i err s) = maxDeliveryAttempts s"
  by (induction n arbitrary: s) (simp_all add: markFailed_def Let_def split: option.splits)

text \<open>
  The delivery budget is exact: with \<open>k\<close> attempts left, a pending record survives fewer
  than \<open>k\<close> failures with its event and position unchanged, and the \<open>k\<close>-th failure moves it to
  the dead letters.
\<close>

theorem delivery_budget_exact:
  assumes "outbox_reachable s" and "jget (pending s) i = Some r"
  shows "(\<forall>n < maxDeliveryAttempts s - attempts r. \<exists>r'. jget (pending (fail_times n i err s)) i = Some r' \<and>
      attempts r' = attempts r + n \<and> r_event r' = r_event r \<and> r_position r' = r_position r) \<and>
    (let s' = fail_times (maxDeliveryAttempts s - attempts r) i err s in
      \<exists>d. jget (dead s') i = Some d \<and> r_event d = r_event r \<and> r_position d = r_position r \<and>
        jget (pending s') i = None)"
proof -
  from outbox_reachable_ok[OF assms(1)] assms(2) have "attempts r < maxDeliveryAttempts s"
    by (auto simp: outbox_ok_def dest: records_okD)
  then obtain n where n: "maxDeliveryAttempts s - attempts r = Suc n" "attempts r + n < maxDeliveryAttempts s"
    "attempts r + Suc n = maxDeliveryAttempts s"
    by (intro that[of "maxDeliveryAttempts s - attempts r - 1"]) auto
  from fail_times_pending[OF assms(2) n(2), of err] obtain r' where
    r': "jget (pending (fail_times n i err s)) i = Some r'" "attempts r' = attempts r + n"
    "r_event r' = r_event r" "r_position r' = r_position r" by blast
  have "snd (markFailed i err (fail_times n i err s)) = (fail_times n i err s)
      \<lparr>pending := jdel i (pending (fail_times n i err s)),
       dead := jset i (r'\<lparr>attempts := attempts r' + 1, lastError := Some err\<rparr>) (dead (fail_times n i err s))\<rparr>"
    using r'(1,2) n(3) by (simp add: markFailed_def Let_def fail_times_config)
  with r' n(1) fail_times_pending[OF assms(2)] show ?thesis
    by (simp add: Let_def fail_times_Suc del: fail_times.simps)
qed

theorem delivery_budget_witness:
  "\<exists>d. jget (dead (fail_times 2 ''e1'' typeError ex_outbox1)) ''e1'' = Some d"
proof -
  obtain r where r: "jget (pending ex_outbox1) ''e1'' = Some r" "attempts r = 0"
  proof -
    have "case jget (pending ex_outbox1) ''e1'' of Some r \<Rightarrow> attempts r = 0 | None \<Rightarrow> False" by code_simp
    with that show thesis by (auto split: option.splits)
  qed
  have "maxDeliveryAttempts ex_outbox1 = 2" by code_simp
  with delivery_budget_exact[OF ex_outbox1_reachable r(1), of typeError] r(2) show ?thesis
    by (auto simp: Let_def)
qed

end
