(* ===== verification/Projections.thy ===== *)
theory Projections
  imports Outbox
begin

text \<open>
  The projector (src/projections/projector.ts), its checkpoint port and in-memory store
  (ports.ts, in-memory-checkpoint-store.ts) and the projection built from a handler map
  (projection-from-handlers.ts). \<open>project\<close> runs inside a transaction of the scope, so a
  throw leaves neither read model nor checkpoints changed; the read model and its \<open>apply\<close>
  are parameters.
\<close>

section \<open>Positions\<close>

text \<open>A position as it arrives: fields may be missing or hold any number.\<close>

record raw_position =
  rp_version :: js_num
  rp_sequence :: js_num
  rp_size :: "js_num option"
  rp_previous :: "js_num option option"

definition js_nat :: "js_num \<Rightarrow> nat option" where
  "js_nat v = (case js_integer v of Some n \<Rightarrow> if 0 \<le> n then Some (nat n) else None | None \<Rightarrow> None)"

text \<open>\<open>isValidPosition\<close> as the narrowing it is: the position it admits, over naturals.\<close>

definition isValidPosition :: "raw_position \<Rightarrow> linked_position option" where
  "isValidPosition p = (case (js_nat (rp_version p), js_nat (rp_sequence p), rp_size p, rp_previous p) of
     (Some v, Some q, Some sz, Some previous) \<Rightarrow>
       (case js_nat sz of
          Some n \<Rightarrow>
            if q < n then (case previous of
                None \<Rightarrow> Some (link_position \<lparr>aggregateVersion = v, commitSequence = q, commitSize = n\<rparr> None)
              | Some x \<Rightarrow> (case js_nat x of
                  Some k \<Rightarrow> if k < v
                    then Some (link_position \<lparr>aggregateVersion = v, commitSequence = q, commitSize = n\<rparr> (Some k))
                    else None
                | None \<Rightarrow> None))
            else None
        | None \<Rightarrow> None)
   | _ \<Rightarrow> None)"

definition isPositionAfter :: "linked_position \<Rightarrow> linked_position \<Rightarrow> bool" where
  "isPositionAfter candidate reference =
     (if aggregateVersion candidate \<noteq> aggregateVersion reference
      then aggregateVersion reference < aggregateVersion candidate
      else commitSequence reference < commitSequence candidate)"

definition isSameOrderedPosition :: "linked_position \<Rightarrow> linked_position \<Rightarrow> bool" where
  "isSameOrderedPosition l r \<longleftrightarrow> aggregateVersion l = aggregateVersion r \<and> commitSequence l = commitSequence r"

definition isSamePositionReceipt :: "linked_position \<Rightarrow> linked_position \<Rightarrow> bool" where
  "isSamePositionReceipt l r \<longleftrightarrow> isSameOrderedPosition l r \<and> commitSize l = commitSize r \<and>
     previousEventfulAggregateVersion l = previousEventfulAggregateVersion r"

definition isContiguousPosition :: "linked_position \<Rightarrow> linked_position option \<Rightarrow> bool" where
  "isContiguousPosition c watermark \<longleftrightarrow>
     1 \<le> commitSize c \<and> commitSequence c < commitSize c \<and>
     (case watermark of
        None \<Rightarrow> commitSequence c = 0 \<and> previousEventfulAggregateVersion c = None
      | Some w \<Rightarrow>
          if aggregateVersion c = aggregateVersion w
          then previousEventfulAggregateVersion c = previousEventfulAggregateVersion w \<and>
               commitSize c = commitSize w \<and> commitSequence c = commitSequence w + 1
          else Suc (commitSequence w) = commitSize w \<and> commitSequence c = 0 \<and>
               previousEventfulAggregateVersion c = Some (aggregateVersion w))"

section \<open>Checkpoints\<close>

record checkpoint =
  cp_position :: linked_position
  lastAppliedEventId :: string

record raw_checkpoint =
  rcp_position :: "raw_position option"
  rcp_event :: "string option"

definition isValidCheckpoint :: "raw_checkpoint \<Rightarrow> checkpoint option" where
  "isValidCheckpoint c = (case (rcp_event c, rcp_position c) of
     (Some i, Some p) \<Rightarrow> if i = [] then None
        else map_option (\<lambda>q. \<lparr>cp_position = q, lastAppliedEventId = i\<rparr>) (isValidPosition p)
   | _ \<Rightarrow> None)"

definition to_raw :: "checkpoint \<Rightarrow> raw_checkpoint" where
  "to_raw c = (let p = cp_position c in \<lparr>rcp_position = Some \<lparr>rp_version = Num (of_nat (aggregateVersion p)),
     rp_sequence = Num (of_nat (commitSequence p)), rp_size = Some (Num (of_nat (commitSize p))),
     rp_previous = Some (map_option (\<lambda>v. Num (of_nat v)) (previousEventfulAggregateVersion p))\<rparr>,
     rcp_event = Some (lastAppliedEventId c)\<rparr>)"

text \<open>The operations of a checkpoint store that run inside the projection's transaction.\<close>

record 's checkpoint_port =
  cp_load :: "string \<Rightarrow> aggregate_address \<Rightarrow> 's \<Rightarrow> raw_checkpoint option"
  cp_save :: "string \<Rightarrow> aggregate_address \<Rightarrow> checkpoint \<Rightarrow> 's \<Rightarrow> (js_error, 's) res"

section \<open>The projector\<close>

record 'p committed_event =
  ce_event :: "'p domain_event"
  ce_source :: "aggregate_address option"
  ce_position :: "raw_position option"

record 'p cursored =
  cu_event :: "'p domain_event"
  cu_position :: linked_position
  cu_address :: aggregate_address

abbreviation cu_key :: "'p cursored \<Rightarrow> string" where
  "cu_key c \<equiv> encodeAggregateAddress (cu_address c)"

abbreviation cu_id :: "'p cursored \<Rightarrow> string" where
  "cu_id c \<equiv> eventId (cu_event c)"

definition cursor_event :: "string \<Rightarrow> 'p committed_event \<Rightarrow> (js_error, 'p cursored) res" where
  "cursor_event name ce =
     (let e = ce_event ce; unprojectable = kit (UnprojectableEventError name (eventId e)) in
      if eventId e = [] then Inl unprojectable
      else case ce_position ce of
        None \<Rightarrow> Inl unprojectable
      | Some rp \<Rightarrow> (case isValidPosition rp of
          None \<Rightarrow> Inl unprojectable
        | Some p \<Rightarrow> (case ce_source ce of
            None \<Rightarrow> Inl unprojectable
          | Some a \<Rightarrow>
              if addr_id a = [] \<or> addr_type a = [] then Inl unprojectable
              else if (case ev_aggregateId e of Some i \<Rightarrow> i \<noteq> addr_id a | None \<Rightarrow> False) \<or>
                      (case ev_aggregateType e of Some t \<Rightarrow> t \<noteq> addr_type a | None \<Rightarrow> False)
              then Inl (kit (ForeignEventError (addr_id a) (addr_type a) (event_type e)
                     (ev_aggregateId e) (ev_aggregateType e)))
              else Inr \<lparr>cu_event = e, cu_position = p, cu_address = a\<rparr>)))"

type_synonym marks = "(string, checkpoint option) jmap"

text \<open>The stored checkpoint of each source of the batch, loaded once.\<close>

fun load_marks :: "'s checkpoint_port \<Rightarrow> string \<Rightarrow> 's \<Rightarrow> 'p cursored list \<Rightarrow> marks \<Rightarrow> (js_error, marks) res" where
  "load_marks P name s [] m = Inr m"
| "load_marks P name s (c # cs) m =
     (if jhas m (cu_key c) then load_marks P name s cs m
      else case cp_load P name (cu_address c) s of
        None \<Rightarrow> load_marks P name s cs (jset (cu_key c) None m)
      | Some raw \<Rightarrow> (case isValidCheckpoint raw of
          None \<Rightarrow> Inl (kit (UnprojectableEventError name (cu_id c)))
        | Some k \<Rightarrow> load_marks P name s cs (jset (cu_key c) (Some k) m)))"

definition mark_of :: "marks \<Rightarrow> string \<Rightarrow> checkpoint option" where
  "mark_of m k = (case jget m k of Some c \<Rightarrow> c | None \<Rightarrow> None)"

text \<open>An event at the stored position must be the one that was applied there.\<close>

definition check_watermark_identity :: "string \<Rightarrow> marks \<Rightarrow> 'p cursored \<Rightarrow> (js_error, unit) res" where
  "check_watermark_identity name m c = (case mark_of m (cu_key c) of
     None \<Rightarrow> Inr ()
   | Some k \<Rightarrow>
       if isSameOrderedPosition (cu_position c) (cp_position k)
       then if cu_id c \<noteq> lastAppliedEventId k
            then Inl (kit (ProjectionIdentityViolationError name (cu_id c) (lastAppliedEventId k)))
            else guard_res (isSamePositionReceipt (cu_position c) (cp_position k))
                   (kit (ProjectionReceiptViolationError name (cu_id c)))
       else Inr ())"

text \<open>The key of a qualified position: address, version and sequence.\<close>

type_synonym position_key = "string \<times> nat \<times> nat"

definition addressedPositionKey :: "'p cursored \<Rightarrow> position_key" where
  "addressedPositionKey c = (cu_key c, aggregateVersion (cu_position c), commitSequence (cu_position c))"

fun check_batch_receipts :: "string \<Rightarrow> (position_key, string \<times> linked_position) jmap \<Rightarrow> 'p cursored list
    \<Rightarrow> (js_error, unit) res" where
  "check_batch_receipts name seen [] = Inr ()"
| "check_batch_receipts name seen (c # cs) =
     rbind (case jget seen (addressedPositionKey c) of
       None \<Rightarrow> Inr ()
     | Some (i, p) \<Rightarrow>
         if i \<noteq> cu_id c then Inl (kit (ProjectionIdentityViolationError name (cu_id c) i))
         else guard_res (isSamePositionReceipt (cu_position c) p)
                (kit (ProjectionReceiptViolationError name (cu_id c)))) (\<lambda>_.
     check_batch_receipts name (jset (addressedPositionKey c) (cu_id c, cu_position c) seen) cs)"

abbreviation is_new :: "marks \<Rightarrow> 'p cursored \<Rightarrow> bool" where
  "is_new m c \<equiv> (case mark_of m (cu_key c) of None \<Rightarrow> True | Some k \<Rightarrow> isPositionAfter (cu_position c) (cp_position k))"

text \<open>New positions of one source must not arrive in descending order.\<close>

fun check_order :: "string \<Rightarrow> marks \<Rightarrow> (string, linked_position) jmap \<Rightarrow> position_key list \<Rightarrow> 'p cursored list
    \<Rightarrow> (js_error, unit) res" where
  "check_order name m newest seen [] = Inr ()"
| "check_order name m newest seen (c # cs) =
     (if \<not> is_new m c then check_order name m newest seen cs
      else if addressedPositionKey c \<in> set seen then check_order name m newest seen cs
      else let seen' = addressedPositionKey c # seen in
        case jget newest (cu_key c) of
          None \<Rightarrow> check_order name m (jset (cu_key c) (cu_position c) newest) seen' cs
        | Some n \<Rightarrow>
            if isPositionAfter n (cu_position c)
            then Inl (kit (ProjectionOrderViolationError name (cu_id c)))
            else check_order name m
              (if isPositionAfter (cu_position c) n then jset (cu_key c) (cu_position c) newest else newest) seen' cs)"

text \<open>
  The advance loop: skip what the watermark covers, refuse gaps, move the watermark. It
  returns the marks after the batch, the sources that advanced and the events to apply.
\<close>

record 'p advance =
  ad_marks :: marks
  ad_advanced :: "(string, aggregate_address \<times> checkpoint) jmap"
  toApply :: "'p cursored list"
  skipped :: nat

fun advance_loop :: "string \<Rightarrow> 'p cursored list \<Rightarrow> 'p advance \<Rightarrow> (js_error, 'p advance) res" where
  "advance_loop name [] a = Inr a"
| "advance_loop name (c # cs) a =
     (if \<not> is_new (ad_marks a) c then advance_loop name cs (a\<lparr>skipped := skipped a + 1\<rparr>)
      else if \<not> isContiguousPosition (cu_position c) (map_option cp_position (mark_of (ad_marks a) (cu_key c)))
      then Inl (kit (ProjectionGapError name (cu_id c)))
      else let k = \<lparr>cp_position = cu_position c, lastAppliedEventId = cu_id c\<rparr>
        in advance_loop name cs (a\<lparr>ad_marks := jset (cu_key c) (Some k) (ad_marks a),
             ad_advanced := jset (cu_key c) (cu_address c, k) (ad_advanced a),
             toApply := toApply a @ [c]\<rparr>))"

record batch_result =
  br_applied :: nat
  br_skipped :: nat

definition project :: "'s checkpoint_port \<Rightarrow> string \<Rightarrow> ('p domain_event \<Rightarrow> 'm \<Rightarrow> (js_error, 'm) res)
    \<Rightarrow> 'p committed_event list \<Rightarrow> 's \<times> 'm \<Rightarrow> (js_error, batch_result \<times> 's \<times> 'm) res" where
  "project P name applyEvent events state =
     rbind (map_res (cursor_event name) events) (\<lambda>cursored.
     rbind (load_marks P name (fst state) cursored []) (\<lambda>m.
     rbind (all_res (check_watermark_identity name m) cursored) (\<lambda>_.
     rbind (check_batch_receipts name [] cursored) (\<lambda>_.
     rbind (check_order name m [] [] cursored) (\<lambda>_.
     rbind (advance_loop name cursored \<lparr>ad_marks = m, ad_advanced = [], toApply = [], skipped = 0\<rparr>) (\<lambda>a.
     rbind (fold_res (\<lambda>c. applyEvent (cu_event c)) (toApply a) (snd state)) (\<lambda>model.
     rbind (fold_res (\<lambda>(address, k). cp_save P name address k) (jvals (ad_advanced a)) (fst state)) (\<lambda>store.
     Inr (\<lparr>br_applied = length (toApply a), br_skipped = skipped a\<rparr>, store, model)))))))))"

text \<open>\<open>projectionFromHandlers\<close>: a handler per event type, or the marker to ignore it.\<close>

datatype 'h handler_entry = Handler 'h | IgnoreProjectionEvent

definition projectionFromHandlers_apply ::
    "(string, ('p domain_event \<Rightarrow> 'm \<Rightarrow> (js_error, 'm) res) handler_entry) jmap
      \<Rightarrow> 'p domain_event \<Rightarrow> 'm \<Rightarrow> (js_error, 'm) res" where
  "projectionFromHandlers_apply handlers e model = (case jget handlers (event_type e) of
     None \<Rightarrow> Inl (kit (MissingHandlerError (event_type e)))
   | Some IgnoreProjectionEvent \<Rightarrow> Inr model
   | Some (Handler h) \<Rightarrow> h e model)"

section \<open>The in-memory checkpoint store\<close>

record checkpoint_store =
  cs_checkpoints :: "(string, (string, checkpoint) jmap) jmap"
  checkpointCount :: nat
  maxCheckpoints :: "nat option"

definition cs_lookup :: "string \<Rightarrow> aggregate_address \<Rightarrow> checkpoint_store \<Rightarrow> checkpoint option" where
  "cs_lookup projection a s = (case jget (cs_checkpoints s) projection of
     None \<Rightarrow> None | Some m \<Rightarrow> jget m (encodeAggregateAddress a))"

definition memory_load :: "string \<Rightarrow> aggregate_address \<Rightarrow> checkpoint_store \<Rightarrow> raw_checkpoint option" where
  "memory_load projection a s = map_option to_raw (cs_lookup projection a s)"

definition memory_save :: "string \<Rightarrow> aggregate_address \<Rightarrow> checkpoint \<Rightarrow> checkpoint_store
    \<Rightarrow> (js_error, checkpoint_store) res" where
  "memory_save projection a k s =
     (let isNew = (cs_lookup projection a s = None);
          perAggregate = (case jget (cs_checkpoints s) projection of Some m \<Rightarrow> m | None \<Rightarrow> [])
      in if isNew \<and> (case maxCheckpoints s of Some n \<Rightarrow> n \<le> checkpointCount s | None \<Rightarrow> False)
         then Inl (kit (InMemoryCapacityExceededError ''InMemoryProjectionCheckpointStore'' ''checkpoints''
                (the (maxCheckpoints s)) (checkpointCount s) 1))
         else Inr (s\<lparr>cs_checkpoints := jset projection (jset (encodeAggregateAddress a) k perAggregate) (cs_checkpoints s),
                checkpointCount := checkpointCount s + (if isNew then 1 else 0)\<rparr>))"

definition hasReached :: "string \<Rightarrow> aggregate_address \<Rightarrow> linked_position \<Rightarrow> checkpoint_store \<Rightarrow> bool" where
  "hasReached projection a p s = (case cs_lookup projection a s of
     None \<Rightarrow> False | Some k \<Rightarrow> \<not> isPositionAfter p (cp_position k))"

definition reset_checkpoints :: "string \<Rightarrow> checkpoint_store \<Rightarrow> checkpoint_store" where
  "reset_checkpoints projection s = s\<lparr>cs_checkpoints := jdel projection (cs_checkpoints s),
     checkpointCount := checkpointCount s - (case jget (cs_checkpoints s) projection of Some m \<Rightarrow> length m | None \<Rightarrow> 0)\<rparr>"

definition memory_checkpoints :: "checkpoint_store checkpoint_port" where
  "memory_checkpoints = \<lparr>cp_load = memory_load, cp_save = memory_save\<rparr>"

section \<open>What a batch does\<close>

lemma after_asym: "isPositionAfter p q \<Longrightarrow> \<not> isPositionAfter q p"
  by (auto simp: isPositionAfter_def split: if_splits)

lemma after_irrefl [simp]: "\<not> isPositionAfter p p"
  by (simp add: isPositionAfter_def)

lemma after_trans: "isPositionAfter p q \<Longrightarrow> \<not> isPositionAfter q' q \<Longrightarrow> isPositionAfter p q'"
  by (auto simp: isPositionAfter_def split: if_splits)

text \<open>
  The specification of a gap-proof application: from a watermark, each position continues
  the commit of the one before it or opens the commit that follows it.
\<close>

fun chain_from :: "linked_position option \<Rightarrow> linked_position list \<Rightarrow> bool" where
  "chain_from w [] = True"
| "chain_from w (p # ps) \<longleftrightarrow> isContiguousPosition p w \<and> chain_from (Some p) ps"

definition of_key :: "string \<Rightarrow> 'p cursored list \<Rightarrow> 'p cursored list" where
  "of_key k cs = filter (\<lambda>c. cu_key c = k) cs"

definition checkpoint_of :: "'p cursored \<Rightarrow> checkpoint" where
  "checkpoint_of c = \<lparr>cp_position = cu_position c, lastAppliedEventId = cu_id c\<rparr>"

definition last_mark :: "checkpoint option \<Rightarrow> 'p cursored list \<Rightarrow> checkpoint option" where
  "last_mark w cs = (if cs = [] then w else Some (checkpoint_of (last cs)))"

abbreviation wm :: "checkpoint option \<Rightarrow> linked_position option" where
  "wm \<equiv> map_option cp_position"

text \<open>A position at or before the watermark.\<close>

definition passed :: "checkpoint option \<Rightarrow> linked_position \<Rightarrow> bool" where
  "passed w p \<longleftrightarrow> (case w of None \<Rightarrow> False | Some k \<Rightarrow> \<not> isPositionAfter p (cp_position k))"

lemma is_new_passed: "is_new m c \<longleftrightarrow> \<not> passed (mark_of m (cu_key c)) (cu_position c)"
  by (simp add: passed_def split: option.split)

lemma mark_set [simp]: "mark_of (jset k v m) k' = (if k' = k then v else mark_of m k')"
  by (simp add: mark_of_def)

lemma of_key_simps [simp]:
  "of_key k [] = []" "of_key k (c # cs) = (if cu_key c = k then c # of_key k cs else of_key k cs)"
  by (simp_all add: of_key_def)

text \<open>What the loop does to one source, \<open>new\<close> being the events it takes.\<close>

definition key_post :: "'p advance \<Rightarrow> 'p cursored list \<Rightarrow> 'p advance \<Rightarrow> string \<Rightarrow> bool" where
  "key_post a new a' k \<longleftrightarrow>
     chain_from (wm (mark_of (ad_marks a) k)) (map cu_position (of_key k new)) \<and>
     mark_of (ad_marks a') k = last_mark (mark_of (ad_marks a) k) (of_key k new) \<and>
     jget (ad_advanced a') k = (if of_key k new = [] then jget (ad_advanced a) k
       else Some (cu_address (last (of_key k new)), checkpoint_of (last (of_key k new)))) \<and>
     (\<forall>p. passed (mark_of (ad_marks a) k) p \<longrightarrow> passed (mark_of (ad_marks a') k) p)"

lemma key_post_skip [simp]: "key_post (a\<lparr>skipped := n\<rparr>) new a' k = key_post a new a' k"
  by (simp add: key_post_def)

lemma key_post_take:
  assumes new: "is_new (ad_marks a) c" and ct: "isContiguousPosition (cu_position c) (wm (mark_of (ad_marks a) (cu_key c)))"
    and m: "ad_marks b = jset (cu_key c) (Some (checkpoint_of c)) (ad_marks a)"
    and ad: "ad_advanced b = jset (cu_key c) (cu_address c, checkpoint_of c) (ad_advanced a)"
    and post: "key_post b new' a' k"
  shows "key_post a (c # new') a' k"
proof (cases "k = cu_key c")
  case True
  have mono: "passed (Some (checkpoint_of c)) p" if p: "passed (mark_of (ad_marks a) (cu_key c)) p" for p
  proof -
    from p obtain w where w: "mark_of (ad_marks a) (cu_key c) = Some w" "\<not> isPositionAfter p (cp_position w)"
      by (auto simp: passed_def split: option.splits)
    with new have "isPositionAfter (cu_position c) (cp_position w)" by simp
    with w(2) after_trans[of p "cu_position c" "cp_position w"] after_asym show ?thesis
      by (auto simp: passed_def checkpoint_of_def)
  qed
  have mb: "mark_of (ad_marks b) k = Some (checkpoint_of c)" by (simp add: m True)
  have ck: "of_key k (c # new') = c # of_key k new'" by (simp add: True)
  have cp: "cp_position (checkpoint_of c) = cu_position c" by (simp add: checkpoint_of_def)
  have lm: "last_mark (Some (checkpoint_of c)) (of_key k new') = last_mark (mark_of (ad_marks a) k) (c # of_key k new')"
    by (simp add: last_mark_def)
  have adv: "jget (ad_advanced b) k = Some (cu_address c, checkpoint_of c)" by (simp add: ad True)
  show ?thesis
    unfolding key_post_def ck
  proof (intro conjI)
    from post have "chain_from (Some (cu_position c)) (map cu_position (of_key k new'))"
      by (simp add: key_post_def mb cp)
    then show "chain_from (wm (mark_of (ad_marks a) k)) (map cu_position (c # of_key k new'))"
      using ct by (simp add: True)
    show "mark_of (ad_marks a') k = last_mark (mark_of (ad_marks a) k) (c # of_key k new')"
      using post by (simp add: key_post_def mb lm)
    show "jget (ad_advanced a') k = (if c # of_key k new' = [] then jget (ad_advanced a) k
        else Some (cu_address (last (c # of_key k new')), checkpoint_of (last (c # of_key k new'))))"
      using post by (simp add: key_post_def adv)
    show "\<forall>p. passed (mark_of (ad_marks a) k) p \<longrightarrow> passed (mark_of (ad_marks a') k) p"
      using post mono True unfolding key_post_def mb by blast
  qed
next
  case False
  then have eq: "mark_of (ad_marks b) k = mark_of (ad_marks a) k" "jget (ad_advanced b) k = jget (ad_advanced a) k"
    "of_key k (c # new') = of_key k new'" by (simp_all add: m ad)
  from post show ?thesis unfolding key_post_def eq .
qed

lemma advance_loop_spec:
  assumes "advance_loop name cs a = Inr a'"
  shows "\<exists>new. toApply a' = toApply a @ new \<and> set new \<subseteq> set cs \<and>
    skipped a' + length new = skipped a + length cs \<and> (\<forall>k. key_post a new a' k) \<and>
    (\<forall>c \<in> set cs. passed (mark_of (ad_marks a') (cu_key c)) (cu_position c)) \<and>
    (jok (ad_advanced a) \<longrightarrow> jok (ad_advanced a'))"
  using assms
proof (induction cs arbitrary: a)
  case Nil
  then show ?case by (auto simp: key_post_def last_mark_def)
next
  case (Cons c cs)
  show ?case
  proof (cases "is_new (ad_marks a) c")
    case False
    with Cons.prems have "advance_loop name cs (a\<lparr>skipped := skipped a + 1\<rparr>) = Inr a'" by simp
    from Cons.IH[OF this] obtain new where n: "toApply a' = toApply a @ new" "set new \<subseteq> set cs"
      "skipped a' + length new = skipped a + 1 + length cs" "\<forall>k. key_post a new a' k"
      "\<forall>c \<in> set cs. passed (mark_of (ad_marks a') (cu_key c)) (cu_position c)"
      "jok (ad_advanced a) \<longrightarrow> jok (ad_advanced a')"
      by auto
    then have kp: "\<forall>k. key_post a new a' k" by simp
    moreover have "passed (mark_of (ad_marks a') (cu_key c)) (cu_position c)"
      using False kp unfolding is_new_passed key_post_def by blast
    ultimately show ?thesis using n(1-3,5,6) by (intro exI[of _ new]) auto
  next
    case True
    let ?a = "a\<lparr>ad_marks := jset (cu_key c) (Some (checkpoint_of c)) (ad_marks a),
      ad_advanced := jset (cu_key c) (cu_address c, checkpoint_of c) (ad_advanced a), toApply := toApply a @ [c]\<rparr>"
    from True Cons.prems have ct: "isContiguousPosition (cu_position c) (wm (mark_of (ad_marks a) (cu_key c)))"
      and l: "advance_loop name cs ?a = Inr a'"
      by (auto simp: Let_def checkpoint_of_def split: if_splits)
    from Cons.IH[OF l] obtain new where n: "toApply a' = toApply a @ c # new" "set new \<subseteq> set cs"
      "skipped a' + length new = skipped a + length cs" and k: "\<forall>k. key_post ?a new a' k"
      and cov: "\<forall>c \<in> set cs. passed (mark_of (ad_marks a') (cu_key c)) (cu_position c)"
      and j: "jok (ad_advanced ?a) \<longrightarrow> jok (ad_advanced a')"
      by auto
    have "key_post a (c # new) a' k" for k
      using key_post_take[OF True ct, of ?a new a' k] k by simp
    moreover have "passed (mark_of (ad_marks a') (cu_key c)) (cu_position c)"
    proof -
      have "passed (mark_of (ad_marks ?a) (cu_key c)) (cu_position c)" by (simp add: passed_def checkpoint_of_def)
      then show ?thesis using k unfolding key_post_def by blast
    qed
    moreover have "jok (ad_advanced a) \<longrightarrow> jok (ad_advanced a')" using j by simp
    ultimately show ?thesis using n cov by (intro exI[of _ "c # new"]) auto
  qed
qed

section \<open>The contract of a checkpoint store\<close>

definition valid_position :: "linked_position \<Rightarrow> bool" where
  "valid_position p \<longleftrightarrow> commitSequence p < commitSize p \<and>
     (\<forall>v. previousEventfulAggregateVersion p = Some v \<longrightarrow> v < aggregateVersion p)"

definition valid_checkpoint :: "checkpoint \<Rightarrow> bool" where
  "valid_checkpoint k \<longleftrightarrow> lastAppliedEventId k \<noteq> [] \<and> valid_position (cp_position k)"

lemma js_nat_of_nat [simp]: "js_nat (Num (of_nat n)) = Some n"
  by (simp add: js_nat_def)

lemma checkpoint_roundtrip: "valid_checkpoint k \<Longrightarrow> isValidCheckpoint (to_raw k) = Some k"
  by (cases "previousEventfulAggregateVersion (cp_position k)")
    (auto simp: isValidCheckpoint_def to_raw_def Let_def isValidPosition_def valid_checkpoint_def
      valid_position_def link_position_def)

lemma isValidPosition_valid: "isValidPosition r = Some p \<Longrightarrow> valid_position p"
  by (auto simp: isValidPosition_def valid_position_def link_position_def split: option.splits if_splits)

lemma cursor_event_ok: "cursor_event name ce = Inr c \<Longrightarrow> cu_id c \<noteq> [] \<and> valid_position (cu_position c)"
  by (auto simp: cursor_event_def Let_def isValidPosition_valid split: option.splits if_splits)

lemma checkpoint_of_valid: "cu_id c \<noteq> [] \<Longrightarrow> valid_position (cu_position c) \<Longrightarrow> valid_checkpoint (checkpoint_of c)"
  by (simp add: valid_checkpoint_def checkpoint_of_def)

lemma same_receipt_eq: "isSamePositionReceipt p q \<longleftrightarrow> p = q"
  by (auto simp: isSamePositionReceipt_def isSameOrderedPosition_def)

lemma check_batch_receipts_pairs:
  assumes "check_batch_receipts name seen cs = Inr ()"
  shows "(\<forall>c \<in> set cs. \<forall>r. jget seen (addressedPositionKey c) = Some r \<longrightarrow> r = (cu_id c, cu_position c)) \<and>
    (\<forall>c \<in> set cs. \<forall>d \<in> set cs. addressedPositionKey c = addressedPositionKey d \<longrightarrow>
      cu_id c = cu_id d \<and> cu_position c = cu_position d)"
  using assms
proof (induction cs arbitrary: seen)
  case (Cons c cs)
  let ?seen = "jset (addressedPositionKey c) (cu_id c, cu_position c) seen"
  from Cons.prems have h: "\<forall>r. jget seen (addressedPositionKey c) = Some r \<longrightarrow> r = (cu_id c, cu_position c)"
    and r: "check_batch_receipts name ?seen cs = Inr ()"
    by (auto simp: same_receipt_eq split: option.splits prod.splits if_splits)
  from Cons.IH[OF r] have ih: "\<forall>d \<in> set cs. \<forall>r. jget ?seen (addressedPositionKey d) = Some r \<longrightarrow> r = (cu_id d, cu_position d)"
    "\<forall>c \<in> set cs. \<forall>d \<in> set cs. addressedPositionKey c = addressedPositionKey d \<longrightarrow>
      cu_id c = cu_id d \<and> cu_position c = cu_position d" by blast+
  from ih(1) have e: "\<forall>d \<in> set cs. addressedPositionKey d = addressedPositionKey c \<longrightarrow>
      cu_id c = cu_id d \<and> cu_position c = cu_position d" by simp
  have s: "r = (cu_id d, cu_position d)" if "d \<in> set cs" "jget seen (addressedPositionKey d) = Some r" for d r
  proof (cases "addressedPositionKey d = addressedPositionKey c")
    case True
    with h e that show ?thesis by (cases r) auto
  next
    case False
    with ih(1) that show ?thesis by (cases r) auto
  qed
  have p: "cu_id x = cu_id y \<and> cu_position x = cu_position y"
    if "x \<in> set (c # cs)" "y \<in> set (c # cs)" "addressedPositionKey x = addressedPositionKey y" for x y
  proof -
    from that(1,2) consider "x = c" "y = c" | "x = c" "y \<in> set cs" | "x \<in> set cs" "y = c" | "x \<in> set cs" "y \<in> set cs"
      by auto
    then show ?thesis
    proof cases
      case 2
      with e[rule_format, of y] that(3) show ?thesis by simp
    next
      case 3
      with e[rule_format, of x] that(3) show ?thesis by simp
    next
      case 4
      with ih(2) that(3) show ?thesis by blast
    qed simp
  qed
  have "r = (cu_id d, cu_position d)" if "d \<in> set (c # cs)" "jget seen (addressedPositionKey d) = Some r" for d r
    using that s h by (cases "d = c") simp_all
  with p show ?case by blast
qed simp

locale checkpoint_laws =
  fixes P :: "'s checkpoint_port"
    and stored :: "string \<Rightarrow> aggregate_address \<Rightarrow> 's \<Rightarrow> checkpoint option"
    and ok :: "'s \<Rightarrow> bool"
  assumes load_stored: "ok s \<Longrightarrow> cp_load P p a s = map_option to_raw (stored p a s)"
    and stored_valid: "ok s \<Longrightarrow> stored p a s = Some k \<Longrightarrow> valid_checkpoint k"
    and save_stored: "ok s \<Longrightarrow> valid_checkpoint k \<Longrightarrow> cp_save P p a k s = Inr s' \<Longrightarrow>
      stored q b s' = (if q = p \<and> b = a then Some k else stored q b s)"
    and save_ok: "ok s \<Longrightarrow> valid_checkpoint k \<Longrightarrow> cp_save P p a k s = Inr s' \<Longrightarrow> ok s'"
begin

lemma load_marks_spec:
  assumes "ok s" "load_marks P name s cs m = Inr m'"
    and "\<And>k v. jget m k = Some v \<Longrightarrow> \<exists>a. k = encodeAggregateAddress a \<and> v = stored name a s"
  shows "(\<forall>c \<in> set cs. jhas m' (cu_key c)) \<and> (\<forall>k. jhas m k \<longrightarrow> jhas m' k) \<and>
    (\<forall>k v. jget m' k = Some v \<longrightarrow> (\<exists>a. k = encodeAggregateAddress a \<and> v = stored name a s))"
  using assms(2,3)
proof (induction cs arbitrary: m)
  case (Cons c cs)
  show ?case
  proof (cases "jhas m (cu_key c)")
    case True
    with Cons.prems Cons.IH[of m] show ?thesis by auto
  next
    case False
    let ?m = "jset (cu_key c) (stored name (cu_address c) s) m"
    have "load_marks P name s cs ?m = Inr m'"
      using Cons.prems(1) False load_stored[OF assms(1)] stored_valid[OF assms(1)] checkpoint_roundtrip
      by (cases "stored name (cu_address c) s") auto
    moreover have "\<exists>a. k = encodeAggregateAddress a \<and> v = stored name a s" if "jget ?m k = Some v" for k v
      using that Cons.prems(2)[of k v] by (auto split: if_splits)
    ultimately have "(\<forall>c \<in> set cs. jhas m' (cu_key c)) \<and> (\<forall>k. jhas ?m k \<longrightarrow> jhas m' k) \<and>
        (\<forall>k v. jget m' k = Some v \<longrightarrow> (\<exists>a. k = encodeAggregateAddress a \<and> v = stored name a s))"
      by (rule Cons.IH)
    then show ?thesis by auto
  qed
qed simp

lemma loaded_marks:
  assumes "ok s" "load_marks P name s cs [] = Inr m" "c \<in> set cs"
  shows "mark_of m (cu_key c) = stored name (cu_address c) s"
proof -
  have l: "jhas m (cu_key c)" "\<forall>k v. jget m k = Some v \<longrightarrow> (\<exists>a. k = encodeAggregateAddress a \<and> v = stored name a s)"
    using load_marks_spec[OF assms(1,2)] assms(3) by simp_all
  then obtain v where v: "jget m (cu_key c) = Some v" by auto
  with l(2) obtain a where "cu_key c = encodeAggregateAddress a" "v = stored name a s" by blast
  with encoded_address_unique v show ?thesis by (auto simp: mark_of_def)
qed

lemma save_all:
  assumes "ok s" "jok adv" "\<And>k a c. (k, a, c) \<in> set adv \<Longrightarrow> k = encodeAggregateAddress a \<and> valid_checkpoint c"
    and "fold_res (\<lambda>(a, c). cp_save P name a c) (jvals adv) s = Inr s'"
  shows "ok s' \<and> (\<forall>q b. stored q b s' = (if q = name then (case jget adv (encodeAggregateAddress b) of
      Some (a, c) \<Rightarrow> Some c | None \<Rightarrow> stored q b s) else stored q b s))"
  using assms
proof (induction adv arbitrary: s)
  case (Cons x adv)
  obtain k a c where x: "x = (k, a, c)" by (cases x) auto
  from Cons.prems(3)[of k a c] x have ka: "k = encodeAggregateAddress a" "valid_checkpoint c" by auto
  from Cons.prems(4) x obtain t where t: "cp_save P name a c s = Inr t"
    "fold_res (\<lambda>(a, c). cp_save P name a c) (jvals adv) t = Inr s'" by auto
  have j: "jok adv" "jget adv k = None" using Cons.prems(2) x by (auto simp: jok_def jget_None_iff)
  have "ok s' \<and> (\<forall>q b. stored q b s' = (if q = name then (case jget adv (encodeAggregateAddress b) of
      Some (a, c) \<Rightarrow> Some c | None \<Rightarrow> stored q b t) else stored q b t))"
    using Cons.prems(3) by (intro Cons.IH[OF save_ok[OF Cons.prems(1) ka(2) t(1)] j(1) _ t(2)]) auto
  then show ?case
    using save_stored[OF Cons.prems(1) ka(2) t(1)] j(2) encoded_address_unique
    by (auto simp: x ka(1) split: option.splits)
qed simp

text \<open>
  What a batch that returns has done: the events taken, per source, continue the watermark
  without a gap; the new watermark is the last of them; and every event of the batch is at
  or before it.
\<close>

lemma project_spec:
  assumes ok: "ok s" and pr: "project P name f events (s, m) = Inr (r, s', m')"
  obtains cs new where "map_res (cursor_event name) events = Inr cs" "set new \<subseteq> set cs"
    "check_batch_receipts name [] cs = Inr ()"
    "fold_res (\<lambda>c. f (cu_event c)) new m = Inr m'" "ok s'"
    "br_applied r = length new" "br_applied r + br_skipped r = length events"
    "\<And>a. chain_from (wm (stored name a s)) (map cu_position (of_key (encodeAggregateAddress a) new)) \<and>
      stored name a s' = last_mark (stored name a s) (of_key (encodeAggregateAddress a) new)"
    "\<And>c. c \<in> set cs \<Longrightarrow> passed (stored name (cu_address c) s') (cu_position c)"
    "\<And>q a. q \<noteq> name \<Longrightarrow> stored q a s' = stored q a s"
    "\<And>c d. c \<in> set cs \<Longrightarrow> d \<in> set cs \<Longrightarrow> addressedPositionKey c = addressedPositionKey d \<Longrightarrow>
      cu_id c = cu_id d \<and> cu_position c = cu_position d"
    "\<And>c k. c \<in> set cs \<Longrightarrow> stored name (cu_address c) s = Some k \<Longrightarrow> isSameOrderedPosition (cu_position c) (cp_position k) \<Longrightarrow>
      cu_id c = lastAppliedEventId k \<and> isSamePositionReceipt (cu_position c) (cp_position k)"
proof -
  from pr obtain cs mk a where cs: "map_res (cursor_event name) events = Inr cs"
    and mk: "load_marks P name s cs [] = Inr mk"
    and wi: "\<forall>c \<in> set cs. check_watermark_identity name mk c = Inr ()"
    and br: "check_batch_receipts name [] cs = Inr ()"
    and ad: "advance_loop name cs \<lparr>ad_marks = mk, ad_advanced = [], toApply = [], skipped = 0\<rparr> = Inr a"
    and ap: "fold_res (\<lambda>c. f (cu_event c)) (toApply a) m = Inr m'"
    and sv: "fold_res (\<lambda>(address, k). cp_save P name address k) (jvals (ad_advanced a)) s = Inr s'"
    and r: "r = \<lparr>br_applied = length (toApply a), br_skipped = skipped a\<rparr>"
    by (auto simp: project_def)
  let ?a0 = "\<lparr>ad_marks = mk, ad_advanced = [], toApply = [], skipped = 0\<rparr> :: 'b advance"
  from advance_loop_spec[OF ad] obtain new where new: "toApply a = new" "set new \<subseteq> set cs"
    "skipped a + length new = length cs" and kp: "\<And>k. key_post ?a0 new a k"
    and cov: "\<forall>c \<in> set cs. passed (mark_of (ad_marks a) (cu_key c)) (cu_position c)"
    and j: "jok (ad_advanced a)" by auto
  have len: "length cs = length events" and src: "\<forall>c \<in> set cs. \<exists>e. cursor_event name e = Inr c"
    using map_res_set[OF cs] by auto
  have mkc: "mark_of mk (cu_key c) = stored name (cu_address c) s" if "c \<in> set cs" for c
    by (rule loaded_marks[OF ok mk that])
  have addr: "cu_address c = b" if "c \<in> set (of_key (encodeAggregateAddress b) new)" for c b
    using that encoded_address_unique by (auto simp: of_key_def)
  have mkb: "mark_of mk (encodeAggregateAddress b) = stored name b s" if "of_key (encodeAggregateAddress b) new \<noteq> []" for b
  proof -
    from that obtain c where c: "c \<in> set (of_key (encodeAggregateAddress b) new)" by (meson list.set_sel(1))
    then have "c \<in> set cs" using new(2) by (auto simp: of_key_def)
    from mkc[OF this] addr[OF c] show ?thesis by simp
  qed
  have adv: "jget (ad_advanced a) (encodeAggregateAddress b) = (let n = of_key (encodeAggregateAddress b) new in
      if n = [] then None else Some (b, checkpoint_of (last n)))" for b
    using kp[of "encodeAggregateAddress b"] addr[of "last (of_key (encodeAggregateAddress b) new)" b]
    by (simp add: key_post_def Let_def)
  have entries: "k = encodeAggregateAddress b \<and> valid_checkpoint c" if "(k, b, c) \<in> set (ad_advanced a)" for k b c
  proof -
    from that have g: "jget (ad_advanced a) k = Some (b, c)" using jget_of_mem[OF j] by blast
    with kp[of k] have n: "of_key k new \<noteq> []" "b = cu_address (last (of_key k new))" "c = checkpoint_of (last (of_key k new))"
      by (auto simp: key_post_def split: if_splits)
    then have l: "last (of_key k new) \<in> set (of_key k new)" by simp
    then have "cu_key (last (of_key k new)) = k" "last (of_key k new) \<in> set cs" using new(2) by (auto simp: of_key_def)
    with src n cursor_event_ok checkpoint_of_valid show ?thesis by metis
  qed
  from save_all[OF ok j entries sv] have s': "ok s'" and st: "\<And>q b. stored q b s' = (if q = name
      then (case jget (ad_advanced a) (encodeAggregateAddress b) of Some (a, c) \<Rightarrow> Some c | None \<Rightarrow> stored q b s)
      else stored q b s)" by auto
  have nm: "stored name b s' = last_mark (stored name b s) (of_key (encodeAggregateAddress b) new)" for b
    by (simp add: st adv Let_def last_mark_def)
  show thesis
  proof (rule that[OF cs new(2) br])
    show "fold_res (\<lambda>c. f (cu_event c)) new m = Inr m'" using ap new(1) by simp
    show "ok s'" by (rule s')
    show "br_applied r = length new" "br_applied r + br_skipped r = length events"
      using r new len by simp_all
    show "chain_from (wm (stored name b s)) (map cu_position (of_key (encodeAggregateAddress b) new)) \<and>
      stored name b s' = last_mark (stored name b s) (of_key (encodeAggregateAddress b) new)" for b
      using kp[of "encodeAggregateAddress b"] mkb[of b] nm
      by (cases "of_key (encodeAggregateAddress b) new = []") (simp_all add: key_post_def)
    show "passed (stored name (cu_address c) s') (cu_position c)" if "c \<in> set cs" for c
      using cov that kp[of "cu_key c"] mkc[OF that] nm[of "cu_address c"] by (auto simp: key_post_def)
    show "stored q b s' = stored q b s" if "q \<noteq> name" for q b using st that by simp
    show "cu_id c = cu_id d \<and> cu_position c = cu_position d"
      if "c \<in> set cs" "d \<in> set cs" "addressedPositionKey c = addressedPositionKey d" for c d
      using check_batch_receipts_pairs[OF br] that by blast
    show "cu_id c = lastAppliedEventId k \<and> isSamePositionReceipt (cu_position c) (cp_position k)"
      if "c \<in> set cs" "stored name (cu_address c) s = Some k" "isSameOrderedPosition (cu_position c) (cp_position k)" for c k
      using wi that mkc[OF that(1)] by (force simp: check_watermark_identity_def split: if_splits)
  qed
qed

lemma load_marks_total: "ok s \<Longrightarrow> \<exists>m'. load_marks P name s cs m = Inr m'"
proof (induction cs arbitrary: m)
  case (Cons c cs)
  then show ?case
    using load_stored[of s name "cu_address c"] stored_valid[of s name "cu_address c"] checkpoint_roundtrip
    by (cases "stored name (cu_address c) s") auto
qed simp

lemma project_replay:
  assumes ok: "ok s" and pr: "project P name f events (s, m) = Inr (r, s', m')"
  shows "project P name f events (s', m') = Inr (\<lparr>br_applied = 0, br_skipped = length events\<rparr>, s', m')"
proof (rule project_spec[OF ok pr])
  fix cs new
  assume cs: "map_res (cursor_event name) events = Inr cs" and sub: "set new \<subseteq> set cs"
    and br: "check_batch_receipts name [] cs = Inr ()" and s': "ok s'"
    and ch: "\<And>a. chain_from (wm (stored name a s)) (map cu_position (of_key (encodeAggregateAddress a) new)) \<and>
      stored name a s' = last_mark (stored name a s) (of_key (encodeAggregateAddress a) new)"
    and cov: "\<And>c. c \<in> set cs \<Longrightarrow> passed (stored name (cu_address c) s') (cu_position c)"
    and same: "\<And>c d. c \<in> set cs \<Longrightarrow> d \<in> set cs \<Longrightarrow> addressedPositionKey c = addressedPositionKey d \<Longrightarrow>
      cu_id c = cu_id d \<and> cu_position c = cu_position d"
    and old: "\<And>c k. c \<in> set cs \<Longrightarrow> stored name (cu_address c) s = Some k \<Longrightarrow>
      isSameOrderedPosition (cu_position c) (cp_position k) \<Longrightarrow>
      cu_id c = lastAppliedEventId k \<and> isSamePositionReceipt (cu_position c) (cp_position k)"
  obtain mk where mk: "load_marks P name s' cs [] = Inr mk" using load_marks_total[OF s'] by blast
  have mkc: "mark_of mk (cu_key c) = stored name (cu_address c) s'" if "c \<in> set cs" for c
    by (rule loaded_marks[OF s' mk that])
  have wi: "check_watermark_identity name mk c = Inr ()" if c: "c \<in> set cs" for c
  proof (cases "stored name (cu_address c) s'")
    case None
    then show ?thesis by (simp add: check_watermark_identity_def mkc[OF c])
  next
    case (Some k)
    have "cu_id c = lastAppliedEventId k \<and> isSamePositionReceipt (cu_position c) (cp_position k)"
      if o: "isSameOrderedPosition (cu_position c) (cp_position k)"
    proof (cases "of_key (cu_key c) new = []")
      case True
      with ch[of "cu_address c"] Some have "stored name (cu_address c) s = Some k" by (simp add: last_mark_def)
      from old[OF c this o] show ?thesis .
    next
      case False
      let ?d = "last (of_key (cu_key c) new)"
      from False have "?d \<in> set (of_key (cu_key c) new)" by simp
      then have d: "?d \<in> set cs" "cu_key ?d = cu_key c" using sub by (auto simp: of_key_def)
      from ch[of "cu_address c"] Some False have k: "k = checkpoint_of ?d" by (simp add: last_mark_def)
      with o d(2) have "addressedPositionKey c = addressedPositionKey ?d"
        by (simp add: addressedPositionKey_def isSameOrderedPosition_def checkpoint_of_def)
      from same[OF c d(1) this] k show ?thesis by (simp add: checkpoint_of_def same_receipt_eq)
    qed
    with Some show ?thesis by (simp add: check_watermark_identity_def mkc[OF c])
  qed
  have old_all: "\<forall>c \<in> set cs. \<not> is_new mk c" unfolding is_new_passed using cov mkc by simp
  have "check_order name mk n seen xs = Inr ()" if "\<forall>c \<in> set xs. \<not> is_new mk c" for xs n seen
    using that by (induction xs) auto
  from this[OF old_all] have co: "check_order name mk [] [] cs = Inr ()" .
  have "advance_loop name xs a = Inr (a\<lparr>skipped := skipped a + length xs\<rparr>)"
    if "\<forall>c \<in> set xs. \<not> is_new mk c" "ad_marks a = mk" for xs a
    using that by (induction xs arbitrary: a) auto
  from this[OF old_all, of "\<lparr>ad_marks = mk, ad_advanced = [], toApply = [], skipped = 0\<rparr>"]
  have "advance_loop name cs \<lparr>ad_marks = mk, ad_advanced = [], toApply = [], skipped = 0\<rparr> =
      Inr \<lparr>ad_marks = mk, ad_advanced = [], toApply = [], skipped = length cs\<rparr>" by simp
  with cs mk wi br co map_res_set[OF cs] show ?thesis by (simp add: project_def)
qed

end

section \<open>The in-memory store keeps the contract\<close>

definition checkpoint_store_ok :: "checkpoint_store \<Rightarrow> bool" where
  "checkpoint_store_ok s \<longleftrightarrow> (\<forall>p a k. cs_lookup p a s = Some k \<longrightarrow> valid_checkpoint k)"

lemma memory_save_lookup: "memory_save p a k s = Inr s' \<Longrightarrow>
    cs_lookup q b s' = (if q = p \<and> b = a then Some k else cs_lookup q b s)"
  using encoded_address_unique[of b a]
  by (auto simp: memory_save_def cs_lookup_def Let_def split: if_splits option.splits)

interpretation memory_cp: checkpoint_laws memory_checkpoints cs_lookup checkpoint_store_ok
  by unfold_locales (auto simp: memory_checkpoints_def memory_load_def checkpoint_store_ok_def memory_save_lookup)

section \<open>Properties\<close>


text \<open>
  C5. Projecting a batch again changes nothing: after a batch was projected, the same batch
  is accepted, applies no event, skips all of them and leaves checkpoints and read model as
  they are.
\<close>

theorem projection_replay_idempotent:
  assumes "checkpoint_store_ok s"
    and "project memory_checkpoints name applyEvent events (s, model) = Inr (r, s', model')"
  shows "project memory_checkpoints name applyEvent events (s', model') =
    Inr (\<lparr>br_applied = 0, br_skipped = length events\<rparr>, s', model')"
  using assms by (rule memory_cp.project_replay)

definition ex_committed :: "string \<Rightarrow> nat \<Rightarrow> nat option \<Rightarrow> unit committed_event" where
  "ex_committed i v prev = \<lparr>ce_event = ex_event i, ce_source = Some \<lparr>addr_type = ''Order'', addr_id = ''o''\<rparr>,
     ce_position = Some \<lparr>rp_version = Num (of_nat v), rp_sequence = Num 0, rp_size = Some (Num 1),
       rp_previous = Some (map_option (\<lambda>n. Num (of_nat n)) prev)\<rparr>\<rparr>"

definition ex_batch :: "unit committed_event list" where
  "ex_batch = [ex_committed ''e1'' 1 None, ex_committed ''e1'' 1 None, ex_committed ''e2'' 3 (Some 1)]"

definition ex_apply :: "unit domain_event \<Rightarrow> string list \<Rightarrow> (js_error, string list) res" where
  "ex_apply e m = Inr (m @ [eventId e])"

definition ex_checkpoints :: checkpoint_store where
  "ex_checkpoints = \<lparr>cs_checkpoints = [], checkpointCount = 0, maxCheckpoints = Some 2\<rparr>"

lemma ex_checkpoints_ok: "checkpoint_store_ok ex_checkpoints"
  by (simp add: checkpoint_store_ok_def ex_checkpoints_def cs_lookup_def)

lemma ex_batch_length: "length ex_batch = 3"
  by (simp add: ex_batch_def)

lemma ex_project: "\<exists>r s' m'. project memory_checkpoints ''p'' ex_apply ex_batch (ex_checkpoints, []) = Inr (r, s', m') \<and>
    m' = [''e1'', ''e2''] \<and> br_applied r = 2"
proof -
  have "case project memory_checkpoints ''p'' ex_apply ex_batch (ex_checkpoints, []) of
    Inr (r, s', m') \<Rightarrow> m' = [''e1'', ''e2''] \<and> br_applied r = 2 | Inl e \<Rightarrow> False" by code_simp
  then show ?thesis by (auto split: sum.splits prod.splits)
qed


theorem projection_replay_witness:
  "\<exists>s' m'. project memory_checkpoints ''p'' ex_apply ex_batch (s', m') = Inr (\<lparr>br_applied = 0, br_skipped = 3\<rparr>, s', m') \<and>
    m' = [''e1'', ''e2'']"
proof -
  obtain r s' m' where p: "project memory_checkpoints ''p'' ex_apply ex_batch (ex_checkpoints, []) = Inr (r, s', m')"
    "m' = [''e1'', ''e2'']" using ex_project by blast
  from projection_replay_idempotent[OF ex_checkpoints_ok p(1)] p(2) show ?thesis
    unfolding ex_batch_length by blast
qed

end
