(* ===== verification/Dispatcher.thy ===== *)
theory Dispatcher
  imports Outbox
begin

text \<open>
  The outbox dispatcher (src/events/outbox-dispatcher.ts) with the pieces it uses: failure
  assessment (src/utils/delivery-failure.ts), the backoff delay (backoff.ts, poll-loop.ts)
  and bounded execution. The environment decides when the owner aborts, what each
  publication and each storage call does; a storage call that fails may have taken effect.
  The dispatcher works on any outbox that offers the operations of \<open>outbox_port\<close>; the laws
  it relies on are a locale, and the in-memory outbox is an interpretation.
\<close>

section \<open>Failure assessment and backoff\<close>

datatype failure_kind = Transient | Permanent | Unknown

fun js_retryable :: "js_error \<Rightarrow> bool option" where
  "js_retryable (KitError k c) = Some (retryable_of k)"
| "js_retryable (RollbackError c r) = Some False"
| "js_retryable (UserError c r n) = Some r"
| "js_retryable _ = None"

fun js_name :: "js_error \<Rightarrow> string" where
  "js_name (PlainError n c) = n"
| "js_name _ = []"

text \<open>The walk along the causes.\<close>

fun classify_chain :: "bool \<Rightarrow> js_error list \<Rightarrow> failure_kind" where
  "classify_chain sawNonRetryable [] = (if sawNonRetryable then Permanent else Unknown)"
| "classify_chain sawNonRetryable (e # es) =
     (if js_name e = ''TimeoutError'' then Transient
      else if js_retryable e = Some True then Transient
      else classify_chain (sawNonRetryable \<or> js_retryable e = Some False) es)"

definition classifyDeliveryFailure :: "js_error \<Rightarrow> failure_kind" where
  "classifyDeliveryFailure e = classify_chain False (causes e)"

text \<open>A classifier of the user may throw or return something that is no kind (\<open>None\<close>).\<close>

type_synonym classifier = "js_error \<Rightarrow> (js_error, failure_kind option) res"

record assessment =
  as_kind :: failure_kind
  as_classifierError :: "js_error option"

definition assessDeliveryFailure :: "classifier option \<Rightarrow> js_error \<Rightarrow> assessment" where
  "assessDeliveryFailure cl e = (case cl of
     None \<Rightarrow> \<lparr>as_kind = classifyDeliveryFailure e, as_classifierError = None\<rparr>
   | Some f \<Rightarrow> (case f e of
       Inr (Some k) \<Rightarrow> \<lparr>as_kind = k, as_classifierError = None\<rparr>
     | Inr None \<Rightarrow> \<lparr>as_kind = Unknown, as_classifierError = Some typeError\<rparr>
     | Inl err \<Rightarrow> \<lparr>as_kind = Unknown, as_classifierError = Some err\<rparr>))"

text \<open>
  The delay over exact rationals; \<open>2 ** n\<close> overflows to infinity from \<open>n = 1024\<close> on, and
  zero times infinity is \<open>NaN\<close>. \<open>Math.round\<close> rounds halves up.
\<close>

definition js_pow2 :: "nat \<Rightarrow> js_num" where
  "js_pow2 n = (if n < 1024 then Num (2 ^ n) else PosInfinity)"

fun js_scale :: "rat \<Rightarrow> js_num \<Rightarrow> js_num" where
  "js_scale q (Num r) = Num (q * r)"
| "js_scale q PosInfinity = (if q = 0 then NaN else if 0 < q then PosInfinity else NegInfinity)"
| "js_scale q NegInfinity = (if q = 0 then NaN else if 0 < q then NegInfinity else PosInfinity)"
| "js_scale q NaN = NaN"

fun js_min :: "rat \<Rightarrow> js_num \<Rightarrow> js_num" where
  "js_min q (Num r) = Num (min q r)"
| "js_min q PosInfinity = Num q"
| "js_min q n = n"

fun js_round :: "js_num \<Rightarrow> js_num" where
  "js_round (Num q) = Num (of_int \<lfloor>q + 1 / 2\<rfloor>)"
| "js_round n = n"

fun js_max0 :: "js_num \<Rightarrow> js_num" where
  "js_max0 (Num q) = Num (max 0 q)"
| "js_max0 PosInfinity = PosInfinity"
| "js_max0 NegInfinity = Num 0"
| "js_max0 NaN = NaN"

definition computeBackoffDelay :: "nat \<Rightarrow> rat \<Rightarrow> rat \<Rightarrow> rat \<Rightarrow> js_num" where
  "computeBackoffDelay attempt baseDelayMs maxDelayMs random =
     (let exponential = js_scale baseDelayMs (js_pow2 (attempt - 1));
          capped = js_min maxDelayMs exponential;
          jitter = 4 / 5 + random * (2 / 5)
      in js_max0 (js_min maxDelayMs (js_round (js_scale jitter capped))))"

text \<open>A jitter source that throws or is not finite counts as neutral.\<close>

definition neutralJitterSource :: "(js_error, js_num) res \<Rightarrow> rat" where
  "neutralJitterSource r = (case r of Inr (Num q) \<Rightarrow> q | _ \<Rightarrow> 1 / 2)"

section \<open>Ports and environment\<close>

record ('o, 'p) outbox_port =
  get_pending :: "nat \<Rightarrow> 'o \<Rightarrow> 'p outbox_record list"
  mark_dispatched :: "string list \<Rightarrow> 'o \<Rightarrow> 'o"
  mark_failed :: "(string \<Rightarrow> js_error \<Rightarrow> 'o \<Rightarrow> 'p outbox_record option \<times> 'o) option"

datatype storage_outcome = Completed | FailedBefore js_error | FailedAfter js_error

text \<open>Decisions of the environment, indexed by the number of calls made so far.\<close>

record 'p environment =
  abort_time :: "nat option"
  sink_publish :: "nat \<Rightarrow> 'p outbox_record \<Rightarrow> js_error option"
  storage :: "nat \<Rightarrow> storage_outcome"
  classifyFailure :: "classifier option"

datatype report =
    OnPollError js_error
  | OnDispatchError js_error string "assessment option"
  | OnDeliveryError js_error string "assessment option"
  | OnDeadLetter string

record 'o dispatcher =
  box :: 'o
  tick :: nat
  consecutiveFailures :: nat
  published :: "string list"
  reports :: "report list"

definition aborted :: "('p, 'z) environment_scheme \<Rightarrow> ('o, 'y) dispatcher_scheme \<Rightarrow> bool" where
  "aborted env d = (case abort_time env of Some t \<Rightarrow> t \<le> tick d | None \<Rightarrow> False)"

definition step_clock :: "'o dispatcher \<Rightarrow> 'o dispatcher" where
  "step_clock d = d\<lparr>tick := tick d + 1\<rparr>"

definition report_to :: "report \<Rightarrow> 'o dispatcher \<Rightarrow> 'o dispatcher" where
  "report_to r d = d\<lparr>reports := reports d @ [r]\<rparr>"

text \<open>
  One storage call under \<open>runBoundedExecution\<close>: with an aborted owner signal the operation
  does not start; otherwise it completes, or the caller sees an error while the operation
  had or had not taken effect.
\<close>

definition bounded_storage :: "('p, 'z) environment_scheme \<Rightarrow> bool \<Rightarrow> ('o \<Rightarrow> 'r \<times> 'o) \<Rightarrow> 'o dispatcher
    \<Rightarrow> (js_error, 'r) res \<times> 'o dispatcher" where
  "bounded_storage env ownerSignal operation d =
     (if ownerSignal \<and> aborted env d then (Inl (PlainError ''AbortError'' None), step_clock d)
      else let (r, o') = operation (box d) in (case storage env (tick d) of
        Completed \<Rightarrow> (Inr r, step_clock (d\<lparr>box := o'\<rparr>))
      | FailedBefore e \<Rightarrow> (Inl e, step_clock d)
      | FailedAfter e \<Rightarrow> (Inl e, step_clock (d\<lparr>box := o'\<rparr>))))"

section \<open>The dispatcher\<close>

text \<open>The publish loop: the delivered ids and the record that failed, if any.\<close>

fun publish_loop :: "'p environment \<Rightarrow> 'p outbox_record list \<Rightarrow> 'o dispatcher
    \<Rightarrow> string list \<times> ('p outbox_record \<times> js_error) option \<times> 'o dispatcher" where
  "publish_loop env [] d = ([], None, d)"
| "publish_loop env (r # rs) d =
     (if aborted env d then ([], None, d)
      else case sink_publish env (tick d) r of
        None \<Rightarrow> (let (ids, f, d') = publish_loop env rs
                   (step_clock (d\<lparr>published := published d @ [dispatchId r]\<rparr>))
                 in (dispatchId r # ids, f, d'))
      | Some e \<Rightarrow> (let d' = step_clock d in if aborted env d' then ([], None, d') else ([], Some (r, e), d')))"

text \<open>Acknowledge the delivered prefix; an abort that already fired does not stop the attempt.\<close>

definition ack_delivered :: "('o, 'p) outbox_port \<Rightarrow> 'p environment \<Rightarrow> 'p outbox_record list \<Rightarrow> string list
    \<Rightarrow> 'o dispatcher \<Rightarrow> bool \<times> 'o dispatcher" where
  "ack_delivered P env batch delivered d =
     (if delivered = [] then (True, d)
      else case bounded_storage env (\<not> aborted env d) (\<lambda>o'. ((), mark_dispatched P delivered o')) d of
        (Inr _, d') \<Rightarrow> (True, d'\<lparr>consecutiveFailures := 0\<rparr>)
      | (Inl e, d') \<Rightarrow> (False, if aborted env d' then d'
          else fold (\<lambda>r. report_to (OnDispatchError e (dispatchId r) None)) (take (length delivered) batch) d'))"

definition handle_failure :: "('o, 'p) outbox_port \<Rightarrow> 'p environment \<Rightarrow> 'p outbox_record \<Rightarrow> js_error
    \<Rightarrow> 'o dispatcher \<Rightarrow> 'o dispatcher" where
  "handle_failure P env r e d =
     (let as = assessDeliveryFailure (classifyFailure env) e;
          d1 = report_to (OnDispatchError e (dispatchId r) (Some as)) d
      in case mark_failed P of
        None \<Rightarrow> d1
      | Some mf \<Rightarrow>
          if as_kind as = Transient then d1
          else (case bounded_storage env True (mf (dispatchId r) e) d1 of
            (Inr (Some dl), d2) \<Rightarrow> report_to (OnDeadLetter (dispatchId dl)) d2
          | (Inr None, d2) \<Rightarrow> d2
          | (Inl markError, d2) \<Rightarrow> if aborted env d2 then d2
              else report_to (OnDispatchError markError (dispatchId r) None) d2))"

definition dispatchBatch :: "('o, 'p) outbox_port \<Rightarrow> 'p environment \<Rightarrow> 'p outbox_record list
    \<Rightarrow> 'o dispatcher \<Rightarrow> bool \<times> 'o dispatcher" where
  "dispatchBatch P env batch d =
     (let (delivered, failure, d1) = publish_loop env batch d;
          (acked, d2) = ack_delivered P env batch delivered d1;
          d3 = (case failure of Some (r, e) \<Rightarrow> handle_failure P env r e d2 | None \<Rightarrow> d2);
          d4 = (if failure \<noteq> None \<or> \<not> acked
                then d3\<lparr>consecutiveFailures := max (consecutiveFailures d3 + 1)
                    ((case failure of Some (r, e) \<Rightarrow> attempts r | None \<Rightarrow> 0) + 1)\<rparr>
                else d3)
      in (failure = None \<and> acked \<and> \<not> (aborted env d4 \<and> length delivered < length batch), d4))"

datatype pass_outcome = Drained | Stopped

text \<open>One pass, with fuel for the number of batches; \<open>None\<close> is running out of it.\<close>

fun pass :: "('o, 'p) outbox_port \<Rightarrow> 'p environment \<Rightarrow> nat \<Rightarrow> nat \<Rightarrow> 'o dispatcher
    \<Rightarrow> (pass_outcome \<times> 'o dispatcher) option" where
  "pass P env batchSize 0 d = None"
| "pass P env batchSize (Suc fuel) d =
     (if aborted env d then Some (Stopped, d)
      else case bounded_storage env True (\<lambda>o'. (get_pending P batchSize o', o')) d of
        (Inl e, d1) \<Rightarrow> Some (Stopped, if aborted env d1 then d1
          else report_to (OnPollError e) (d1\<lparr>consecutiveFailures := consecutiveFailures d1 + 1\<rparr>))
      | (Inr batch, d1) \<Rightarrow>
          if batch = [] then Some (Drained, d1\<lparr>consecutiveFailures := 0\<rparr>)
          else (case dispatchBatch P env batch d1 of
            (completed, d2) \<Rightarrow> if \<not> completed then Some (Stopped, d2) else pass P env batchSize fuel d2))"

definition currentBackoff :: "rat \<Rightarrow> rat \<Rightarrow> rat \<Rightarrow> 'o dispatcher \<Rightarrow> js_num" where
  "currentBackoff baseDelayMs maxDelayMs random d =
     computeBackoffDelay (max 1 (consecutiveFailures d)) baseDelayMs maxDelayMs random"

section \<open>The contract of an outbox\<close>

text \<open>
  \<open>ids\<close> are the pending dispatch ids in commit order, \<open>kept\<close> says that the outbox still
  holds an event, pending or dead-lettered.
\<close>

lemma step_clock_fields [simp]:
  "box (step_clock d) = box d" "published (step_clock d) = published d" "tick (step_clock d) = Suc (tick d)"
  "consecutiveFailures (step_clock d) = consecutiveFailures d" "reports (step_clock d) = reports d"
  by (simp_all add: step_clock_def)

lemma report_to_fields [simp]:
  "box (report_to r d) = box d" "published (report_to r d) = published d" "tick (report_to r d) = tick d"
  "consecutiveFailures (report_to r d) = consecutiveFailures d"
  by (simp_all add: report_to_def)

lemma fold_report_fields [simp]:
  "box (fold (\<lambda>r. report_to (f r)) rs d) = box d" "published (fold (\<lambda>r. report_to (f r)) rs d) = published d"
  "tick (fold (\<lambda>r. report_to (f r)) rs d) = tick d"
  by (induction rs arbitrary: d) simp_all

lemma aborted_mono: "aborted env d \<Longrightarrow> tick d \<le> tick d' \<Longrightarrow> aborted env d'"
  by (auto simp: aborted_def split: option.splits)

lemma bounded_storage_cases:
  assumes "bounded_storage env s f d = (r, d')" "f (box d) = (x, o')"
  shows "published d' = published d" "tick d' = Suc (tick d)" "box d' = box d \<or> box d' = o'"
    "consecutiveFailures d' = consecutiveFailures d" "r = Inr y \<Longrightarrow> y = x \<and> box d' = o'"
  using assms by (auto simp: bounded_storage_def split: if_splits storage_outcome.splits)

lemma publish_loop_spec:
  assumes "publish_loop env batch d = (ids, f, d')"
  shows "box d' = box d \<and> published d' = published d @ ids \<and> ids = take (length ids) (map dispatchId batch) \<and>
    length ids \<le> length batch \<and> tick d \<le> tick d' \<and> consecutiveFailures d' = consecutiveFailures d \<and>
    (f = None \<longrightarrow> length ids = length batch \<or> aborted env d') \<and>
    (\<forall>r e. f = Some (r, e) \<longrightarrow> length ids < length batch \<and> r = batch ! length ids)"
  using assms
proof (induction batch arbitrary: d ids f d')
  case Nil
  then show ?case by simp
next
  case (Cons r rs)
  show ?case
  proof (cases "aborted env d")
    case True
    with Cons.prems show ?thesis by simp
  next
    case na: False
    show ?thesis
    proof (cases "sink_publish env (tick d) r")
      case None
      let ?d = "step_clock (d\<lparr>published := published d @ [dispatchId r]\<rparr>)"
      obtain ids' where l: "publish_loop env rs ?d = (ids', f, d')" and i: "ids = dispatchId r # ids'"
        using Cons.prems na None by (auto split: prod.splits)
      from Cons.IH[OF l] i show ?thesis by auto
    next
      case (Some e)
      with Cons.prems na show ?thesis by (auto simp: Let_def split: if_splits)
    qed
  qed
qed

locale outbox_laws =
  fixes P :: "('o, 'p) outbox_port"
    and ids :: "'o \<Rightarrow> string list"
    and kept :: "'o \<Rightarrow> string \<Rightarrow> bool"
    and ok :: "'o \<Rightarrow> bool"
  assumes get_ids: "ok x \<Longrightarrow> map dispatchId (get_pending P n x) = take n (ids x)"
    and distinct_ids: "ok x \<Longrightarrow> distinct (ids x)"
    and ack_ids: "ok x \<Longrightarrow> ids (mark_dispatched P is x) = filter (\<lambda>i. i \<notin> set is) (ids x)"
    and ack_kept: "ok x \<Longrightarrow> kept (mark_dispatched P is x) i \<longleftrightarrow> kept x i \<and> i \<notin> set is"
    and ack_ok: "ok x \<Longrightarrow> ok (mark_dispatched P is x)"
    and fail_kept: "ok x \<Longrightarrow> mark_failed P = Some f \<Longrightarrow> kept (snd (f i e x)) j = kept x j"
    and fail_ok: "ok x \<Longrightarrow> mark_failed P = Some f \<Longrightarrow> ok (snd (f i e x))"
begin

text \<open>What one batch does to the outbox.\<close>

lemma ack_delivered_spec:
  assumes "ok (box d)" "ack_delivered P env batch ids' d = (acked, d')"
  shows "ok (box d')" "published d' = published d" "tick d \<le> tick d'"
    "kept (box d) i \<Longrightarrow> i \<notin> set ids' \<Longrightarrow> kept (box d') i"
    "acked \<Longrightarrow> box d' = mark_dispatched P ids' (box d) \<or> ids' = [] \<and> box d' = box d"
proof -
  have "ok (box d') \<and> published d' = published d \<and> tick d \<le> tick d' \<and>
      (kept (box d) i \<longrightarrow> i \<notin> set ids' \<longrightarrow> kept (box d') i) \<and>
      (acked \<longrightarrow> box d' = mark_dispatched P ids' (box d) \<or> ids' = [] \<and> box d' = box d)" for i
  proof (cases "ids' = []")
    case True
    with assms show ?thesis by (simp add: ack_delivered_def)
  next
    case False
    obtain r d1 where b: "bounded_storage env (\<not> aborted env d) (\<lambda>x. ((), mark_dispatched P ids' x)) d = (r, d1)"
      by fastforce
    note c = bounded_storage_cases[OF b refl]
    from c(3) assms(1) have "ok (box d1)" "kept (box d) i \<longrightarrow> i \<notin> set ids' \<longrightarrow> kept (box d1) i"
      by (auto simp: ack_ok ack_kept)
    with assms(2) False b c(1,2,5) show ?thesis
      by (auto simp: ack_delivered_def split: sum.splits if_splits)
  qed
  then show "ok (box d')" "published d' = published d" "tick d \<le> tick d'"
    "kept (box d) i \<Longrightarrow> i \<notin> set ids' \<Longrightarrow> kept (box d') i"
    "acked \<Longrightarrow> box d' = mark_dispatched P ids' (box d) \<or> ids' = [] \<and> box d' = box d" by blast+
qed

lemma handle_failure_spec:
  assumes "ok (box d)"
  shows "ok (box (handle_failure P env r e d))" "published (handle_failure P env r e d) = published d"
    "kept (box (handle_failure P env r e d)) i = kept (box d) i" "tick d \<le> tick (handle_failure P env r e d)"
proof -
  have "ok (box (handle_failure P env r e d)) \<and> published (handle_failure P env r e d) = published d \<and>
    kept (box (handle_failure P env r e d)) i = kept (box d) i \<and> tick d \<le> tick (handle_failure P env r e d)"
  proof (cases "mark_failed P")
    case None
    with assms show ?thesis by (simp add: handle_failure_def Let_def)
  next
    case (Some f)
    let ?d1 = "report_to (OnDispatchError e (dispatchId r) (Some (assessDeliveryFailure (classifyFailure env) e))) d"
    obtain res d2 where b: "bounded_storage env True (f (dispatchId r) e) ?d1 = (res, d2)" by fastforce
    note c = bounded_storage_cases[OF b prod.collapse[symmetric]]
    from c(3) assms Some have "ok (box d2)" "kept (box d2) i = kept (box d) i"
      by (auto simp: fail_ok fail_kept)
    with assms Some b c(1,2) show ?thesis
      by (auto simp: handle_failure_def Let_def split: sum.splits option.splits)
  qed
  then show "ok (box (handle_failure P env r e d))" "published (handle_failure P env r e d) = published d"
    "kept (box (handle_failure P env r e d)) i = kept (box d) i" "tick d \<le> tick (handle_failure P env r e d)" by blast+
qed

lemma filter_taken: "distinct xs \<Longrightarrow> filter (\<lambda>i. i \<notin> set (take n xs)) xs = drop n xs"
proof (induction xs arbitrary: n)
  case (Cons x xs)
  then show ?case
    by (cases n) (auto simp: filter_id_conv intro: filter_cong[THEN trans] dest: in_set_takeD)
qed simp

lemma dispatchBatch_spec:
  assumes ok: "ok (box d)" and b: "map dispatchId batch = take n (ids (box d))"
    and db: "dispatchBatch P env batch d = (completed, d')"
  shows "ok (box d')" "\<exists>k. published d' = published d @ take k (ids (box d))"
    "kept (box d) i \<Longrightarrow> kept (box d') i \<or> i \<in> set (published d')"
    "completed \<Longrightarrow> published d' = published d @ take n (ids (box d)) \<and> ids (box d') = drop n (ids (box d))"
proof -
  obtain del f d1 where pl: "publish_loop env batch d = (del, f, d1)" by (metis prod_cases3)
  note p = publish_loop_spec[OF pl]
  obtain ak d2 where a: "ack_delivered P env batch del d1 = (ak, d2)" by fastforce
  let ?d3 = "case f of Some (r, e) \<Rightarrow> handle_failure P env r e d2 | None \<Rightarrow> d2"
  from p have ok1: "ok (box d1)" using ok by simp
  note s = ack_delivered_spec[OF ok1 a]
  have d3: "ok (box ?d3)" "published ?d3 = published d2" "kept (box ?d3) j = kept (box d2) j" "tick d2 \<le> tick ?d3" for j
    using handle_failure_spec[OF s(1)] s(1) by (auto split: option.splits)
  obtain n' where n': "box d' = box ?d3" "published d' = published ?d3" "tick d' = tick ?d3"
    and cm: "completed \<longleftrightarrow> f = None \<and> ak \<and> \<not> (aborted env d' \<and> length del < length batch)"
    using db pl a by (auto simp: dispatchBatch_def Let_def split: if_splits)
  have pub: "published d' = published d @ del" using n' d3 s p by simp
  show "ok (box d')" using n' d3 by simp
  have del: "del = take (min (length del) n) (ids (box d))" using p b by (metis take_take)
  with pub show "\<exists>k. published d' = published d @ take k (ids (box d))" by metis
  show "kept (box d') i \<or> i \<in> set (published d')" if "kept (box d) i"
  proof (cases "i \<in> set del")
    case True
    then show ?thesis using pub by simp
  next
    case False
    then show ?thesis using that s(4)[of i] d3(3)[of i] n'(1) p by simp
  qed
  show "published d' = published d @ take n (ids (box d)) \<and> ids (box d') = drop n (ids (box d))" if completed
  proof -
    from that cm have f: "f = None" "ak" "\<not> (aborted env d' \<and> length del < length batch)" by auto
    with p d3 s n' have "length del = length batch"
      using aborted_mono[of env d1 d'] by fastforce
    with p b have del: "del = take n (ids (box d))" by (metis length_map take_all_iff order_refl)
    have "ids (box d2) = filter (\<lambda>i. i \<notin> set del) (ids (box d))"
      using s(5)[OF f(2)] ack_ids[OF ok1, of del] p by auto
    also have "\<dots> = drop n (ids (box d))" unfolding del by (rule filter_taken[OF distinct_ids[OF ok]])
    finally have "ids (box d2) = drop n (ids (box d))" .
    with pub del n' f(1) show ?thesis by simp
  qed
qed

lemma pass_spec:
  assumes "ok (box d)" "pass P env n fuel d = Some (out, d')"
  shows "ok (box d') \<and> (\<exists>k. published d' = published d @ take k (ids (box d))) \<and>
    (\<forall>i. kept (box d) i \<longrightarrow> kept (box d') i \<or> i \<in> set (published d')) \<and>
    (out = Drained \<longrightarrow> 0 < n \<longrightarrow> ids (box d') = [] \<and> published d' = published d @ ids (box d))"
  using assms
proof (induction fuel arbitrary: d)
  case 0
  then show ?case by simp
next
  case (Suc fuel)
  show ?case
  proof (cases "aborted env d")
    case True
    with Suc.prems show ?thesis by (auto intro: exI[of _ 0])
  next
    case na: False
    obtain res d1 where b: "bounded_storage env True (\<lambda>x. (get_pending P n x, x)) d = (res, d1)" by fastforce
    note c = bounded_storage_cases[OF b refl]
    have d1: "box d1 = box d" "published d1 = published d" using c(1,3) by auto
    show ?thesis
    proof (cases res)
      case (Inl e)
      with Suc.prems na b d1 show ?thesis by (auto intro: exI[of _ 0])
    next
      case (Inr batch)
      with c(5) have bt: "batch = get_pending P n (box d)" by simp
      then have ids: "map dispatchId batch = take n (ids (box d1))" using get_ids Suc.prems(1) d1 by simp
      show ?thesis
      proof (cases "batch = []")
        case True
        with ids d1 have "0 < n \<longrightarrow> ids (box d) = []" by auto
        with True Suc.prems na b Inr d1 show ?thesis by (auto intro: exI[of _ 0])
      next
        case ne: False
        obtain cp d2 where db: "dispatchBatch P env batch d1 = (cp, d2)" by fastforce
        have ok1: "ok (box d1)" using Suc.prems(1) d1 by simp
        note sp = dispatchBatch_spec[OF ok1 ids db, unfolded d1]
        show ?thesis
        proof (cases cp)
          case False
          with Suc.prems na b Inr ne db have "out = Stopped" "d' = d2" by auto
          with sp(1-3) show ?thesis by auto
        next
          case True
          with Suc.prems na b Inr ne db have "pass P env n fuel d2 = Some (out, d')" by simp
          from Suc.IH[OF sp(1) this] have ih: "ok (box d')"
            "\<exists>k. published d' = published d2 @ take k (ids (box d2))"
            "\<And>i. kept (box d2) i \<Longrightarrow> kept (box d') i \<or> i \<in> set (published d')"
            "out = Drained \<Longrightarrow> 0 < n \<Longrightarrow> ids (box d') = [] \<and> published d' = published d2 @ ids (box d2)" by auto
          note f = sp(4)[OF True]
          from ih(2) f obtain k where "published d' = published d @ take n (ids (box d)) @ take k (drop n (ids (box d)))"
            by auto
          then have "published d' = published d @ take (n + k) (ids (box d))" by (simp add: take_add)
          moreover have "kept (box d') i \<or> i \<in> set (published d')" if "kept (box d) i" for i
            using sp(3)[OF that] ih(2,3) by auto
          ultimately show ?thesis using ih(1,4) f by auto
        qed
      qed
    qed
  qed
qed

lemma pass_total:
  assumes "ok (box d)" "0 < n" "length (ids (box d)) < fuel"
  shows "pass P env n fuel d \<noteq> None"
  using assms
proof (induction fuel arbitrary: d)
  case (Suc fuel)
  obtain res d1 where b: "bounded_storage env True (\<lambda>x. (get_pending P n x, x)) d = (res, d1)" by fastforce
  note c = bounded_storage_cases[OF b refl]
  have d1: "box d1 = box d" using c(3) by auto
  show ?case
  proof (cases res)
    case (Inr batch)
    with c(5) have bt: "batch = get_pending P n (box d)" by simp
    then have ids: "map dispatchId batch = take n (ids (box d1))" using get_ids Suc.prems(1) d1 by simp
    obtain cp d2 where db: "dispatchBatch P env batch d1 = (cp, d2)" by fastforce
    have ok1: "ok (box d1)" using Suc.prems(1) d1 by simp
    note sp = dispatchBatch_spec[OF ok1 ids db, unfolded d1]
    have "pass P env n fuel d2 \<noteq> None" if "batch \<noteq> []" "cp"
      using Suc.IH[OF sp(1)] sp(4)[OF that(2)] that(1) ids d1 Suc.prems(2,3) by (cases "ids (box d)") auto
    with b Inr db show ?thesis by auto
  qed (use b in auto)
qed simp

end

section \<open>The in-memory outbox as a port\<close>

definition memory_port :: "('p outbox_state, 'p) outbox_port" where
  "memory_port = \<lparr>get_pending = \<lambda>n. getPending (Some (Num (of_nat n))),
     mark_dispatched = markDispatched, mark_failed = Some markFailed\<rparr>"

lemma take_until_nat: "take_until (Num (of_nat n)) k xs = take (n - k) xs"
proof (induction xs arbitrary: k)
  case (Cons x xs)
  then show ?case by (cases "n \<le> k") (auto simp: Suc_diff_Suc[symmetric])
qed simp

lemma pending_ids: "outbox_ok s \<Longrightarrow> map dispatchId (jvals (pending s)) = jkeys (pending s)"
  unfolding outbox_ok_def records_ok_def by (auto intro!: map_cong dest: jget_of_mem)

lemma mark_one_keys: "jkeys (pending (mark_one i s)) = filter (\<lambda>j. j \<noteq> i) (jkeys (pending s))"
  by (simp add: mark_one_def Let_def jkeys_del split: option.split)

lemma markDispatched_keys:
  "jkeys (pending (markDispatched is s)) = filter (\<lambda>i. i \<notin> set is) (jkeys (pending s))"
  unfolding markDispatched_def
  by (induction "is" arbitrary: s) (auto simp: mark_one_keys intro!: filter_cong)

interpretation memory: outbox_laws "memory_port :: ('p outbox_state, 'p) outbox_port" "\<lambda>s. jkeys (pending s)" held outbox_ok
proof
  fix x :: "'p outbox_state" and n assume "outbox_ok x"
  have "map dispatchId (get_pending memory_port n x) = take n (map dispatchId (jvals (pending x)))"
    by (simp add: memory_port_def getPending_def pending_limit_def max_def take_until_nat take_map)
  then show "map dispatchId (get_pending memory_port n x) = take n (jkeys (pending x))"
    unfolding pending_ids[OF \<open>outbox_ok x\<close>] .
next
  fix x :: "'p outbox_state" assume "outbox_ok x"
  then show "distinct (jkeys (pending x))" by (simp add: outbox_ok_def records_ok_def jok_def)
next
  fix x :: "'p outbox_state" and "is" assume "outbox_ok x"
  show "jkeys (pending (mark_dispatched memory_port is x)) = filter (\<lambda>i. i \<notin> set is) (jkeys (pending x))"
    by (simp add: memory_port_def markDispatched_keys)
  show "held (mark_dispatched memory_port is x) i \<longleftrightarrow> held x i \<and> i \<notin> set is" for i
    by (simp add: memory_port_def markDispatched_held)
  show "outbox_ok (mark_dispatched memory_port is x)"
    using \<open>outbox_ok x\<close> by (simp add: memory_port_def markDispatched_ok)
next
  fix x :: "'p outbox_state" and f i e assume "outbox_ok x" "mark_failed (memory_port :: ('p outbox_state, 'p) outbox_port) = Some f"
  then have f: "f = markFailed" by (simp add: memory_port_def)
  show "held (snd (f i e x)) j = held x j" for j
    unfolding f by (rule markFailed_held[OF prod.collapse[symmetric]])
  show "outbox_ok (snd (f i e x))"
    unfolding f by (rule markFailed_ok[OF \<open>outbox_ok x\<close> prod.collapse[symmetric]])
qed

section \<open>Properties\<close>

text \<open>
  C3. A dispatch pass delivers at least once and in order, whatever the sink, the storage and
  the owner's abort do: the ids published during the pass are a prefix of the pending ids
  in commit order; an event leaves the outbox only after it was published (otherwise it
  stays pending or becomes a dead letter); and a pass that reports \<open>drained\<close> published
  everything and left nothing pending.
\<close>

theorem dispatch_at_least_once_in_order:
  fixes d :: "'p outbox_state dispatcher"
  assumes "outbox_reachable (box d)" and "pass memory_port env n fuel d = Some (out, d')"
  shows "(\<exists>k. published d' = published d @ take k (jkeys (pending (box d)))) \<and>
    (\<forall>i. held (box d) i \<longrightarrow> held (box d') i \<or> i \<in> set (published d')) \<and>
    (out = Drained \<and> 0 < n \<longrightarrow> pending (box d') = [] \<and>
      published d' = published d @ jkeys (pending (box d)))"
  using memory.pass_spec[OF outbox_reachable_ok[OF assms(1)] assms(2)] by auto

definition ex_env :: "unit environment" where
  "ex_env = \<lparr>abort_time = None, sink_publish = (\<lambda>t r. None), storage = (\<lambda>t. Completed), classifyFailure = None\<rparr>"

definition ex_dispatcher :: "unit outbox_state dispatcher" where
  "ex_dispatcher = \<lparr>box = ex_outbox1, tick = 0, consecutiveFailures = 0, published = [], reports = []\<rparr>"

theorem dispatch_at_least_once_witness:
  "case pass memory_port ex_env 1 3 ex_dispatcher of
     Some (out, d') \<Rightarrow> out = Drained \<and> published d' = [''e1''] | None \<Rightarrow> False"
proof -
  obtain out d' where p: "pass memory_port ex_env 1 3 ex_dispatcher = Some (out, d')" "out = Drained"
  proof -
    have "case pass memory_port ex_env 1 3 ex_dispatcher of Some (out, d') \<Rightarrow> out = Drained | None \<Rightarrow> False"
      by code_simp
    with that show thesis by (auto split: option.splits)
  qed
  have "jkeys (pending ex_outbox1) = [''e1'']" by code_simp
  with dispatch_at_least_once_in_order[of ex_dispatcher ex_env 1 3 out d'] p ex_outbox1_reachable
  show ?thesis by (simp add: ex_dispatcher_def)
qed

text \<open>
  A pass over a finite outbox returns: one batch per pending event, plus one, is fuel
  enough in every environment.
\<close>

theorem dispatch_pass_returns:
  assumes "outbox_reachable (box d)" and "0 < n" and "length (pending (box d)) < fuel"
  shows "\<exists>out d'. pass memory_port env n fuel d = Some (out, d')"
  using memory.pass_total[OF outbox_reachable_ok[OF assms(1)] assms(2), of fuel env] assms(3) by auto

theorem dispatch_pass_returns_witness: "\<exists>r. pass memory_port ex_env 1 2 ex_dispatcher = Some r"
proof -
  have "length (pending (box ex_dispatcher)) < 2" "box ex_dispatcher = ex_outbox1" by code_simp+
  with dispatch_pass_returns[of ex_dispatcher 1 2 ex_env] ex_outbox1_reachable show ?thesis by auto
qed



text \<open>The exception is real: with a zero base delay the 1025th delay is not a number.\<close>

lemma zero_base_delay_not_a_number: "computeBackoffDelay 1025 0 5000 (1 / 2) = NaN"
  by (simp add: computeBackoffDelay_def js_pow2_def Let_def)

end
