(* ===== verification/Event_Store.thy ===== *)
theory Event_Store
  imports Domain_Events
begin

text \<open>
  The in-memory event store (src/repo/in-memory-event-store.ts, contract in event-store.ts)
  and the in-memory snapshot store with its LRU bound and time to live
  (in-memory-snapshot-store.ts). The contract a repository relies on is a locale; paging
  with a pinned head is proved in it and holds of the in-memory store.
\<close>

section \<open>Event streams\<close>

record 'e event_store =
  streams :: "(string, 'e list) jmap"
  totalEvents :: nat
  maxStreams :: "nat option"
  maxEvents :: "nat option"

definition new_event_store :: "js_num option \<Rightarrow> js_num option \<Rightarrow> (js_error, 'e event_store) res" where
  "new_event_store ms me = rbind (opt_limit ms) (\<lambda>s. rbind (opt_limit me) (\<lambda>e.
     Inr \<lparr>streams = [], totalEvents = 0, maxStreams = s, maxEvents = e\<rparr>))"

definition append_events :: "aggregate_address \<Rightarrow> 'e list \<Rightarrow> nat \<Rightarrow> 'e event_store
    \<Rightarrow> (js_error, 'e event_store) res" where
  "append_events stream events expectedVersion s =
     (if events = [] then Inr s
      else let key = encodeAggregateAddress stream; existing = jget (streams s) key;
               actual = (case existing of Some es \<Rightarrow> length es | None \<Rightarrow> 0)
      in if actual \<noteq> expectedVersion
         then Inl (kit (ConcurrencyConflictError (addr_type stream) (addr_id stream) expectedVersion actual))
         else if existing = None \<and> (case maxStreams s of Some m \<Rightarrow> m \<le> length (streams s) | None \<Rightarrow> False)
         then Inl (kit (InMemoryCapacityExceededError ''InMemoryEventStore'' ''streams''
                (the (maxStreams s)) (length (streams s)) 1))
         else if (case maxEvents s of Some m \<Rightarrow> m < totalEvents s + length events | None \<Rightarrow> False)
         then Inl (kit (InMemoryCapacityExceededError ''InMemoryEventStore'' ''events''
                (the (maxEvents s)) (totalEvents s) (length events)))
         else Inr (s\<lparr>streams := jset key ((case existing of Some es \<Rightarrow> es | None \<Rightarrow> []) @ events) (streams s),
                totalEvents := totalEvents s + length events\<rparr>))"

record read_options =
  rd_limit :: js_num
  rd_from :: "js_num option"
  rd_to :: "js_num option"

record 'e stream_page =
  pg_exists :: bool
  lastVersion :: nat
  pg_events :: "'e list"

definition readStream :: "aggregate_address \<Rightarrow> read_options \<Rightarrow> 'e event_store
    \<Rightarrow> (js_error, 'e stream_page) res" where
  "readStream stream opts s =
     rbind (assertPositiveSafeInteger (rd_limit opts)) (\<lambda>limit.
     rbind (opt_position (rd_from opts)) (\<lambda>from.
     rbind (opt_position (rd_to opts)) (\<lambda>to.
     case jget (streams s) (encodeAggregateAddress stream) of
       None \<Rightarrow> Inr \<lparr>pg_exists = False, lastVersion = 0, pg_events = []\<rparr>
     | Some events \<Rightarrow>
         let fromVersion = (case from of Some v \<Rightarrow> v | None \<Rightarrow> 0);
             pageEnd = min (case to of Some v \<Rightarrow> v | None \<Rightarrow> length events) (fromVersion + limit)
         in Inr \<lparr>pg_exists = True, lastVersion = length events,
              pg_events = take (pageEnd - fromVersion) (drop fromVersion events)\<rparr>)))"

text \<open>The history of a stream, empty when it does not exist.\<close>

definition history :: "'e event_store \<Rightarrow> aggregate_address \<Rightarrow> 'e list" where
  "history s stream = (case jget (streams s) (encodeAggregateAddress stream) of Some es \<Rightarrow> es | None \<Rightarrow> [])"

definition event_store_ok :: "'e event_store \<Rightarrow> bool" where
  "event_store_ok s \<longleftrightarrow> jok (streams s) \<and> (\<forall>es \<in> set (jvals (streams s)). es \<noteq> []) \<and>
     totalEvents s = sum_list (map length (jvals (streams s))) \<and>
     (\<forall>m. maxStreams s = Some m \<longrightarrow> length (streams s) \<le> m) \<and>
     (\<forall>m. maxEvents s = Some m \<longrightarrow> totalEvents s \<le> m)"

lemma jvals_set_sum:
  fixes m :: "(string, 'e list) jmap"
  shows "sum_list (map length (jvals (jset k es m))) + length (case jget m k of Some x \<Rightarrow> x | None \<Rightarrow> []) =
    sum_list (map length (jvals m)) + length es"
  by (induction m) auto

lemma jvals_set: "set (jvals (jset k v m)) \<subseteq> insert v (set (jvals m))"
  by (induction m) auto

lemma append_history:
  assumes "append_events stream events v s = Inr s'"
  shows "history s' a = (if a = stream then history s stream @ events else history s a)"
    and "events \<noteq> [] \<Longrightarrow> length (history s stream) = v"
    and "maxStreams s' = maxStreams s \<and> maxEvents s' = maxEvents s"
  using assms encoded_address_unique[of a stream]
  by (auto simp: append_events_def history_def Let_def split: if_splits option.splits)

lemma append_ok [state_invs]:
  assumes ok: "event_store_ok s" and a: "append_events stream events v s = Inr s'"
  shows "event_store_ok s'"
proof (cases "events = []")
  case True
  with assms show ?thesis by (simp add: append_events_def)
next
  case False
  let ?k = "encodeAggregateAddress stream" and ?h = "history s stream"
  from a False have s': "s' = s\<lparr>streams := jset ?k (?h @ events) (streams s), totalEvents := totalEvents s + length events\<rparr>"
    and cap: "\<forall>m. maxEvents s = Some m \<longrightarrow> totalEvents s + length events \<le> m"
      "jget (streams s) ?k = None \<Longrightarrow> (\<forall>m. maxStreams s = Some m \<longrightarrow> length (streams s) < m)"
    by (auto simp: append_events_def history_def Let_def split: if_splits option.splits)
  from jvals_set_sum[of ?k "?h @ events" "streams s"]
  have "sum_list (map length (jvals (jset ?k (?h @ events) (streams s)))) = sum_list (map length (jvals (streams s))) + length events"
    by (simp add: history_def)
  moreover have "length (jset ?k (?h @ events) (streams s)) \<le> m" if "maxStreams s = Some m" for m
    using cap(2) that ok js_map.put_bounded[of "streams s" m ?k] by (auto simp: event_store_ok_def)
  moreover have "\<forall>es \<in> set (jvals (jset ?k (?h @ events) (streams s))). es \<noteq> []"
    using jvals_set[of ?k "?h @ events" "streams s"] ok False unfolding event_store_ok_def by blast
  ultimately show ?thesis using ok cap(1)
    by (simp add: event_store_ok_def s')
qed

section \<open>The contract and paging\<close>

text \<open>
  Reading from version \<open>v\<close> to the pinned head \<open>w\<close>, page by page, where the store the next
  page sees may have grown; \<open>None\<close> is a page that made no progress.
\<close>

fun read_pages :: "(aggregate_address \<Rightarrow> read_options \<Rightarrow> 's \<Rightarrow> (js_error, 'e stream_page) res)
    \<Rightarrow> aggregate_address \<Rightarrow> nat \<Rightarrow> nat \<Rightarrow> nat \<Rightarrow> 's list \<Rightarrow> 'e list option" where
  "read_pages read a n w v [] = (if v = w then Some [] else None)"
| "read_pages read a n w v (s # ss) =
     (if v = w then Some []
      else case read a \<lparr>rd_limit = Num (of_nat n), rd_from = Some (Num (of_nat v)), rd_to = Some (Num (of_nat w))\<rparr> s of
        Inl e \<Rightarrow> None
      | Inr p \<Rightarrow> if pg_events p = [] then None
          else map_option ((@) (pg_events p)) (read_pages read a n w (v + length (pg_events p)) ss))"

text \<open>
  \<open>hist\<close> is the history of a stream, \<open>extends\<close> the growth of the store over time (other
  writers included). A page of \<open>read\<close> may be shorter than its limit, but not empty while
  the window holds unread events.
\<close>

locale event_store_laws =
  fixes read :: "aggregate_address \<Rightarrow> read_options \<Rightarrow> 's \<Rightarrow> (js_error, 'e stream_page) res"
    and hist :: "'s \<Rightarrow> aggregate_address \<Rightarrow> 'e list"
    and ok :: "'s \<Rightarrow> bool"
    and extends :: "'s \<Rightarrow> 's \<Rightarrow> bool"
  assumes read_page: "ok s \<Longrightarrow> 0 < n \<Longrightarrow> int n \<le> max_safe_integer \<Longrightarrow> int v \<le> max_safe_integer \<Longrightarrow>
      int w \<le> max_safe_integer \<Longrightarrow>
      \<exists>p k. read a \<lparr>rd_limit = Num (of_nat n), rd_from = Some (Num (of_nat v)), rd_to = Some (Num (of_nat w))\<rparr> s = Inr p \<and>
        pg_events p = take k (drop v (take w (hist s a))) \<and> k \<le> n \<and>
        (v < min w (length (hist s a)) \<longrightarrow> 0 < k) \<and> lastVersion p = length (hist s a)"
    and extends_hist: "extends s t \<Longrightarrow> \<exists>more. hist t a = hist s a @ more"
    and extends_ok: "extends s t \<Longrightarrow> ok t"
begin

lemma read_pages_prefix:
  assumes "\<And>s. s \<in> set ss \<Longrightarrow> ok s \<and> (\<exists>more. hist s a = h @ more)" and "length h = w"
    and "v \<le> w" "0 < n" "int n \<le> max_safe_integer" "int w \<le> max_safe_integer" "w - v \<le> length ss"
  shows "read_pages read a n w v ss = Some (drop v h)"
  using assms
proof (induction ss arbitrary: v)
  case (Cons s ss)
  show ?case
  proof (cases "v = w")
    case True
    with Cons.prems show ?thesis by simp
  next
    case False
    from Cons.prems(1)[of s] obtain more where s: "ok s" "hist s a = h @ more" by auto
    have "int v \<le> max_safe_integer" using Cons.prems by linarith
    from read_page[OF s(1) Cons.prems(4,5) this Cons.prems(6), of a] obtain p k where
      p: "read a \<lparr>rd_limit = Num (of_nat n), rd_from = Some (Num (of_nat v)), rd_to = Some (Num (of_nat w))\<rparr> s = Inr p"
        "pg_events p = take k (drop v (take w (h @ more)))" "v < min w (length (h @ more)) \<longrightarrow> 0 < k"
      by (auto simp: s(2))
    have e: "pg_events p = take k (drop v h)" using p(2) Cons.prems(2) by simp
    have "0 < k" using p(3) False Cons.prems(2,3) by simp
    then have l: "0 < length (pg_events p)" "v + length (pg_events p) \<le> w" using e False Cons.prems(2,3) by auto
    have "read_pages read a n w (v + length (pg_events p)) ss = Some (drop (v + length (pg_events p)) h)"
    proof (rule Cons.IH)
      have arith: "0 < x \<Longrightarrow> w - v \<le> Suc m \<Longrightarrow> w - (v + x) \<le> m" for x m by arith
      show "w - (v + length (pg_events p)) \<le> length ss"
        using arith[OF l(1)] Cons.prems(7) by simp
    next
      fix t assume "t \<in> set ss"
      then show "ok t \<and> (\<exists>more. hist t a = h @ more)" using Cons.prems(1) by simp
    qed (use Cons.prems(2,4,5,6) l(2) in simp_all)
    moreover have "pg_events p @ drop (v + length (pg_events p)) h = drop v h"
    proof -
      have "drop (length (take k r)) r = drop k r" for r :: "'e list" by (cases "k \<le> length r") auto
      from this[of "drop v h"] have "drop (v + length (pg_events p)) h = drop k (drop v h)"
        by (simp add: e add.commute)
      then show ?thesis by (simp only: e append_take_drop_id)
    qed
    ultimately show ?thesis using False p(1) l Cons.prems(2) by auto
  qed
qed simp

lemma paged_read:
  assumes "\<And>s. s \<in> set ss \<Longrightarrow> extends s0 s" and "v \<le> length (hist s0 a)" "0 < n" "int n \<le> max_safe_integer"
    "int (length (hist s0 a)) \<le> max_safe_integer" "length (hist s0 a) - v \<le> length ss"
  shows "read_pages read a n (length (hist s0 a)) v ss = Some (drop v (hist s0 a))"
  using assms by (intro read_pages_prefix) (auto dest: extends_hist extends_ok)

end

section \<open>The in-memory store keeps the contract\<close>

inductive store_extends :: "'e event_store \<Rightarrow> 'e event_store \<Rightarrow> bool" for s where
  same: "event_store_ok s \<Longrightarrow> store_extends s s"
| appended: "store_extends s t \<Longrightarrow> append_events a events v t = Inr u \<Longrightarrow> store_extends s u"

lemma store_extends_ok: "store_extends s t \<Longrightarrow> event_store_ok t"
  by (induction rule: store_extends.induct) (auto intro: append_ok)

lemma store_extends_history: "store_extends s t \<Longrightarrow> \<exists>more. history t a = history s a @ more"
proof (induction rule: store_extends.induct)
  case (appended t b events v u)
  then show ?case using append_history(1)[OF appended(2), of a] by auto
qed auto

lemma readStream_page:
  assumes "event_store_ok s" "0 < n" "int n \<le> max_safe_integer" "int v \<le> max_safe_integer" "int w \<le> max_safe_integer"
  shows "\<exists>p k. readStream a \<lparr>rd_limit = Num (of_nat n), rd_from = Some (Num (of_nat v)), rd_to = Some (Num (of_nat w))\<rparr> s = Inr p \<and>
    pg_events p = take k (drop v (take w (history s a))) \<and> k \<le> n \<and>
    (v < min w (length (history s a)) \<longrightarrow> 0 < k) \<and> lastVersion p = length (history s a)"
proof (cases "jget (streams s) (encodeAggregateAddress a)")
  case None
  with assms show ?thesis by (auto simp: readStream_def history_def intro: exI[of _ n])
next
  case (Some es)
  let ?k = "min w (v + n) - v"
  have "take ?k (drop v es) = take ?k (drop v (take w es))"
    by (simp add: drop_take min.absorb1)
  with Some assms show ?thesis
    by (auto simp: readStream_def history_def Let_def intro!: exI[of _ ?k])
qed

interpretation memory_store: event_store_laws readStream history event_store_ok store_extends
  by unfold_locales (rule readStream_page store_extends_history store_extends_ok; assumption)+

section \<open>Snapshots\<close>

text \<open>
  A stored snapshot with its expiry; reading one refreshes its place, saving drops the
  expired ones and then the least recently used. The clock reading is a parameter,
  \<open>None\<close> for an invalid date.
\<close>

record 'z stored_snapshot =
  st_snapshot :: 'z
  expiresAtMs :: "rat option"

record 'z snapshot_store =
  snapshots :: "(string, 'z stored_snapshot) jmap"
  maxEntries :: "nat option"
  ttlMs :: "nat option"

definition new_snapshot_store :: "js_num option \<Rightarrow> js_num option \<Rightarrow> (js_error, 'z snapshot_store) res" where
  "new_snapshot_store me ttl = rbind (opt_limit me) (\<lambda>m. rbind (opt_limit ttl) (\<lambda>t.
     Inr \<lparr>snapshots = [], maxEntries = m, ttlMs = t\<rparr>))"

definition snapshot_clock :: "rat option \<Rightarrow> (js_error, rat) res" where
  "snapshot_clock now = (case now of Some t \<Rightarrow> Inr t | None \<Rightarrow> Inl typeError)"

definition load_snapshot :: "aggregate_address \<Rightarrow> rat option \<Rightarrow> 'z snapshot_store
    \<Rightarrow> (js_error, 'z option \<times> 'z snapshot_store) res" where
  "load_snapshot address now s =
     (let key = encodeAggregateAddress address in
      case jget (snapshots s) key of
        None \<Rightarrow> Inr (None, s)
      | Some stored \<Rightarrow>
          let touched = s\<lparr>snapshots := jset key stored (jdel key (snapshots s))\<rparr> in
          (case expiresAtMs stored of
             None \<Rightarrow> Inr (Some (st_snapshot stored), touched)
           | Some limit \<Rightarrow> rbind (snapshot_clock now) (\<lambda>t.
               if limit \<le> t then Inr (None, s\<lparr>snapshots := jdel key (snapshots s)\<rparr>)
               else Inr (Some (st_snapshot stored), touched))))"

definition deleteExpired :: "rat \<Rightarrow> (string, 'z stored_snapshot) jmap \<Rightarrow> (string, 'z stored_snapshot) jmap" where
  "deleteExpired nowMs m = filter (\<lambda>(k, st). \<not> (case expiresAtMs st of Some e \<Rightarrow> e \<le> nowMs | None \<Rightarrow> False)) m"

definition make_room :: "nat option \<Rightarrow> 'k \<Rightarrow> ('k, 'v) jmap \<Rightarrow> ('k, 'v) jmap" where
  "make_room limit key m =
     (if jhas m key then jdel key m
      else if (case limit of Some n \<Rightarrow> n \<le> length m | None \<Rightarrow> False)
      then (case m of [] \<Rightarrow> [] | (k, _) # _ \<Rightarrow> jdel k m) else m)"

definition save_snapshot :: "aggregate_address \<Rightarrow> 'z \<Rightarrow> rat option \<Rightarrow> 'z snapshot_store
    \<Rightarrow> (js_error, 'z snapshot_store) res" where
  "save_snapshot address snap now s =
     (let key = encodeAggregateAddress address in
      rbind (case ttlMs s of
               None \<Rightarrow> Inr (snapshots s, None)
             | Some ttl \<Rightarrow> rbind (snapshot_clock now) (\<lambda>t. Inr (deleteExpired t (snapshots s), Some (t + of_nat ttl))))
        (\<lambda>(m, expiry). Inr (s\<lparr>snapshots :=
           jset key \<lparr>st_snapshot = snap, expiresAtMs = expiry\<rparr> (make_room (maxEntries s) key m)\<rparr>)))"

definition delete_snapshot :: "aggregate_address \<Rightarrow> 'z snapshot_store \<Rightarrow> 'z snapshot_store" where
  "delete_snapshot address s = s\<lparr>snapshots := jdel (encodeAggregateAddress address) (snapshots s)\<rparr>"

definition snapshot_store_ok :: "'z snapshot_store \<Rightarrow> bool" where
  "snapshot_store_ok s \<longleftrightarrow> jok (snapshots s) \<and> (\<forall>n. maxEntries s = Some n \<longrightarrow> 0 < n \<and> length (snapshots s) \<le> n) \<and>
     (\<forall>n. ttlMs s = Some n \<longrightarrow> 0 < n)"

lemma filter_jok: "jok m \<Longrightarrow> jok (filter P m)"
  unfolding jok_def by (rule distinct_map_filter)

lemma deleteExpired_get: "jok m \<Longrightarrow> jget (deleteExpired t m) k = (case jget m k of
    Some st \<Rightarrow> if (case expiresAtMs st of Some e \<Rightarrow> e \<le> t | None \<Rightarrow> False) then None else Some st | None \<Rightarrow> None)"
proof (induction m)
  case (Cons p m)
  then have "jok m" "jget m (fst p) = None" by (auto simp: jok_def jget_None_iff)
  with Cons show ?case by (cases p) (auto simp: deleteExpired_def split: option.splits if_splits)
qed (simp add: deleteExpired_def)

lemma make_room_ok: "jok m \<Longrightarrow> jok (make_room limit k m)"
  using jok_del[of m] by (cases m) (auto simp: make_room_def)

lemma make_room_length:
  assumes jm: "jok m" and n: "limit = Some n" "0 < n" "length m \<le> n"
  shows "length (jset k v (make_room limit k m)) \<le> n"
proof (cases "jhas m k")
  case True
  then have "length (jset k v (make_room limit k m)) = length m"
    using js_map.touch_keeps_size[OF jm] by (auto simp: make_room_def)
  with n show ?thesis by simp
next
  case nh: False
  show ?thesis
  proof (cases "n \<le> length m")
    case True
    with n(2) obtain i u m' where mm: "m = (i, u) # m'" by (cases m) auto
    have "jhas m i" by (simp add: mm)
    from length_jdel[OF jm, of i] this have "length (jdel i m) = length m - 1" by argo
    with nh True n mm show ?thesis
      using length_jset[of k v "jdel i m"] by (auto simp: make_room_def)
  next
    case False
    with nh n show ?thesis by (simp add: make_room_def length_jset)
  qed
qed

lemma save_cases:
  assumes "save_snapshot a z now s = Inr s'"
  obtains m e where "m = snapshots s \<or> (\<exists>t. m = deleteExpired t (snapshots s))"
    "e = None \<longleftrightarrow> ttlMs s = None" "\<And>t ttl. now = Some t \<Longrightarrow> ttlMs s = Some ttl \<Longrightarrow> e = Some (t + of_nat ttl)"
    "s' = s\<lparr>snapshots := jset (encodeAggregateAddress a) \<lparr>st_snapshot = z, expiresAtMs = e\<rparr>
       (make_room (maxEntries s) (encodeAggregateAddress a) m)\<rparr>"
proof (cases "ttlMs s")
  case None
  with assms that[of "snapshots s" None] show thesis by (auto simp: save_snapshot_def Let_def)
next
  case (Some ttl)
  with assms obtain t where "now = Some t" by (cases now) (auto simp: save_snapshot_def snapshot_clock_def Let_def)
  show thesis
  proof (rule that)
    show "deleteExpired t (snapshots s) = snapshots s \<or> (\<exists>t'. deleteExpired t (snapshots s) = deleteExpired t' (snapshots s))"
      by blast
    show "Some (t + of_nat ttl) = None \<longleftrightarrow> ttlMs s = None" using Some by simp
    show "s' = s\<lparr>snapshots := jset (encodeAggregateAddress a) \<lparr>st_snapshot = z, expiresAtMs = Some (t + of_nat ttl)\<rparr>
       (make_room (maxEntries s) (encodeAggregateAddress a) (deleteExpired t (snapshots s)))\<rparr>"
      using assms Some \<open>now = Some t\<close> by (simp add: save_snapshot_def snapshot_clock_def Let_def)
  qed (use Some \<open>now = Some t\<close> in simp)
qed

lemma save_ok [state_invs]:
  assumes ok: "snapshot_store_ok s" and sv: "save_snapshot a z now s = Inr s'"
  shows "snapshot_store_ok s'"
  using sv
proof (rule save_cases)
  fix m e
  assume m: "m = snapshots s \<or> (\<exists>t. m = deleteExpired t (snapshots s))" and
    s': "s' = s\<lparr>snapshots := jset (encodeAggregateAddress a) \<lparr>st_snapshot = z, expiresAtMs = e\<rparr>
       (make_room (maxEntries s) (encodeAggregateAddress a) m)\<rparr>"
  have "length m \<le> length (snapshots s)" using m by (auto simp: deleteExpired_def)
  then have "length m \<le> n" if "maxEntries s = Some n" for n
    using ok that by (fastforce simp: snapshot_store_ok_def)
  moreover have "jok m" using ok m by (auto simp: snapshot_store_ok_def deleteExpired_def filter_jok)
  ultimately show ?thesis using ok make_room_length[of m "maxEntries s"]
    by (simp add: snapshot_store_ok_def s' make_room_ok)
qed

lemma snapshot_ok_shrink: "snapshot_store_ok s \<Longrightarrow> snapshot_store_ok (s\<lparr>snapshots := jdel k (snapshots s)\<rparr>)"
  using length_jdel_le[of k "snapshots s"] by (fastforce simp: snapshot_store_ok_def)

lemma snapshot_ok_touch:
  "snapshot_store_ok s \<Longrightarrow> jget (snapshots s) k = Some v \<Longrightarrow>
    snapshot_store_ok (s\<lparr>snapshots := jset k v (jdel k (snapshots s))\<rparr>)"
  using js_map.touch_keeps_size[of "snapshots s" k v v] by (simp add: snapshot_store_ok_def)

lemma load_ok [state_invs]: "snapshot_store_ok s \<Longrightarrow> load_snapshot a now s = Inr (z, s') \<Longrightarrow> snapshot_store_ok s'"
  by (auto simp: load_snapshot_def Let_def snapshot_ok_shrink snapshot_ok_touch split: option.splits if_splits)

section \<open>Properties\<close>


definition ex_stream :: aggregate_address where
  "ex_stream = \<lparr>addr_type = ''Order'', addr_id = ''o-1''\<rparr>"

definition ex_store :: "nat event_store" where
  "ex_store = \<lparr>streams = [(encodeAggregateAddress ex_stream, [1, 2, 3])], totalEvents = 3, maxStreams = Some 1, maxEvents = Some 5\<rparr>"

lemma ex_store_ok: "event_store_ok ex_store"
  by (simp add: event_store_ok_def ex_store_def jok_def)

lemma ex_history: "history ex_store ex_stream = [1, 2, 3]"
  by (simp add: history_def ex_store_def)


text \<open>
  C7. Paging with a pinned head reads exactly the stream as it was at the first page: with
  any page limit, and while other writers append between the pages, the pages from version
  \<open>v\<close> on concatenate to the rest of the history, without gap, repetition or later event.
\<close>

theorem paging_reads_stable_prefix:
  assumes "\<And>t. t \<in> set ss \<Longrightarrow> store_extends s t" and "v \<le> length (history s a)" "0 < n" "int n \<le> max_safe_integer"
    and "int (length (history s a)) \<le> max_safe_integer" "length (history s a) - v \<le> length ss"
  shows "read_pages readStream a n (length (history s a)) v ss = Some (drop v (history s a))"
  using assms by (rule memory_store.paged_read)

theorem paging_witness:
  "read_pages readStream ex_stream 2 (length (history ex_store ex_stream)) 0 [ex_store, ex_store, ex_store] = Some [1, 2, 3]"
proof -
  let ?ss = "[ex_store, ex_store, ex_store]"
  have e: "\<And>t. t \<in> set ?ss \<Longrightarrow> store_extends ex_store t"
    using store_extends.same[OF ex_store_ok] by auto
  have "read_pages readStream ex_stream 2 (length (history ex_store ex_stream)) 0 ?ss = Some (drop 0 (history ex_store ex_stream))"
    by (rule paging_reads_stable_prefix[OF e]) (simp_all add: ex_history max_safe_integer_def)
  then show ?thesis by (simp add: ex_history del: read_pages.simps)
qed

text \<open>
  A saved snapshot is loaded again until its time to live is over and not afterwards;
  saving and loading keep the entry bound.
\<close>

theorem snapshot_save_load:
  assumes "snapshot_store_ok s" and "save_snapshot a z (Some t) s = Inr s'"
  shows "snapshot_store_ok s' \<and>
    (case load_snapshot a (Some now) s' of
       Inr (r, s'') \<Rightarrow> snapshot_store_ok s'' \<and>
         r = (case ttlMs s of Some ttl \<Rightarrow> if t + of_nat ttl \<le> now then None else Some z | None \<Rightarrow> Some z)
     | Inl e \<Rightarrow> False)"
proof -
  note ok = save_ok[OF assms]
  from assms(2) obtain e where e: "jget (snapshots s') (encodeAggregateAddress a) = Some \<lparr>st_snapshot = z, expiresAtMs = e\<rparr>"
    "e = None \<longleftrightarrow> ttlMs s = None" "\<And>ttl. ttlMs s = Some ttl \<Longrightarrow> e = Some (t + of_nat ttl)"
    by (rule save_cases) auto
  let ?r = "case ttlMs s of Some ttl \<Rightarrow> if t + of_nat ttl \<le> now then None else Some z | None \<Rightarrow> Some z"
  have "\<exists>s''. load_snapshot a (Some now) s' = Inr (?r, s'')"
    using e by (cases "ttlMs s") (simp_all add: load_snapshot_def snapshot_clock_def Let_def)
  then obtain s'' where l: "load_snapshot a (Some now) s' = Inr (?r, s'')" ..
  from load_ok[OF ok l] ok l show ?thesis by simp
qed

theorem snapshot_save_load_witness:
  "\<exists>s'. save_snapshot ex_stream (7::nat) (Some 100) \<lparr>snapshots = [], maxEntries = Some 1, ttlMs = Some 5\<rparr> = Inr s' \<and>
     (case load_snapshot ex_stream (Some 104) s' of Inr (r, _) \<Rightarrow> r = Some 7 | Inl e \<Rightarrow> False)"
proof -
  let ?s = "\<lparr>snapshots = [], maxEntries = Some 1, ttlMs = Some 5\<rparr> :: nat snapshot_store"
  have ok: "snapshot_store_ok ?s" by (simp add: snapshot_store_ok_def)
  have "\<exists>s'. save_snapshot ex_stream 7 (Some 100) ?s = Inr s'"
    by (simp add: save_snapshot_def snapshot_clock_def Let_def deleteExpired_def)
  then obtain s' where s': "save_snapshot ex_stream 7 (Some 100) ?s = Inr s'" ..
  from snapshot_save_load[OF ok s', of 104] s' show ?thesis by (auto split: sum.splits)
qed

end
