(* ===== verification/Idempotency.thy ===== *)
theory Idempotency
  imports Domain_Events
begin

text \<open>
  The in-memory idempotency store (src/app/in-memory-idempotency-store.ts) and the claim
  types of its port (src/app/idempotency.ts). Times are milliseconds since the epoch; a
  clock reading is \<open>None\<close> when the clock does not return a valid \<open>Date\<close>. An ISO date
  string is the instant it denotes: \<open>toISOString\<close> is injective and throws a \<open>RangeError\<close>
  beyond the range of dates. An operation returns its result and the store after it, also
  when it throws.
\<close>

section \<open>State\<close>

datatype entry =
    PendingEntry (fingerprint: string) (token: string) (expiresAtMs: int)
  | StagedEntry (fingerprint: string) (token: string) (expiresAtMs: int) (outcome: ev_data)
  | ConfirmedEntry (fingerprint: string) (token: string) (outcome: ev_data)

record idempotency_store =
  entries :: "(string, entry) jmap"
  leaseDurationMs :: int
  renewAfterMs :: int
  maxEntries :: "nat option"
  tokenGeneration :: nat

record lease =
  expiresAt :: int
  ls_renewAfterMs :: int

record claim_handle =
  ch_key :: string
  ch_token :: string
  ch_lease :: "lease option"

record reconciliation =
  re_key :: string
  re_fingerprint :: string
  re_token :: string
  re_expiredAt :: int

datatype idempotency_claim =
    Claimed claim_handle
  | Completed ev_data
  | ReconciliationRequired reconciliation

record idempotency_options =
  o_leaseDurationMs :: "js_num option"
  o_renewAfterMs :: "js_num option"
  o_maxEntries :: "js_num option"

definition positiveSafeInteger :: "js_num \<Rightarrow> bool" where
  "positiveSafeInteger v \<longleftrightarrow> is_safe_integer v \<and> (case v of Num q \<Rightarrow> 0 < q | _ \<Rightarrow> False)"

fun js_half_floor :: "js_num \<Rightarrow> js_num" where
  "js_half_floor (Num q) = Num (of_int \<lfloor>q / 2\<rfloor>)"
| "js_half_floor v = v"

fun num_int :: "js_num \<Rightarrow> int" where
  "num_int (Num q) = \<lfloor>q\<rfloor>"
| "num_int v = 0"

fun js_above :: "js_num \<Rightarrow> js_num \<Rightarrow> bool" where
  "js_above (Num p) (Num q) \<longleftrightarrow> q < p"
| "js_above _ _ = False"

definition MAX_TIMER :: rat where
  "MAX_TIMER = 2147483647"

definition new_idempotency_store :: "idempotency_options \<Rightarrow> (js_error, idempotency_store) res" where
  "new_idempotency_store options =
     (let duration = (case o_leaseDurationMs options of Some n \<Rightarrow> n | None \<Rightarrow> Num 30000);
          renewAfter = (case o_renewAfterMs options of Some n \<Rightarrow> n | None \<Rightarrow> js_half_floor duration)
      in rbind (opt_limit (o_maxEntries options)) (\<lambda>limit.
         rbind (guard_res (positiveSafeInteger duration \<and> \<not> js_above duration (Num MAX_TIMER)) rangeError) (\<lambda>_.
         rbind (guard_res (positiveSafeInteger renewAfter \<and> js_above duration renewAfter \<and>
                           \<not> js_above renewAfter (Num MAX_TIMER)) rangeError) (\<lambda>_.
         Inr \<lparr>entries = [], leaseDurationMs = num_int duration, renewAfterMs = num_int renewAfter,
              maxEntries = limit, tokenGeneration = 0\<rparr>))))"

section \<open>Operations\<close>

definition MAX_DATE :: int where
  "MAX_DATE = 8640000000000000"

definition make_lease :: "idempotency_store \<Rightarrow> int \<Rightarrow> (js_error, lease) res" where
  "make_lease s t = (if \<bar>t\<bar> \<le> MAX_DATE then Inr \<lparr>expiresAt = t, ls_renewAfterMs = renewAfterMs s\<rparr>
     else Inl rangeError)"

definition nowMs :: "int option \<Rightarrow> (js_error, int) res" where
  "nowMs clock = (case clock of Some t \<Rightarrow> Inr t | None \<Rightarrow> Inl typeError)"

definition claim_lost :: "string \<Rightarrow> string \<Rightarrow> js_error" where
  "claim_lost k t = kit (IdempotencyClaimLostError k t)"

text \<open>
  A new pending entry under a fresh token: the generation, a colon and the part the token
  factory gives (\<open>None\<close> when it is no non-empty string, \<open>Inl\<close> when it throws). A throw
  after the generation was counted leaves it counted.
\<close>

definition make_token :: "nat \<Rightarrow> string \<Rightarrow> string" where
  "make_token generation part = nat_str generation @ CHR '':'' # part"

definition createPending :: "string \<Rightarrow> string \<Rightarrow> int \<Rightarrow> (js_error, string option) res \<Rightarrow> idempotency_store
    \<Rightarrow> (js_error, idempotency_claim) res \<times> idempotency_store" where
  "createPending key fp now tokenPart s = (case tokenPart of
     Inl e \<Rightarrow> (Inl e, s)
   | Inr None \<Rightarrow> (Inl typeError, s)
   | Inr (Some part) \<Rightarrow>
       if part = [] then (Inl typeError, s)
       else let s' = s\<lparr>tokenGeneration := tokenGeneration s + 1\<rparr>
         in if max_safe_integer < int (tokenGeneration s') then (Inl rangeError, s')
            else let t = make_token (tokenGeneration s') part; expires = now + leaseDurationMs s
              in (case make_lease s expires of
                   Inl e \<Rightarrow> (Inl e, s')
                 | Inr l \<Rightarrow> (Inr (Claimed \<lparr>ch_key = key, ch_token = t, ch_lease = Some l\<rparr>),
                     s'\<lparr>entries := jset key (PendingEntry fp t expires) (entries s)\<rparr>)))"

definition claim :: "int option \<Rightarrow> (js_error, string option) res \<Rightarrow> string \<Rightarrow> string \<Rightarrow> idempotency_store
    \<Rightarrow> (js_error, idempotency_claim) res \<times> idempotency_store" where
  "claim clock tokenPart key fp s = (case nowMs clock of
     Inl e \<Rightarrow> (Inl e, s)
   | Inr now \<Rightarrow> (case jget (entries s) key of
       None \<Rightarrow>
         if (case maxEntries s of Some n \<Rightarrow> n \<le> length (entries s) | None \<Rightarrow> False)
         then (Inl (kit (InMemoryCapacityExceededError ''InMemoryIdempotencyStore'' ''entries''
                (the (maxEntries s)) (length (entries s)) 1)), s)
         else createPending key fp now tokenPart s
     | Some existing \<Rightarrow>
         if fingerprint existing \<noteq> fp
         then (Inl (kit (IdempotencyKeyReuseError key (fingerprint existing) fp)), s)
         else (case existing of
             ConfirmedEntry _ _ out \<Rightarrow> (Inr (Completed out), s)
           | StagedEntry _ t expires _ \<Rightarrow>
               if now < expires then (Inl (kit (IdempotencyInFlightError key)), s)
               else (Inr (ReconciliationRequired \<lparr>re_key = key, re_fingerprint = fp, re_token = t,
                      re_expiredAt = expires\<rparr>), s)
           | PendingEntry _ _ expires \<Rightarrow>
               if now < expires then (Inl (kit (IdempotencyInFlightError key)), s)
               else createPending key fp now tokenPart s)))"

text \<open>The entry a token still holds at a time: unconfirmed, its own and not expired.\<close>

definition holds :: "entry \<Rightarrow> string \<Rightarrow> int \<Rightarrow> bool" where
  "holds e t now \<longleftrightarrow> (case e of ConfirmedEntry _ _ _ \<Rightarrow> False | _ \<Rightarrow> token e = t \<and> now < expiresAtMs e)"

definition complete :: "int option \<Rightarrow> claim_handle \<Rightarrow> ev_data \<Rightarrow> idempotency_store
    \<Rightarrow> (js_error, unit) res \<times> idempotency_store" where
  "complete clock h out s = (case nowMs clock of
     Inl e \<Rightarrow> (Inl e, s)
   | Inr now \<Rightarrow> (case jget (entries s) (ch_key h) of
       None \<Rightarrow> (Inl (kit (IdempotencyCompletionWithoutClaimError (ch_key h))), s)
     | Some (PendingEntry fp t expires) \<Rightarrow>
         if t \<noteq> ch_token h \<or> expires \<le> now then (Inl (claim_lost (ch_key h) (ch_token h)), s)
         else (case make_lease s (now + leaseDurationMs s) of
             Inl e \<Rightarrow> (Inl e, s)
           | Inr l \<Rightarrow>
               if \<not> cloneable out then (Inl (PlainError ''DataCloneError'' None), s)
               else (Inr (), s\<lparr>entries := jset (ch_key h) (StagedEntry fp t (now + leaseDurationMs s) out) (entries s)\<rparr>))
     | Some _ \<Rightarrow> (Inl (claim_lost (ch_key h) (ch_token h)), s)))"

fun with_expiry :: "int \<Rightarrow> entry \<Rightarrow> entry" where
  "with_expiry x (PendingEntry fp t _) = PendingEntry fp t x"
| "with_expiry x (StagedEntry fp t _ out) = StagedEntry fp t x out"
| "with_expiry x e = e"

definition renew :: "int option \<Rightarrow> claim_handle \<Rightarrow> idempotency_store
    \<Rightarrow> (js_error, lease) res \<times> idempotency_store" where
  "renew clock h s = (case nowMs clock of
     Inl e \<Rightarrow> (Inl e, s)
   | Inr now \<Rightarrow> (case jget (entries s) (ch_key h) of
       None \<Rightarrow> (Inl (claim_lost (ch_key h) (ch_token h)), s)
     | Some e \<Rightarrow>
         if \<not> holds e (ch_token h) now then (Inl (claim_lost (ch_key h) (ch_token h)), s)
         else (case make_lease s (now + leaseDurationMs s) of
             Inl x \<Rightarrow> (Inl x, s)
           | Inr l \<Rightarrow> (Inr l, s\<lparr>entries := jset (ch_key h) (with_expiry (now + leaseDurationMs s) e) (entries s)\<rparr>))))"

definition confirm :: "claim_handle \<Rightarrow> idempotency_store \<Rightarrow> idempotency_store" where
  "confirm h s = (case jget (entries s) (ch_key h) of
     Some (StagedEntry fp t _ out) \<Rightarrow>
       if t = ch_token h then s\<lparr>entries := jset (ch_key h) (ConfirmedEntry fp t out) (entries s)\<rparr> else s
   | _ \<Rightarrow> s)"

definition abandon :: "claim_handle \<Rightarrow> idempotency_store \<Rightarrow> idempotency_store" where
  "abandon h s = (case jget (entries s) (ch_key h) of
     None \<Rightarrow> s
   | Some (ConfirmedEntry _ _ _) \<Rightarrow> s
   | Some e \<Rightarrow> if token e = ch_token h then s\<lparr>entries := jdel (ch_key h) (entries s)\<rparr> else s)"

definition reconcile :: "int option \<Rightarrow> reconciliation \<Rightarrow> string \<Rightarrow> idempotency_store
    \<Rightarrow> (js_error, unit) res \<times> idempotency_store" where
  "reconcile clock r decision s =
     (if decision \<noteq> ''committed'' \<and> decision \<noteq> ''not-committed'' then (Inl typeError, s)
      else case jget (entries s) (re_key r) of
        Some (StagedEntry fp t expires out) \<Rightarrow>
          if t \<noteq> re_token r \<or> fp \<noteq> re_fingerprint r \<or> expires \<noteq> re_expiredAt r
          then (Inl (claim_lost (re_key r) (re_token r)), s)
          else (case nowMs clock of
              Inl e \<Rightarrow> (Inl e, s)
            | Inr now \<Rightarrow>
                if now < expires then (Inl (claim_lost (re_key r) (re_token r)), s)
                else if decision = ''committed''
                then (Inr (), s\<lparr>entries := jset (re_key r) (ConfirmedEntry fp t out) (entries s)\<rparr>)
                else (Inr (), s\<lparr>entries := jdel (re_key r) (entries s)\<rparr>))
      | _ \<Rightarrow> (Inl (claim_lost (re_key r) (re_token r)), s))"

definition clear_entries :: "idempotency_store \<Rightarrow> idempotency_store" where
  "clear_entries s = s\<lparr>entries := []\<rparr>"

section \<open>Sequences of operations\<close>

text \<open>What any number of callers may do to the store, one call after the other.\<close>

datatype idem_op =
    Claim "int option" "(js_error, string option) res" string string
  | Complete "int option" claim_handle ev_data
  | Renew "int option" claim_handle
  | Confirm claim_handle
  | Abandon claim_handle
  | Reconcile "int option" reconciliation string

fun run_op :: "idem_op \<Rightarrow> idempotency_store \<Rightarrow> idempotency_store" where
  "run_op (Claim clock part k fp) s = snd (claim clock part k fp s)"
| "run_op (Complete clock h out) s = snd (complete clock h out s)"
| "run_op (Renew clock h) s = snd (renew clock h s)"
| "run_op (Confirm h) s = confirm h s"
| "run_op (Abandon h) s = abandon h s"
| "run_op (Reconcile clock r d) s = snd (reconcile clock r d s)"

definition run_ops :: "idem_op list \<Rightarrow> idempotency_store \<Rightarrow> idempotency_store" where
  "run_ops ops s = fold run_op ops s"

lemma run_ops_simps [simp]: "run_ops [] s = s" "run_ops (op # ops) s = run_ops ops (run_op op s)"
  by (simp_all add: run_ops_def)

lemma run_ops_induct:
  assumes "P s" and "\<And>op s. P s \<Longrightarrow> op \<in> set ops \<Longrightarrow> P (run_op op s)"
  shows "P (run_ops ops s)"
  using assms by (induction ops arbitrary: s) auto

subsection \<open>What an operation does to one entry\<close>

text \<open>
  The only ways an entry changes: a claim files a pending entry under a new token, the
  holder of the token stages, renews, confirms or removes it, a reconciliation with the
  token confirms or removes it.
\<close>

definition op_token :: "idem_op \<Rightarrow> string \<Rightarrow> string \<Rightarrow> bool" where
  "op_token op k t \<longleftrightarrow> (case op of
     Claim _ _ _ _ \<Rightarrow> False
   | Complete _ h _ \<Rightarrow> ch_key h = k \<and> ch_token h = t
   | Renew _ h \<Rightarrow> ch_key h = k \<and> ch_token h = t
   | Confirm h \<Rightarrow> ch_key h = k \<and> ch_token h = t
   | Abandon h \<Rightarrow> ch_key h = k \<and> ch_token h = t
   | Reconcile _ r _ \<Rightarrow> re_key r = k \<and> re_token r = t)"

definition op_clock :: "idem_op \<Rightarrow> int option" where
  "op_clock op = (case op of
     Claim c _ _ _ \<Rightarrow> c | Complete c _ _ \<Rightarrow> c | Renew c _ \<Rightarrow> c | Confirm _ \<Rightarrow> None | Abandon _ \<Rightarrow> None
   | Reconcile c _ _ \<Rightarrow> c)"

definition fresh_token :: "idempotency_store \<Rightarrow> string \<Rightarrow> bool" where
  "fresh_token s t \<longleftrightarrow> (\<exists>part. t = make_token (tokenGeneration s + 1) part)"

definition same_settings :: "idempotency_store \<Rightarrow> idempotency_store \<Rightarrow> bool" where
  "same_settings s s' \<longleftrightarrow> leaseDurationMs s' = leaseDurationMs s \<and> renewAfterMs s' = renewAfterMs s \<and>
     maxEntries s' = maxEntries s \<and> tokenGeneration s \<le> tokenGeneration s'"

lemma same_settings_refl [simp]: "same_settings s s"
  by (simp add: same_settings_def)

lemma same_settings_entries [simp]: "same_settings s (s'\<lparr>entries := m\<rparr>) = same_settings s s'"
  by (simp add: same_settings_def)

lemma createPending_throws:
  assumes "createPending k fp now tp s = (Inl e, s')"
  shows "entries s' = entries s \<and> same_settings s s'"
proof (cases tp)
  case (Inr p)
  with assms show ?thesis
    by (cases p) (auto simp: createPending_def Let_def same_settings_def split: if_splits sum.splits)
qed (use assms in \<open>simp add: createPending_def\<close>)

lemma createPending_claims:
  assumes "createPending k fp now tp s = (Inr c, s')"
  shows "\<exists>part. c = Claimed \<lparr>ch_key = k, ch_token = make_token (tokenGeneration s + 1) part,
      ch_lease = Some \<lparr>expiresAt = now + leaseDurationMs s, ls_renewAfterMs = renewAfterMs s\<rparr>\<rparr> \<and>
    s' = s\<lparr>tokenGeneration := tokenGeneration s + 1,
      entries := jset k (PendingEntry fp (make_token (tokenGeneration s + 1) part) (now + leaseDurationMs s)) (entries s)\<rparr> \<and>
    \<bar>now + leaseDurationMs s\<bar> \<le> MAX_DATE"
proof (cases tp)
  case (Inr p)
  with assms show ?thesis
    by (cases p) (auto simp: createPending_def Let_def make_lease_def split: if_splits)
qed (use assms in \<open>simp add: createPending_def\<close>)

lemma claim_cases:
  assumes "claim clock tp k fp s = (r, s')"
  shows "(s' = s) \<or> (\<exists>now. clock = Some now \<and> createPending k fp now tp s = (r, s') \<and>
    (case jget (entries s) k of
       None \<Rightarrow> (case maxEntries s of Some n \<Rightarrow> length (entries s) < n | None \<Rightarrow> True)
     | Some (PendingEntry fp' t x) \<Rightarrow> fp' = fp \<and> x \<le> now | Some _ \<Rightarrow> False))"
proof (cases clock)
  case (Some now)
  show ?thesis
  proof (cases "jget (entries s) k")
    case None
    with assms Some show ?thesis by (cases "maxEntries s") (auto simp: claim_def nowMs_def split: if_splits)
  next
    case (Some e)
    with assms \<open>clock = Some now\<close> show ?thesis
      by (cases e) (auto simp: claim_def nowMs_def split: if_splits)
  qed
qed (use assms in \<open>simp add: claim_def nowMs_def\<close>)

text \<open>Every operation changes at most the entry of its own key.\<close>

datatype entry_change = Unchanged | Made entry | Removed

fun apply_change :: "string \<Rightarrow> entry_change \<Rightarrow> (string, entry) jmap \<Rightarrow> (string, entry) jmap" where
  "apply_change k Unchanged m = m"
| "apply_change k (Made e) m = jset k e m"
| "apply_change k Removed m = jdel k m"

text \<open>The transitions of one entry.\<close>

inductive entry_step :: "idem_op \<Rightarrow> idempotency_store \<Rightarrow> string \<Rightarrow> entry option \<Rightarrow> entry_change \<Rightarrow> bool" where
  kept: "entry_step op s k e Unchanged"
| claimed: "op = Claim (Some now) tp k fp \<Longrightarrow> fresh_token s t \<Longrightarrow>
    (e = None \<and> (case maxEntries s of Some n \<Rightarrow> length (entries s) < n | None \<Rightarrow> True) \<or>
      (\<exists>t' x. e = Some (PendingEntry fp t' x) \<and> x \<le> now)) \<Longrightarrow>
    entry_step op s k e (Made (PendingEntry fp t (now + leaseDurationMs s)))"
| staged: "op_token op k t \<Longrightarrow> op_clock op = Some now \<Longrightarrow> now < x \<Longrightarrow>
    entry_step op s k (Some (PendingEntry fp t x)) (Made (StagedEntry fp t (now + leaseDurationMs s) out))"
| renewed: "op_token op k (token e) \<Longrightarrow> op_clock op = Some now \<Longrightarrow> holds e (token e) now \<Longrightarrow>
    entry_step op s k (Some e) (Made (with_expiry (now + leaseDurationMs s) e))"
| confirmed: "op_token op k t \<Longrightarrow> entry_step op s k (Some (StagedEntry fp t x out)) (Made (ConfirmedEntry fp t out))"
| dropped: "op_token op k (token e) \<Longrightarrow> (\<forall>fp t out. e \<noteq> ConfirmedEntry fp t out) \<Longrightarrow>
    entry_step op s k (Some e) Removed"

inductive_cases from_confirmed: "entry_step op s k (Some (ConfirmedEntry fp t out)) c"
inductive_cases from_none: "entry_step op s k None c"

text \<open>What the operation did: the entry it looked at and how it changed.\<close>

definition op_effect :: "idem_op \<Rightarrow> idempotency_store \<Rightarrow> string \<Rightarrow> entry_change \<Rightarrow> idempotency_store \<Rightarrow> bool" where
  "op_effect op s k c s' \<longleftrightarrow> entry_step op s k (jget (entries s) k) c \<and>
     entries s' = apply_change k c (entries s) \<and> same_settings s s' \<and>
     ((\<exists>clock tp k fp. op = Claim clock tp k fp) \<and> c \<noteq> Unchanged \<longrightarrow> tokenGeneration s' = tokenGeneration s + 1)"

definition effect :: "idem_op \<Rightarrow> idempotency_store \<Rightarrow> idempotency_store \<Rightarrow> bool" where
  "effect op s s' \<longleftrightarrow> (\<exists>k c. op_effect op s k c s')"

lemma effectI: "op_effect op s k c s' \<Longrightarrow> effect op s s'"
  by (auto simp: effect_def)

lemma effect_none [intro]: "entries s' = entries s \<Longrightarrow> same_settings s s' \<Longrightarrow> effect op s s'"
  by (rule effectI[of _ _ "[]" Unchanged]) (simp add: op_effect_def entry_step.kept)

lemma effect_same [simp]: "effect op s s"
  by (rule effect_none) simp_all

lemma effect_made:
  assumes "entry_step op s k (jget (entries s) k) (Made e)" and "\<nexists>clock tp k fp. op = Claim clock tp k fp"
  shows "effect op s (s\<lparr>entries := jset k e (entries s)\<rparr>)"
proof -
  have "op_effect op s k (Made e) (s\<lparr>entries := jset k e (entries s)\<rparr>)" using assms by (simp add: op_effect_def)
  then show ?thesis by (rule effectI)
qed

lemma effect_removed:
  assumes "entry_step op s k (jget (entries s) k) Removed" and "\<nexists>clock tp k fp. op = Claim clock tp k fp"
  shows "effect op s (s\<lparr>entries := jdel k (entries s)\<rparr>)"
proof -
  have "op_effect op s k Removed (s\<lparr>entries := jdel k (entries s)\<rparr>)" using assms by (simp add: op_effect_def)
  then show ?thesis by (rule effectI)
qed

lemma claim_effect: "effect (Claim clock tp key fp) s (snd (claim clock tp key fp s))"
proof -
  obtain r s' where rs: "claim clock tp key fp s = (r, s')" by force
  from claim_cases[OF rs] show ?thesis
  proof
    assume "s' = s"
    with rs show ?thesis by auto
  next
    assume "\<exists>now. clock = Some now \<and> createPending key fp now tp s = (r, s') \<and>
      (case jget (entries s) key of
         None \<Rightarrow> (case maxEntries s of Some n \<Rightarrow> length (entries s) < n | None \<Rightarrow> True)
       | Some (PendingEntry fp' t x) \<Rightarrow> fp' = fp \<and> x \<le> now | Some _ \<Rightarrow> False)"
    then obtain now where now: "clock = Some now" and cp: "createPending key fp now tp s = (r, s')"
      and old: "case jget (entries s) key of
         None \<Rightarrow> (case maxEntries s of Some n \<Rightarrow> length (entries s) < n | None \<Rightarrow> True)
       | Some (PendingEntry fp' t x) \<Rightarrow> fp' = fp \<and> x \<le> now | Some _ \<Rightarrow> False" by blast
    show ?thesis
    proof (cases r)
      case (Inl e)
      with createPending_throws cp rs show ?thesis by auto
    next
      case (Inr c)
      with createPending_claims cp obtain part where
        s': "s' = s\<lparr>tokenGeneration := tokenGeneration s + 1,
          entries := jset key (PendingEntry fp (make_token (tokenGeneration s + 1) part) (now + leaseDurationMs s)) (entries s)\<rparr>"
        by blast
      from old have "jget (entries s) key = None \<and> (case maxEntries s of Some n \<Rightarrow> length (entries s) < n | None \<Rightarrow> True) \<or>
          (\<exists>t' x. jget (entries s) key = Some (PendingEntry fp t' x) \<and> x \<le> now)"
        by (auto split: option.splits entry.splits)
      moreover have "fresh_token s (make_token (tokenGeneration s + 1) part)" by (auto simp: fresh_token_def)
      ultimately have "entry_step (Claim clock tp key fp) s key (jget (entries s) key)
          (Made (PendingEntry fp (make_token (tokenGeneration s + 1) part) (now + leaseDurationMs s)))"
        using now by (intro entry_step.claimed) auto
      then have "op_effect (Claim clock tp key fp) s key
          (Made (PendingEntry fp (make_token (tokenGeneration s + 1) part) (now + leaseDurationMs s))) s'"
        by (simp add: op_effect_def s' same_settings_def)
      with rs show ?thesis by (auto intro: effectI)
    qed
  qed
qed

lemma complete_effect: "effect (Complete clock h out) s (snd (complete clock h out s))"
proof (cases clock)
  case (Some now)
  show ?thesis
  proof (cases "jget (entries s) (ch_key h)")
    case (Some e)
    show ?thesis
    proof (cases e)
      case (PendingEntry fp t x)
      have "entry_step (Complete clock h out) s (ch_key h) (jget (entries s) (ch_key h))
          (Made (StagedEntry fp t (now + leaseDurationMs s) out))" if "t = ch_token h" "now < x"
        unfolding Some PendingEntry using that \<open>clock = Some now\<close>
        by (intro entry_step.staged) (auto simp: op_token_def op_clock_def)
      then show ?thesis
        using Some PendingEntry \<open>clock = Some now\<close>
        by (auto simp: complete_def nowMs_def make_lease_def intro!: effect_made split: if_splits)
    qed (use Some \<open>clock = Some now\<close> in \<open>auto simp: complete_def nowMs_def\<close>)
  qed (use Some in \<open>auto simp: complete_def nowMs_def\<close>)
qed (auto simp: complete_def nowMs_def)

lemma renew_effect: "effect (Renew clock h) s (snd (renew clock h s))"
proof (cases clock)
  case (Some now)
  show ?thesis
  proof (cases "jget (entries s) (ch_key h)")
    case (Some e)
    have "entry_step (Renew clock h) s (ch_key h) (jget (entries s) (ch_key h)) (Made (with_expiry (now + leaseDurationMs s) e))"
      if "holds e (ch_token h) now"
    proof -
      from that have "token e = ch_token h" by (auto simp: holds_def split: entry.splits)
      with that show ?thesis
        unfolding Some using \<open>clock = Some now\<close>
        by (intro entry_step.renewed) (auto simp: op_token_def op_clock_def)
    qed
    with Some \<open>clock = Some now\<close> show ?thesis
      by (auto simp: renew_def nowMs_def make_lease_def intro!: effect_made)
  qed (use Some in \<open>auto simp: renew_def nowMs_def\<close>)
qed (auto simp: renew_def nowMs_def)

lemma confirm_effect: "effect (Confirm h) s (confirm h s)"
proof (cases "jget (entries s) (ch_key h)")
  case (Some e)
  then show ?thesis
    by (cases e) (auto simp: confirm_def op_token_def intro!: effect_made entry_step.confirmed)
qed (auto simp: confirm_def)

lemma abandon_effect: "effect (Abandon h) s (abandon h s)"
proof (cases "jget (entries s) (ch_key h)")
  case (Some e)
  then show ?thesis
    by (cases e) (auto simp: abandon_def op_token_def intro!: effect_removed entry_step.dropped)
qed (auto simp: abandon_def)

lemma reconcile_effect: "effect (Reconcile clock r d) s (snd (reconcile clock r d s))"
proof (cases "jget (entries s) (re_key r)")
  case (Some e)
  show ?thesis
  proof (cases e)
    case (StagedEntry fp t x out)
    with Some show ?thesis
      by (cases clock) (auto simp: reconcile_def nowMs_def op_token_def
          intro!: effect_made effect_removed entry_step.confirmed entry_step.dropped)
  qed (use Some in \<open>auto simp: reconcile_def\<close>)
qed (auto simp: reconcile_def)

lemma run_op_effect: "effect op s (run_op op s)"
  by (cases op) (simp_all add: claim_effect complete_effect renew_effect confirm_effect abandon_effect reconcile_effect)

section \<open>The invariant\<close>

definition tokens_ok :: "idempotency_store \<Rightarrow> bool" where
  "tokens_ok s \<longleftrightarrow>
     (\<forall>k e. jget (entries s) k = Some e \<longrightarrow> (\<exists>g part. token e = make_token g part \<and> g \<le> tokenGeneration s)) \<and>
     (\<forall>k k' e e'. jget (entries s) k = Some e \<longrightarrow> jget (entries s) k' = Some e' \<longrightarrow> token e = token e' \<longrightarrow> k = k')"

definition entries_bounded :: "idempotency_store \<Rightarrow> bool" where
  "entries_bounded s \<longleftrightarrow> (case maxEntries s of Some n \<Rightarrow> length (entries s) \<le> n | None \<Rightarrow> True)"

definition idem_ok :: "idempotency_store \<Rightarrow> bool" where
  "idem_ok s \<longleftrightarrow> jok (entries s) \<and> tokens_ok s \<and> entries_bounded s \<and>
     0 < renewAfterMs s \<and> renewAfterMs s < leaseDurationMs s \<and> leaseDurationMs s \<le> 2147483647"

lemma make_token_inj: "make_token g part = make_token g' part' \<longleftrightarrow> g = g' \<and> part = part'"
proof
  assume eq: "make_token g part = make_token g' part'"
  have tw: "takeWhile is_digit (make_token n p) = nat_str n" for n p
  proof -
    have "\<not> is_digit CHR '':''" by (simp add: is_digit_def)
    moreover have "\<And>x. x \<in> set (nat_str n) \<Longrightarrow> is_digit x" using nat_str_digits[of n] by (simp add: list_all_iff)
    ultimately show ?thesis by (simp add: make_token_def takeWhile_append2)
  qed
  from eq tw have "nat_str g = nat_str g'" by metis
  with eq show "g = g' \<and> part = part'" by (simp add: make_token_def nat_str_inj)
qed simp

lemma positive_safe_int: "positiveSafeInteger v \<Longrightarrow> \<exists>n. v = Num (of_int n) \<and> 0 < n"
  by (cases v) (auto simp: positiveSafeInteger_def)

lemma new_idempotency_store_ok:
  assumes "new_idempotency_store options = Inr s"
  shows "idem_ok s"
proof -
  from assms obtain d r limit where d: "positiveSafeInteger d" "\<not> js_above d (Num MAX_TIMER)"
    and r: "positiveSafeInteger r" "js_above d r"
    and s: "s = \<lparr>entries = [], leaseDurationMs = num_int d, renewAfterMs = num_int r,
      maxEntries = limit, tokenGeneration = 0\<rparr>"
    by (auto simp: new_idempotency_store_def Let_def)
  from d r obtain n m where "d = Num (of_int n)" "r = Num (of_int m)" "0 < m"
    using positive_safe_int by blast
  with d r s show ?thesis by (auto simp: idem_ok_def tokens_ok_def entries_bounded_def MAX_TIMER_def split: option.splits)
qed

lemma entry_step_made:
  assumes "entry_step op s k e (Made e')"
  shows "(\<exists>clock tp k fp. op = Claim clock tp k fp) \<and> fresh_token s (token e') \<and>
      (e = None \<longrightarrow> (case maxEntries s of Some n \<Rightarrow> length (entries s) < n | None \<Rightarrow> True)) \<or>
    (\<exists>e0. e = Some e0 \<and> token e0 = token e')"
  using assms
proof cases
  case (renewed e0 now)
  then show ?thesis by (cases e0) auto
qed auto

lemma tokens_ok_effect:
  assumes ok: "tokens_ok s" and eff: "op_effect op s k c s'"
  shows "tokens_ok s'"
proof (cases c)
  case Unchanged
  with assms show ?thesis by (force simp: op_effect_def same_settings_def tokens_ok_def)
next
  case Removed
  with assms show ?thesis by (force simp: op_effect_def same_settings_def tokens_ok_def)
next
  case (Made e)
  from eff have gen: "tokenGeneration s \<le> tokenGeneration s'" and es: "entries s' = jset k e (entries s)"
    by (simp_all add: op_effect_def same_settings_def Made)
  have own: "(\<exists>g part. token e = make_token g part \<and> g \<le> tokenGeneration s') \<and>
      (\<forall>k' e'. k' \<noteq> k \<longrightarrow> jget (entries s) k' = Some e' \<longrightarrow> token e' \<noteq> token e)"
  proof -
    from eff Made entry_step_made consider (fresh) "fresh_token s (token e)" "tokenGeneration s' = tokenGeneration s + 1"
      | (old) e0 where "jget (entries s) k = Some e0" "token e0 = token e"
      unfolding op_effect_def by (metis entry_change.distinct(1))
    then show ?thesis
    proof cases
      case fresh
      then obtain part where t: "token e = make_token (tokenGeneration s + 1) part" by (auto simp: fresh_token_def)
      have "token e' \<noteq> token e" if "jget (entries s) k' = Some e'" for k' e'
      proof -
        from ok that obtain g part' where "token e' = make_token g part'" "g \<le> tokenGeneration s"
          unfolding tokens_ok_def by blast
        then show ?thesis by (simp add: t make_token_inj)
      qed
      moreover have "tokenGeneration s + 1 \<le> tokenGeneration s'" using fresh(2) by simp
      ultimately show ?thesis using t by blast
    next
      case old
      from ok old obtain g part where g: "token e = make_token g part" "g \<le> tokenGeneration s"
        unfolding tokens_ok_def by metis
      moreover have "g \<le> tokenGeneration s'" using g(2) gen by simp
      moreover have "token e' \<noteq> token e" if "k' \<noteq> k" "jget (entries s) k' = Some e'" for k' e'
        using ok old that unfolding tokens_ok_def by metis
      ultimately show ?thesis by blast
    qed
  qed
  have bounds: "\<exists>g part. token e' = make_token g part \<and> g \<le> tokenGeneration s'"
    if "jget (entries s) k' = Some e'" for k' e'
    using ok that gen unfolding tokens_ok_def by (meson order_trans)
  have distinct: "k1 = k2" if "jget (entries s) k1 = Some e1" "jget (entries s) k2 = Some e2" "token e1 = token e2"
    for k1 k2 e1 e2 using ok that unfolding tokens_ok_def by blast
  show ?thesis
    unfolding tokens_ok_def es jget_set
  proof (intro conjI allI impI)
    fix k' e' assume "(if k' = k then Some e else jget (entries s) k') = Some e'"
    then show "\<exists>g part. token e' = make_token g part \<and> g \<le> tokenGeneration s'"
      using own bounds by (auto split: if_splits)
  next
    fix k1 k2 e1 e2
    assume "(if k1 = k then Some e else jget (entries s) k1) = Some e1"
      "(if k2 = k then Some e else jget (entries s) k2) = Some e2" "token e1 = token e2"
    then show "k1 = k2" using own distinct by (auto split: if_splits)
  qed
qed

lemma entries_bound_effect:
  assumes "entries_bounded s" and eff: "op_effect op s k c s'"
  shows "entries_bounded s'"
proof (cases c)
  case Unchanged
  with assms show ?thesis by (auto simp: op_effect_def same_settings_def entries_bounded_def split: option.splits)
next
  case Removed
  with assms length_jdel_le[of k "entries s"] show ?thesis
    by (auto simp: op_effect_def same_settings_def entries_bounded_def split: option.splits)
next
  case (Made e)
  with eff have "entry_step op s k (jget (entries s) k) (Made e)" by (simp add: op_effect_def)
  from entry_step_made[OF this] assms Made show ?thesis
    by (auto simp: op_effect_def same_settings_def entries_bounded_def length_jset split: option.splits)
qed

lemma idem_ok_effect:
  assumes "idem_ok s" "op_effect op s k c s'"
  shows "idem_ok s'"
proof -
  have "jok (apply_change k c (entries s))" using assms(1) by (cases c) (auto simp: idem_ok_def)
  moreover have "tokens_ok s'" "entries_bounded s'"
    using assms tokens_ok_effect[of s op k c s'] entries_bound_effect[of s op k c s'] by (auto simp: idem_ok_def)
  ultimately show ?thesis using assms by (simp add: idem_ok_def op_effect_def same_settings_def)
qed

lemma idem_ok_op [state_invs]: "idem_ok s \<Longrightarrow> idem_ok (run_op op s)"
  using run_op_effect[of op s] idem_ok_effect unfolding effect_def by blast

lemma idem_ok_ops [state_invs]: "idem_ok s \<Longrightarrow> idem_ok (run_ops ops s)"
  by (rule run_ops_induct) (auto intro: idem_ok_op)

section \<open>Properties\<close>

subsection \<open>Lost claims\<close>

text \<open>The token was issued, and the entry of its key is gone or belongs to another token.\<close>

definition superseded :: "claim_handle \<Rightarrow> idempotency_store \<Rightarrow> bool" where
  "superseded h s \<longleftrightarrow> (\<exists>g part. ch_token h = make_token g part \<and> g \<le> tokenGeneration s) \<and>
     (\<forall>e. jget (entries s) (ch_key h) = Some e \<longrightarrow> token e \<noteq> ch_token h)"

lemma superseded_op:
  assumes "superseded h s" shows "superseded h (run_op op s)"
proof -
  obtain k c where eff: "op_effect op s k c (run_op op s)"
    using run_op_effect[of op s] by (auto simp: effect_def)
  have gen: "tokenGeneration s \<le> tokenGeneration (run_op op s)"
    using eff by (simp add: op_effect_def same_settings_def)
  from assms obtain g part where g: "ch_token h = make_token g part" "g \<le> tokenGeneration s"
    by (auto simp: superseded_def)
  have own: "token e \<noteq> ch_token h" if c: "c = Made e" and k: "k = ch_key h" for e
  proof -
    from eff c have "entry_step op s k (jget (entries s) k) (Made e)" by (simp add: op_effect_def)
    from entry_step_made[OF this] show ?thesis
      using assms k g by (auto simp: superseded_def fresh_token_def make_token_inj)
  qed
  have "token e \<noteq> ch_token h" if "jget (entries (run_op op s)) (ch_key h) = Some e" for e
  proof (cases "k = ch_key h")
    case True
    with eff own assms that show ?thesis by (cases c) (auto simp: op_effect_def superseded_def)
  next
    case False
    with eff assms that show ?thesis by (cases c) (auto simp: op_effect_def superseded_def)
  qed
  moreover have "g \<le> tokenGeneration (run_op op s)" using g gen by simp
  ultimately show ?thesis using g by (auto simp: superseded_def)
qed

lemma superseded_ops: "superseded h s \<Longrightarrow> superseded h (run_ops ops s)"
  by (rule run_ops_induct) (auto intro: superseded_op)

lemma superseded_powerless:
  assumes "superseded h s"
  shows "\<exists>e. complete clock h out s = (Inl e, s)" "\<exists>e. renew clock h s = (Inl e, s)"
    "confirm h s = s" "abandon h s = s"
proof -
  have no: "jget (entries s) (ch_key h) = Some e \<Longrightarrow> token e \<noteq> ch_token h" for e
    using assms by (simp add: superseded_def)
  show "\<exists>e. complete clock h out s = (Inl e, s)"
    using no by (cases clock) (auto simp: complete_def nowMs_def split: option.split entry.split)
  show "\<exists>e. renew clock h s = (Inl e, s)"
    using no by (cases clock) (auto simp: renew_def nowMs_def holds_def split: option.split entry.split)
  show "confirm h s = s" "abandon h s = s"
    using no by (auto simp: confirm_def abandon_def split: option.split entry.split)
qed

lemma claim_claimed:
  assumes "claim clock part k fp s = (Inr (Claimed h), s')"
  shows "\<exists>now. clock = Some now \<and> ch_key h = k \<and>
    (\<exists>p. ch_token h = make_token (tokenGeneration s') p) \<and>
    entries s' = jset k (PendingEntry fp (ch_token h) (now + leaseDurationMs s)) (entries s) \<and> same_settings s s'"
proof -
  have "\<exists>now. clock = Some now \<and> createPending k fp now part s = (Inr (Claimed h), s')"
  proof (cases clock)
    case (Some now)
    with assms show ?thesis
      by (cases "jget (entries s) k") (auto simp: claim_def nowMs_def split: if_splits entry.splits)
  qed (use assms in \<open>simp add: claim_def nowMs_def\<close>)
  then obtain now where n: "clock = Some now" "createPending k fp now part s = (Inr (Claimed h), s')" by blast
  from createPending_claims[OF n(2)] n(1) show ?thesis by (auto simp: same_settings_def)
qed

text \<open>
  A claim that was lost stays lost: once the entry of the key no longer carries the
  token of the claim (taken over after the lease, abandoned, released), the stale holder can
  never stage an outcome, extend a lease, confirm or remove anything, whatever happens next.
\<close>

theorem lost_claim_fenced:
  assumes "claim clock part k fp s0 = (Inr (Claimed h), s1)"
    and "\<forall>e. jget (entries (run_ops ops s1)) k = Some e \<longrightarrow> token e \<noteq> ch_token h"
  shows "let s = run_ops ops' (run_ops ops s1)
    in (\<exists>e. complete clock' h out s = (Inl e, s)) \<and> (\<exists>e. renew clock' h s = (Inl e, s)) \<and>
       confirm h s = s \<and> abandon h s = s"
proof -
  from claim_claimed[OF assms(1)] obtain p where h: "ch_key h = k" "ch_token h = make_token (tokenGeneration s1) p"
    by blast
  have "tokenGeneration s1 \<le> tokenGeneration (run_ops ops s1)"
  proof (rule run_ops_induct)
    fix op and s :: idempotency_store
    assume le: "tokenGeneration s1 \<le> tokenGeneration s"
    from run_op_effect[of op s] have "tokenGeneration s \<le> tokenGeneration (run_op op s)"
      by (auto simp: effect_def op_effect_def same_settings_def)
    with le show "tokenGeneration s1 \<le> tokenGeneration (run_op op s)" by simp
  qed simp
  with h assms(2) have "superseded h (run_ops ops s1)" by (auto simp: superseded_def)
  then have "superseded h (run_ops ops' (run_ops ops s1))" by (rule superseded_ops)
  from superseded_powerless[OF this] show ?thesis by (simp add: Let_def)
qed

subsection \<open>Live claims\<close>

text \<open>An operation by someone without the token, at a time before \<open>t\<close>.\<close>

definition foreign_before :: "claim_handle \<Rightarrow> int \<Rightarrow> idem_op \<Rightarrow> bool" where
  "foreign_before h t op \<longleftrightarrow> \<not> op_token op (ch_key h) (ch_token h) \<and>
     (case op_clock op of Some n \<Rightarrow> n < t | None \<Rightarrow> True)"

lemma live_entry_op:
  assumes "jget (entries s) (ch_key h) = Some (PendingEntry fp (ch_token h) t)" "foreign_before h t op"
  shows "jget (entries (run_op op s)) (ch_key h) = Some (PendingEntry fp (ch_token h) t)"
proof -
  obtain k c where eff: "op_effect op s k c (run_op op s)"
    using run_op_effect[of op s] by (auto simp: effect_def)
  show ?thesis
  proof (cases "k = ch_key h")
    case True
    with eff assms have "entry_step op s (ch_key h) (Some (PendingEntry fp (ch_token h) t)) c"
      by (simp add: op_effect_def)
    then have "c = Unchanged"
      using assms(2) by cases (auto simp: foreign_before_def op_clock_def)
    with eff assms show ?thesis by (simp add: op_effect_def)
  next
    case False
    with eff assms show ?thesis by (cases c) (auto simp: op_effect_def)
  qed
qed

lemma live_entry_ops:
  assumes "jget (entries s) (ch_key h) = Some (PendingEntry fp (ch_token h) t)" "\<forall>op \<in> set ops. foreign_before h t op"
  shows "jget (entries (run_ops ops s)) (ch_key h) = Some (PendingEntry fp (ch_token h) t)"
proof (rule run_ops_induct)
  fix op and s :: idempotency_store
  assume e: "jget (entries s) (ch_key h) = Some (PendingEntry fp (ch_token h) t)" and op: "op \<in> set ops"
  from op assms(2) have "foreign_before h t op" by blast
  with e show "jget (entries (run_op op s)) (ch_key h) = Some (PendingEntry fp (ch_token h) t)"
    by (rule live_entry_op)
qed (rule assms(1))

lemma settings_ops: "same_settings s (run_ops ops s)"
proof (rule run_ops_induct)
  fix op s' assume "same_settings s s'"
  with run_op_effect[of op s'] show "same_settings s (run_op op s')"
    by (auto simp: effect_def op_effect_def same_settings_def)
qed simp

text \<open>
  C15. A claim excludes every other execution while its lease runs: whatever others do before
  the lease ends, a claim of the key by anyone, with any fingerprint, is refused without a
  change, and the holder can still stage its outcome.
\<close>

theorem live_claim_exclusive:
  assumes "claim (Some t0) part k fp s = (Inr (Claimed h), s1)"
    and "\<forall>op \<in> set ops. foreign_before h (t0 + leaseDurationMs s) op" and "now < t0 + leaseDurationMs s"
  shows "let s' = run_ops ops s1
    in claim (Some now) part' k fp' s' =
         (Inl (kit (if fp' = fp then IdempotencyInFlightError k else IdempotencyKeyReuseError k fp fp')), s') \<and>
       (cloneable out \<and> \<bar>now + leaseDurationMs s\<bar> \<le> MAX_DATE \<longrightarrow> fst (complete (Some now) h out s') = Inr ())"
proof -
  let ?t = "t0 + leaseDurationMs s"
  from claim_claimed[OF assms(1)] have h: "ch_key h = k" "jget (entries s1) k = Some (PendingEntry fp (ch_token h) ?t)"
    and s1: "same_settings s s1" by auto
  with live_entry_ops[of s1 h fp ?t ops] assms(2)
  have e: "jget (entries (run_ops ops s1)) k = Some (PendingEntry fp (ch_token h) ?t)" by simp
  have "leaseDurationMs (run_ops ops s1) = leaseDurationMs s"
    using s1 settings_ops[of s1 ops] by (simp add: same_settings_def)
  then show ?thesis
    using assms(3) e h(1) by (simp add: claim_def complete_def nowMs_def make_lease_def Let_def)
qed

subsection \<open>Settled outcomes\<close>

lemma confirmed_op:
  assumes "jget (entries s) k = Some (ConfirmedEntry fp t out)"
  shows "jget (entries (run_op op s)) k = Some (ConfirmedEntry fp t out)"
proof -
  obtain k' c where eff: "op_effect op s k' c (run_op op s)"
    using run_op_effect[of op s] by (auto simp: effect_def)
  show ?thesis
  proof (cases "k' = k")
    case True
    with eff assms have "entry_step op s k (Some (ConfirmedEntry fp t out)) c" by (simp add: op_effect_def)
    then have "c = Unchanged" by (cases rule: from_confirmed) (auto simp: holds_def)
    with eff assms show ?thesis by (simp add: op_effect_def)
  next
    case False
    with eff assms show ?thesis by (cases c) (auto simp: op_effect_def)
  qed
qed

lemma confirmed_ops:
  assumes "jget (entries s) k = Some (ConfirmedEntry fp t out)"
  shows "jget (entries (run_ops ops s)) k = Some (ConfirmedEntry fp t out)"
proof (rule run_ops_induct)
  fix op and s :: idempotency_store
  assume "jget (entries s) k = Some (ConfirmedEntry fp t out)"
  then show "jget (entries (run_op op s)) k = Some (ConfirmedEntry fp t out)" by (rule confirmed_op)
qed (rule assms)

lemma complete_staged:
  assumes "complete clock h out s = (Inr (), s1)"
  shows "\<exists>fp x y. jget (entries s) (ch_key h) = Some (PendingEntry fp (ch_token h) x) \<and>
    jget (entries s1) (ch_key h) = Some (StagedEntry fp (ch_token h) y out)"
proof (cases clock)
  case (Some now)
  show ?thesis
  proof (cases "jget (entries s) (ch_key h)")
    case (Some e)
    with assms \<open>clock = Some now\<close> show ?thesis
      by (cases e) (auto simp: complete_def nowMs_def split: if_splits sum.splits)
  qed (use assms Some in \<open>simp add: complete_def nowMs_def\<close>)
qed (use assms in \<open>simp add: complete_def nowMs_def\<close>)

text \<open>
  A settled outcome is replayed for ever: once the holder staged its outcome and it was
  confirmed, every later claim with the fingerprint of the claim returns exactly that outcome,
  every claim with another fingerprint is refused as key reuse, and no operation of anyone
  changes either.
\<close>

theorem completed_replayed_forever:
  assumes "complete clock h out s = (Inr (), s1)"
    and "jget (entries s) (ch_key h) = Some e"
  shows "let s' = run_ops ops (confirm h s1)
    in claim (Some now) part (ch_key h) fp s' =
       (if fp = fingerprint e then Inr (Completed out)
        else Inl (kit (IdempotencyKeyReuseError (ch_key h) (fingerprint e) fp)), s')"
proof -
  from complete_staged[OF assms(1)] assms(2) obtain y where
    "jget (entries s1) (ch_key h) = Some (StagedEntry (fingerprint e) (ch_token h) y out)" by auto
  then have "jget (entries (confirm h s1)) (ch_key h) = Some (ConfirmedEntry (fingerprint e) (ch_token h) out)"
    by (simp add: confirm_def)
  from confirmed_ops[OF this] show ?thesis by (auto simp: claim_def nowMs_def Let_def)
qed

text \<open>
  Whatever operations ran, in whatever order: at most one entry per key, no two keys
  share a claim token, the configured bound holds, and the leases are the configured ones.
\<close>

theorem idempotency_store_invariant:
  assumes "new_idempotency_store options = Inr s"
  shows "let s' = run_ops ops s in
    distinct (jkeys (entries s')) \<and>
    (\<forall>k k' e e'. jget (entries s') k = Some e \<longrightarrow> jget (entries s') k' = Some e' \<longrightarrow> token e = token e' \<longrightarrow> k = k') \<and>
    (\<forall>n. maxEntries s = Some n \<longrightarrow> length (entries s') \<le> n) \<and>
    0 < renewAfterMs s' \<and> renewAfterMs s' < leaseDurationMs s' \<and> leaseDurationMs s' = leaseDurationMs s"
proof -
  have ok: "idem_ok (run_ops ops s)"
    using new_idempotency_store_ok[OF assms] by (rule idem_ok_ops)
  have "maxEntries (run_ops ops s) = maxEntries s" "leaseDurationMs (run_ops ops s) = leaseDurationMs s"
    using settings_ops[of s ops] by (simp_all add: same_settings_def)
  with ok show ?thesis
    by (auto simp: idem_ok_def jok_def tokens_ok_def entries_bounded_def Let_def split: option.splits)
qed

section \<open>Examples\<close>

definition ex_idem :: idempotency_store where
  "ex_idem = \<lparr>entries = [], leaseDurationMs = 1000, renewAfterMs = 500, maxEntries = Some 2, tokenGeneration = 0\<rparr>"

definition ex_token :: "(js_error, string option) res" where
  "ex_token = Inr (Some ''t'')"

definition ex_handle :: claim_handle where
  "ex_handle = \<lparr>ch_key = ''k'', ch_token = ''1:t'', ch_lease = Some \<lparr>expiresAt = 1000, ls_renewAfterMs = 500\<rparr>\<rparr>"

definition ex_idem1 :: idempotency_store where
  "ex_idem1 = snd (claim (Some 0) ex_token ''k'' ''f'' ex_idem)"

lemma ex_claim: "claim (Some 0) ex_token ''k'' ''f'' ex_idem = (Inr (Claimed ex_handle), ex_idem1)"
  by code_simp

theorem lost_claim_fenced_witness:
  "let s = run_ops [Claim (Some 2000) ex_token ''k'' ''f''] ex_idem1
   in confirm ex_handle s = s \<and> abandon ex_handle s = s"
proof -
  let ?ops = "[Claim (Some 2000) ex_token ''k'' ''f'']"
  have "jget (entries (run_ops ?ops ex_idem1)) ''k'' = Some (PendingEntry ''f'' ''2:t'' 3000)" by code_simp
  then have "\<forall>e. jget (entries (run_ops ?ops ex_idem1)) ''k'' = Some e \<longrightarrow> token e \<noteq> ch_token ex_handle"
    by (simp add: ex_handle_def)
  from lost_claim_fenced[OF ex_claim this, where ops' = "[]" and clock' = None and out = ENull] show ?thesis
    by (simp add: Let_def)
qed

theorem live_claim_exclusive_witness:
  "claim (Some 10) ex_token ''k'' ''f'' (run_ops [Claim (Some 5) ex_token ''j'' ''g''] ex_idem1) =
     (Inl (kit (IdempotencyInFlightError ''k'')), run_ops [Claim (Some 5) ex_token ''j'' ''g''] ex_idem1)"
proof -
  have "\<forall>op \<in> set [Claim (Some 5) ex_token ''j'' ''g'']. foreign_before ex_handle (0 + leaseDurationMs ex_idem) op"
    by (simp add: foreign_before_def op_token_def op_clock_def ex_idem_def)
  from live_claim_exclusive[OF ex_claim this, of 10 ex_token "''f''"] show ?thesis
    by (simp add: Let_def ex_idem_def)
qed

theorem completed_replayed_witness:
  "fst (claim (Some 99999) ex_token ''k'' ''f'' (confirm ex_handle (snd (complete (Some 10) ex_handle (EStr ''ok'') ex_idem1))))
     = Inr (Completed (EStr ''ok''))"
proof -
  have c: "complete (Some 10) ex_handle (EStr ''ok'') ex_idem1 = (Inr (), snd (complete (Some 10) ex_handle (EStr ''ok'') ex_idem1))"
    by code_simp
  have e: "jget (entries ex_idem1) (ch_key ex_handle) = Some (PendingEntry ''f'' ''1:t'' 1000)" by code_simp
  from completed_replayed_forever[OF c e, where ops = "[]" and now = 99999 and part = ex_token and fp = "''f''"]
  show ?thesis by (simp add: Let_def ex_handle_def)
qed

theorem idempotency_store_invariant_witness:
  "length (entries (run_ops [Claim (Some 0) ex_token ''a'' ''f'', Claim (Some 0) ex_token ''b'' ''f'',
      Claim (Some 0) ex_token ''c'' ''f''] ex_idem)) \<le> 2"
proof -
  have "new_idempotency_store \<lparr>o_leaseDurationMs = Some (Num 1000), o_renewAfterMs = None, o_maxEntries = Some (Num 2)\<rparr> = Inr ex_idem"
    by (simp add: new_idempotency_store_def ex_idem_def opt_limit_def assertPositiveSafeInteger_def
        positiveSafeInteger_def max_safe_integer_def MAX_TIMER_def)
  note idempotency_store_invariant[OF this]
  moreover have "maxEntries ex_idem = Some 2" by (simp add: ex_idem_def)
  ultimately show ?thesis unfolding Let_def by blast
qed

end
