(* ===== verification/Entity.thy ===== *)
theory Entity
  imports Domain_Events
begin

text \<open>
  Entities (src/entity/entity.ts): owned state with its validator, and the helpers on
  collections of entities. A state is a JavaScript value with its identity: what \<open>===\<close>
  compares. Freezing a value is not an operation here: a value of the model never changes.
  Own accessors of a state object are outside this model.
\<close>

section \<open>Values with identity\<close>

text \<open>A property value: a primitive, or a reference to an object by its identity.\<close>

datatype prop_value =
    PUndef | PNull | PBool bool | PNum js_num | PBig int | PStr string | PSym string | PRef nat

text \<open>\<open>===\<close>: the same primitive or the same object, and \<open>NaN\<close> differs from itself.\<close>

definition strict_equal :: "prop_value \<Rightarrow> prop_value \<Rightarrow> bool" where
  "strict_equal a b \<longleftrightarrow> a = b \<and> a \<noteq> PNum NaN"

record js_object =
  obj_id :: nat
  obj_proto :: proto
  obj_array :: bool
  obj_props :: "(pkey, prop_value \<times> bool) jmap"

datatype js_state = SPrim prop_value | SObj js_object

fun state_identity :: "js_state \<Rightarrow> prop_value" where
  "state_identity (SPrim v) = v"
| "state_identity (SObj obj) = PRef (obj_id obj)"

text \<open>\<open>Object.keys\<close>, and reading an own property.\<close>

definition enumerable_names :: "(pkey, prop_value \<times> bool) jmap \<Rightarrow> string list" where
  "enumerable_names ps = concat (map (\<lambda>(k, v, e). case k of KStr s \<Rightarrow> if e then [s] else [] | KSym _ \<Rightarrow> []) ps)"

definition js_read :: "js_object \<Rightarrow> string \<Rightarrow> prop_value" where
  "js_read obj k = (case jget (obj_props obj) (KStr k) of Some (v, e) \<Rightarrow> v | None \<Rightarrow> PUndef)"

lemma enumerable_names_mem: "k \<in> set (enumerable_names ps) \<longleftrightarrow> (\<exists>v. (KStr k, v, True) \<in> set ps)"
  by (force simp: enumerable_names_def split: pkey.splits if_splits)

section \<open>Owned copies\<close>

text \<open>
  The shallow copy an entity owns: a plain object or an array is copied under a new
  identity with its enumerable own properties (an array with all its elements), any other
  object and every primitive is taken as it is. An own \<open>__proto__\<close> is refused.
\<close>

definition is_index :: "pkey \<Rightarrow> bool" where
  "is_index k = (case k of KStr s \<Rightarrow> s \<noteq> [] \<and> list_all is_digit s | KSym _ \<Rightarrow> False)"

definition hostile_key :: "(pkey, prop_value \<times> bool) jmap \<Rightarrow> (js_error, unit) res" where
  "hostile_key ps = guard_res (\<not> jhas ps (KStr ''__proto__'')) (kit (HostileStateKeyError ''__proto__''))"

definition spread :: "(pkey \<times> bool \<Rightarrow> bool) \<Rightarrow> (pkey, prop_value \<times> bool) jmap \<Rightarrow> (pkey, prop_value \<times> bool) jmap" where
  "spread taken ps = map (\<lambda>(k, v, e). (k, v, True)) (filter (\<lambda>(k, v, e). taken (k, e)) ps)"

definition shallowCopyOwned :: "nat \<Rightarrow> js_state \<Rightarrow> (js_error, js_state) res" where
  "shallowCopyOwned fresh s = (case s of
     SPrim v \<Rightarrow> Inr s
   | SObj obj \<Rightarrow>
       if obj_array obj
       then rbind (hostile_key (obj_props obj)) (\<lambda>_.
         Inr (SObj \<lparr>obj_id = fresh, obj_proto = OtherProto, obj_array = True,
           obj_props = spread (\<lambda>(k, e). is_index k \<or> e) (obj_props obj)\<rparr>))
       else if obj_proto obj = OtherProto then Inr s
       else rbind (hostile_key (obj_props obj)) (\<lambda>_.
         Inr (SObj \<lparr>obj_id = fresh, obj_proto = obj_proto obj, obj_array = False,
           obj_props = spread snd (obj_props obj)\<rparr>)))"

section \<open>The entity\<close>

type_synonym state_validator = "js_state \<Rightarrow> (js_error, unit) res"

text \<open>\<open>setState\<close>: copy, validate, and only then replace. The constructor does the same.\<close>

definition own_state :: "state_validator option \<Rightarrow> nat \<Rightarrow> js_state \<Rightarrow> (js_error, js_state) res" where
  "own_state validateState fresh newState =
     rbind (shallowCopyOwned fresh newState) (\<lambda>owned.
     rbind (case validateState of Some f \<Rightarrow> f owned | None \<Rightarrow> Inr ()) (\<lambda>_. Inr owned))"

definition new_entity :: "string option \<Rightarrow> js_state \<Rightarrow> state_validator option \<Rightarrow> nat
    \<Rightarrow> (js_error, string \<times> js_state) res" where
  "new_entity i initialState validateState fresh = (case i of
     None \<Rightarrow> Inl (PlainError ''Error'' None)
   | Some i \<Rightarrow> rbind (own_state validateState fresh initialState) (\<lambda>s. Inr (i, s)))"

section \<open>Collections of entities\<close>

text \<open>
  Entities are references (equality is identity) with an id. An operation that changes
  nothing returns the array it was given: \<open>Same\<close>.
\<close>

datatype 'a array_result = Same | Fresh "'a list"

fun array_of :: "'a list \<Rightarrow> 'a array_result \<Rightarrow> 'a list" where
  "array_of xs Same = xs"
| "array_of xs (Fresh ys) = ys"

definition sameEntity :: "('e \<Rightarrow> 'i) \<Rightarrow> 'e \<Rightarrow> 'e \<Rightarrow> bool" where
  "sameEntity idf a b \<longleftrightarrow> idf a = idf b"

definition findEntityById :: "('e \<Rightarrow> 'i) \<Rightarrow> 'e list \<Rightarrow> 'i \<Rightarrow> 'e option" where
  "findEntityById idf es i = List.find (\<lambda>e. idf e = i) es"

definition hasEntityId :: "('e \<Rightarrow> 'i) \<Rightarrow> 'e list \<Rightarrow> 'i \<Rightarrow> bool" where
  "hasEntityId idf es i = list_ex (\<lambda>e. idf e = i) es"

definition removeEntityById :: "('e \<Rightarrow> 'i) \<Rightarrow> 'e list \<Rightarrow> 'i \<Rightarrow> 'e array_result" where
  "removeEntityById idf es i =
     (let filtered = filter (\<lambda>e. idf e \<noteq> i) es
      in if length filtered = length es then Same else Fresh filtered)"

definition updateEntityById :: "('e \<Rightarrow> 'i) \<Rightarrow> 'e list \<Rightarrow> 'i \<Rightarrow> ('e \<Rightarrow> 'e) \<Rightarrow> 'e array_result" where
  "updateEntityById idf es i updater =
     (let changed = list_ex (\<lambda>e. idf e = i \<and> updater e \<noteq> e) es;
          mapped = map (\<lambda>e. if idf e \<noteq> i then e else updater e) es
      in if changed then Fresh mapped else Same)"

definition replaceEntityById :: "('e \<Rightarrow> 'i) \<Rightarrow> 'e list \<Rightarrow> 'i \<Rightarrow> 'e \<Rightarrow> 'e array_result" where
  "replaceEntityById idf es i replacement =
     (let changed = list_ex (\<lambda>e. idf e = i \<and> replacement \<noteq> e) es;
          mapped = map (\<lambda>e. if idf e \<noteq> i then e else replacement) es
      in if changed then Fresh mapped else Same)"

definition entityIds :: "('e \<Rightarrow> 'i) \<Rightarrow> 'e list \<Rightarrow> 'i list" where
  "entityIds idf es = map idf es"

lemma updateEntityById_array:
  "array_of es (updateEntityById idf es i f) = map (\<lambda>e. if idf e = i then f e else e) es"
proof (cases "list_ex (\<lambda>e. idf e = i \<and> f e \<noteq> e) es")
  case True
  then show ?thesis by (auto simp: updateEntityById_def Let_def)
next
  case False
  then have "map (\<lambda>e. if idf e = i then f e else e) es = es"
    by (intro map_idI) (auto simp: list_ex_iff)
  with False show ?thesis by (auto simp: updateEntityById_def Let_def)
qed

lemma removeEntityById_array: "array_of es (removeEntityById idf es i) = filter (\<lambda>e. idf e \<noteq> i) es"
proof (cases "\<forall>e \<in> set es. idf e \<noteq> i")
  case True
  then have "filter (\<lambda>e. idf e \<noteq> i) es = es" by (simp add: filter_id_conv)
  then show ?thesis by (simp add: removeEntityById_def Let_def)
next
  case False
  then have "length (filter (\<lambda>e. idf e \<noteq> i) es) < length es" by (auto intro: length_filter_less)
  then show ?thesis by (simp add: removeEntityById_def Let_def)
qed

lemma removeEntityById_same: "removeEntityById idf es i = Same \<longleftrightarrow> i \<notin> set (entityIds idf es)"
proof (cases "\<forall>e \<in> set es. idf e \<noteq> i")
  case True
  then have "filter (\<lambda>e. idf e \<noteq> i) es = es" by (simp add: filter_id_conv)
  then show ?thesis using True by (auto simp: removeEntityById_def Let_def entityIds_def)
next
  case False
  then have "length (filter (\<lambda>e. idf e \<noteq> i) es) < length es" by (auto intro: length_filter_less)
  then show ?thesis using False by (auto simp: removeEntityById_def Let_def entityIds_def)
qed

lemma replaceEntityById_array:
  "array_of es (replaceEntityById idf es i r) = map (\<lambda>e. if idf e = i then r else e) es"
  using updateEntityById_array[of es idf i "\<lambda>_. r"]
  by (simp add: replaceEntityById_def updateEntityById_def)

lemma findEntityById_simps [simp]:
  "findEntityById idf [] i = None"
  "findEntityById idf (e # es) i = (if idf e = i then Some e else findEntityById idf es i)"
  by (simp_all add: findEntityById_def)

lemma findEntityById_None: "findEntityById idf es i = None \<longleftrightarrow> i \<notin> set (entityIds idf es)"
  by (induction es) (auto simp: entityIds_def)

lemma hasEntityId_find: "hasEntityId idf es i \<longleftrightarrow> findEntityById idf es i \<noteq> None"
  by (induction es) (auto simp: hasEntityId_def)

lemma findEntityById_map:
  assumes "\<And>e. idf e = i \<Longrightarrow> idf (f e) = i"
  shows "findEntityById idf (map (\<lambda>e. if idf e = i then f e else e) es) j =
    (if j = i then map_option f (findEntityById idf es j) else findEntityById idf es j)"
  using assms by (induction es) auto

lemma findEntityById_filter:
  "findEntityById idf (filter (\<lambda>e. idf e \<noteq> i) es) j = (if j = i then None else findEntityById idf es j)"
  by (induction es) auto

text \<open>
  The collection helpers implement a map keyed by id: the updated, replaced or removed
  element is what a lookup of that id finds afterwards, every other id finds what it found
  before, and removing an absent id, or an update that changes no element, returns the very
  array it was given.
\<close>

theorem entity_collection_is_a_map:
  assumes "\<forall>e. idf (f e) = idf e" and "idf r = i"
  shows "findEntityById idf (array_of es (updateEntityById idf es i f)) j =
      (if j = i then map_option f (findEntityById idf es j) else findEntityById idf es j) \<and>
    findEntityById idf (array_of es (replaceEntityById idf es i r)) j =
      (if j = i \<and> hasEntityId idf es i then Some r else findEntityById idf es j) \<and>
    findEntityById idf (array_of es (removeEntityById idf es i)) j =
      (if j = i then None else findEntityById idf es j) \<and>
    (removeEntityById idf es i = Same \<longleftrightarrow> \<not> hasEntityId idf es i) \<and>
    (updateEntityById idf es i f = Same \<longleftrightarrow> (\<forall>e \<in> set es. idf e = i \<longrightarrow> f e = e)) \<and>
    entityIds idf (array_of es (updateEntityById idf es i f)) = entityIds idf es"
proof (intro conjI)
  show "findEntityById idf (array_of es (updateEntityById idf es i f)) j =
      (if j = i then map_option f (findEntityById idf es j) else findEntityById idf es j)"
    unfolding updateEntityById_array by (rule findEntityById_map) (simp add: assms(1))
  show "findEntityById idf (array_of es (replaceEntityById idf es i r)) j =
      (if j = i \<and> hasEntityId idf es i then Some r else findEntityById idf es j)"
    unfolding replaceEntityById_array using findEntityById_map[of idf i "\<lambda>_. r" es j] assms(2)
    by (auto simp: hasEntityId_find)
  show "findEntityById idf (array_of es (removeEntityById idf es i)) j =
      (if j = i then None else findEntityById idf es j)"
    unfolding removeEntityById_array by (rule findEntityById_filter)
  show "removeEntityById idf es i = Same \<longleftrightarrow> \<not> hasEntityId idf es i"
    by (simp add: removeEntityById_same hasEntityId_find findEntityById_None)
  show "updateEntityById idf es i f = Same \<longleftrightarrow> (\<forall>e \<in> set es. idf e = i \<longrightarrow> f e = e)"
    by (auto simp: updateEntityById_def Let_def list_ex_iff)
  show "entityIds idf (array_of es (updateEntityById idf es i f)) = entityIds idf es"
    unfolding updateEntityById_array by (simp add: entityIds_def assms(1))
qed

theorem entity_collection_witness:
  "findEntityById fst (array_of [(1, ''a''), (2, ''b'')] (updateEntityById fst [(1, ''a''), (2, ''b'')] 2 (\<lambda>(i, s). (i, ''c''))))
     (2 :: nat) = Some (2, ''c'')"
proof -
  have "\<forall>e. fst ((\<lambda>(i, s). (i, ''c'')) e) = fst (e :: nat \<times> string)" by auto
  from entity_collection_is_a_map[of fst, OF this, of "(2, ''r'')" 2 "[(1, ''a''), (2, ''b'')]" 2]
  show ?thesis by simp
qed

end
