(* ===== verification/Aggregates.thy ===== *)
theory Aggregates
  imports Entity
begin

text \<open>
  Aggregates (src/aggregate/base-aggregate.ts, aggregate-root.ts, event-sourced-aggregate.ts):
  the version bookkeeping and pending events every aggregate has, the state-based root with
  its baseline, and the event-sourced aggregate with application and replay. The hooks an
  application overrides are parameters. An operation that can throw after a change returns
  the aggregate next to its result.
\<close>

section \<open>The base aggregate\<close>

record 'p aggregate =
  ag_id :: string
  ag_type :: string
  ag_state :: js_state
  version :: nat
  persistedVersion :: "nat option"
  pendingEvents :: "'p domain_event list"

definition new_aggregate :: "string option \<Rightarrow> string \<Rightarrow> js_state \<Rightarrow> state_validator option \<Rightarrow> nat
    \<Rightarrow> (js_error, 'p aggregate) res" where
  "new_aggregate i t initialState validateState fresh =
     rbind (new_entity i initialState validateState fresh) (\<lambda>(i, s).
     Inr \<lparr>ag_id = i, ag_type = t, ag_state = s, version = 0, persistedVersion = None, pendingEvents = []\<rparr>)"

text \<open>The persistence capability: what \<open>withCommit\<close> may do to an aggregate.\<close>

definition acknowledge :: "nat \<Rightarrow> ('p, 'z) aggregate_scheme \<Rightarrow> ('p, 'z) aggregate_scheme" where
  "acknowledge v a = a\<lparr>version := v, persistedVersion := Some v, pendingEvents := []\<rparr>"

definition discardPendingEvents :: "('p, 'z) aggregate_scheme \<Rightarrow> ('p, 'z) aggregate_scheme" where
  "discardPendingEvents a = a\<lparr>pendingEvents := []\<rparr>"

definition setVersion :: "nat \<Rightarrow> ('p, 'z) aggregate_scheme \<Rightarrow> ('p, 'z) aggregate_scheme" where
  "setVersion v a = a\<lparr>version := v\<rparr>"

definition bumpVersion :: "('p, 'z) aggregate_scheme \<Rightarrow> ('p, 'z) aggregate_scheme" where
  "bumpVersion a = setVersion (version a + 1) a"

definition markRestored :: "nat \<Rightarrow> ('p, 'z) aggregate_scheme \<Rightarrow> ('p, 'z) aggregate_scheme" where
  "markRestored v a = (setVersion v a)\<lparr>persistedVersion := Some v\<rparr>"

definition assertMintedEvent :: "'p domain_event \<Rightarrow> (js_error, unit) res" where
  "assertMintedEvent e = guard_res (isMintedEvent e) (kit (UnmintedEventError (event_type e)))"

definition addDomainEvent :: "'p domain_event \<Rightarrow> ('p, 'z) aggregate_scheme
    \<Rightarrow> (js_error, ('p, 'z) aggregate_scheme) res" where
  "addDomainEvent e a = rbind (assertMintedEvent e) (\<lambda>_. Inr (a\<lparr>pendingEvents := pendingEvents a @ [e]\<rparr>))"

text \<open>The factory stamps the address of the aggregate over whatever the options hold.\<close>

definition recordEvent :: "(ev_data, 'z) aggregate_scheme \<Rightarrow> string \<Rightarrow> ev_data \<Rightarrow> event_options \<Rightarrow> string
    \<Rightarrow> js_num option \<Rightarrow> (js_error, ev_data domain_event) res" where
  "recordEvent a type pl options newId clock = mintDomainEvent type pl
     (options\<lparr>opt_aggregateId := Some (ag_id a), opt_aggregateType := Some (ag_type a)\<rparr>) newId clock"

definition assertRestoreTargetHasNoPendingEvents :: "('p, 'z) aggregate_scheme \<Rightarrow> (js_error, unit) res" where
  "assertRestoreTargetHasNoPendingEvents a =
     guard_res (pendingEvents a = []) (kit (UnreplayableAggregateError (ag_id a)))"

section \<open>Snapshots\<close>

record 'z agg_snapshot =
  sn_state :: 'z
  sn_version :: nat
  sn_at :: js_num
  sn_schemaVersion :: "nat option"

text \<open>The snapshot hooks of an aggregate class; \<open>migrate\<close> is the override, if any.\<close>

record 'z snapshot_hooks =
  toSnapshotState :: "js_state \<Rightarrow> (js_error, 'z) res"
  fromSnapshotState :: "'z \<Rightarrow> (js_error, js_state) res"
  snapshotSchemaVersion :: nat
  migrate :: "('z \<Rightarrow> nat \<Rightarrow> (js_error, 'z) res) option"

definition createSnapshot :: "'z snapshot_hooks \<Rightarrow> (js_error, js_num) res \<Rightarrow> ('p, 'y) aggregate_scheme
    \<Rightarrow> (js_error, 'z agg_snapshot) res" where
  "createSnapshot hooks now a = rbind (toSnapshotState hooks (ag_state a)) (\<lambda>s. rbind now (\<lambda>t.
     Inr \<lparr>sn_state = s, sn_version = version a, sn_at = t, sn_schemaVersion = Some (snapshotSchemaVersion hooks)\<rparr>))"

definition migrateSnapshotState :: "'z snapshot_hooks \<Rightarrow> ('p, 'y) aggregate_scheme \<Rightarrow> 'z \<Rightarrow> nat \<Rightarrow> (js_error, 'z) res" where
  "migrateSnapshotState hooks a stored v = (case migrate hooks of
     Some f \<Rightarrow> f stored v
   | None \<Rightarrow> Inl (kit (SnapshotSchemaMismatchError (ag_type a) (ag_id a) (snapshotSchemaVersion hooks) v)))"

definition resolveSnapshotState :: "'z snapshot_hooks \<Rightarrow> ('p, 'y) aggregate_scheme \<Rightarrow> 'z agg_snapshot \<Rightarrow> (js_error, 'z) res" where
  "resolveSnapshotState hooks a snap =
     (let stored = (case sn_schemaVersion snap of Some v \<Rightarrow> v | None \<Rightarrow> 1)
      in if stored = snapshotSchemaVersion hooks then Inr (sn_state snap)
         else migrateSnapshotState hooks a (sn_state snap) stored)"

section \<open>The state-based root\<close>

record 'p aggregate_root = "'p aggregate" +
  baselineState :: "js_state option"

definition new_root :: "string option \<Rightarrow> string \<Rightarrow> js_state \<Rightarrow> state_validator option \<Rightarrow> nat
    \<Rightarrow> (js_error, 'p aggregate_root) res" where
  "new_root i t initialState validateState fresh =
     rbind (new_entity i initialState validateState fresh) (\<lambda>(i, s).
     Inr \<lparr>ag_id = i, ag_type = t, ag_state = s, version = 0, persistedVersion = None, pendingEvents = [],
       baselineState = None\<rparr>)"

definition captureBaseline :: "'p aggregate_root \<Rightarrow> 'p aggregate_root" where
  "captureBaseline a = a\<lparr>baselineState := Some (ag_state a)\<rparr>"

definition root_acknowledge :: "nat \<Rightarrow> 'p aggregate_root \<Rightarrow> 'p aggregate_root" where
  "root_acknowledge v a = captureBaseline (acknowledge v a)"

definition root_markRestored :: "nat \<Rightarrow> 'p aggregate_root \<Rightarrow> 'p aggregate_root" where
  "root_markRestored v a = captureBaseline (markRestored v a)"

fun ownKeys :: "js_state \<Rightarrow> string list" where
  "ownKeys (SObj obj) = enumerable_names (obj_props obj)"
| "ownKeys (SPrim v) = []"

fun state_read :: "js_state \<Rightarrow> string \<Rightarrow> prop_value" where
  "state_read (SObj obj) k = js_read obj k"
| "state_read (SPrim v) k = PUndef"

definition computeChangedKeys :: "js_state \<Rightarrow> js_state \<Rightarrow> string list" where
  "computeChangedKeys baseline current = remdups
     (filter (\<lambda>k. k \<notin> set (ownKeys baseline) \<or>
                  \<not> strict_equal (state_read baseline k) (state_read current k)) (ownKeys current) @
      filter (\<lambda>k. k \<notin> set (ownKeys current)) (ownKeys baseline))"

definition changedKeys :: "'p aggregate_root \<Rightarrow> string list" where
  "changedKeys a = (case baselineState a of
     None \<Rightarrow> remdups (ownKeys (ag_state a))
   | Some b \<Rightarrow> computeChangedKeys b (ag_state a))"

definition hasChanges :: "'p aggregate_root \<Rightarrow> bool" where
  "hasChanges a = (case baselineState a of
     None \<Rightarrow> True
   | Some b \<Rightarrow>
       persistedVersion a \<noteq> Some (version a) \<or> 0 < length (pendingEvents a) \<or> changedKeys a \<noteq> [] \<or>
       (\<not> strict_equal (state_identity b) (state_identity (ag_state a)) \<and>
        ownKeys b = [] \<and> ownKeys (ag_state a) = []))"

definition setStateWithoutVersionBump :: "state_validator option \<Rightarrow> nat \<Rightarrow> js_state \<Rightarrow> 'p aggregate_root
    \<Rightarrow> (js_error, 'p aggregate_root) res" where
  "setStateWithoutVersionBump validateState fresh s a =
     rbind (own_state validateState fresh s) (\<lambda>owned. Inr (a\<lparr>ag_state := owned\<rparr>))"

definition root_setState :: "state_validator option \<Rightarrow> nat \<Rightarrow> js_state \<Rightarrow> 'p aggregate_root
    \<Rightarrow> (js_error, 'p aggregate_root) res" where
  "root_setState validateState fresh s a =
     rbind (setStateWithoutVersionBump validateState fresh s a) (\<lambda>a. Inr (bumpVersion a))"

fun addDomainEvents :: "'p domain_event list \<Rightarrow> 'p aggregate_root \<Rightarrow> (js_error, unit) res \<times> 'p aggregate_root" where
  "addDomainEvents [] a = (Inr (), a)"
| "addDomainEvents (e # es) a = (case addDomainEvent e a of Inl x \<Rightarrow> (Inl x, a) | Inr a' \<Rightarrow> addDomainEvents es a')"

definition commit :: "state_validator option \<Rightarrow> nat \<Rightarrow> js_state \<Rightarrow> 'p domain_event list \<Rightarrow> 'p aggregate_root
    \<Rightarrow> (js_error, unit) res \<times> 'p aggregate_root" where
  "commit validateState fresh newState events a = (case all_res assertMintedEvent events of
     Inl e \<Rightarrow> (Inl e, a)
   | Inr _ \<Rightarrow> (case root_setState validateState fresh newState a of
       Inl e \<Rightarrow> (Inl e, a)
     | Inr a' \<Rightarrow> addDomainEvents events a'))"

definition restoreFromSnapshot :: "'z snapshot_hooks \<Rightarrow> state_validator option \<Rightarrow> nat \<Rightarrow> 'z agg_snapshot
    \<Rightarrow> 'p aggregate_root \<Rightarrow> (js_error, 'p aggregate_root) res" where
  "restoreFromSnapshot hooks validateState fresh snap a =
     rbind (assertRestoreTargetHasNoPendingEvents a) (\<lambda>_.
     rbind (resolveSnapshotState hooks a snap) (\<lambda>z.
     rbind (fromSnapshotState hooks z) (\<lambda>restored.
     rbind (setStateWithoutVersionBump validateState fresh restored a) (\<lambda>a.
     Inr (root_markRestored (sn_version snap) a)))))"

section \<open>The event-sourced aggregate\<close>

text \<open>The hooks of an event-sourced class, its handlers by event type.\<close>

record 'p es_hooks =
  validateEvent :: "'p aggregate \<Rightarrow> 'p domain_event \<Rightarrow> (js_error, unit) res"
  validateRestoredState :: "js_state \<Rightarrow> (js_error, unit) res"
  handlers :: "(string, js_state \<Rightarrow> 'p domain_event \<Rightarrow> (js_error, js_state) res) jmap"

definition foreign_address :: "'p aggregate \<Rightarrow> 'p domain_event \<Rightarrow> bool" where
  "foreign_address a e \<longleftrightarrow>
     (case ev_aggregateId e of Some i \<Rightarrow> i \<noteq> ag_id a | None \<Rightarrow> False) \<or>
     (case ev_aggregateType e of Some t \<Rightarrow> t \<noteq> ag_type a | None \<Rightarrow> False)"

definition stampNewEventAddress :: "'p aggregate \<Rightarrow> 'p domain_event \<Rightarrow> (js_error, 'p domain_event) res" where
  "stampNewEventAddress a e =
     rbind (assertMintedEvent e) (\<lambda>_.
     if foreign_address a e
     then Inl (kit (MisaddressedEventError (ag_id a) (ag_type a) (event_type e) (ev_aggregateId e) (ev_aggregateType e)))
     else if ev_aggregateId e \<noteq> None \<and> ev_aggregateType e \<noteq> None then Inr e
     else Inr (adoptMintedEvent (e\<lparr>ev_aggregateId := Some (ag_id a), ev_aggregateType := Some (ag_type a)\<rparr>)))"

definition assertReplayedEventBelongsHere :: "'p aggregate \<Rightarrow> 'p domain_event \<Rightarrow> (js_error, unit) res" where
  "assertReplayedEventBelongsHere a e = guard_res (\<not> foreign_address a e)
     (kit (ForeignEventError (ag_id a) (ag_type a) (event_type e) (ev_aggregateId e) (ev_aggregateType e)))"

definition dispatch :: "'p es_hooks \<Rightarrow> 'p domain_event \<Rightarrow> 'p aggregate \<Rightarrow> (js_error, 'p aggregate) res" where
  "dispatch h e a = (case jget (handlers h) (event_type e) of
     None \<Rightarrow> Inl (kit (MissingHandlerError (event_type e)))
   | Some f \<Rightarrow> rbind (f (ag_state a) e) (\<lambda>s. Inr (a\<lparr>ag_state := s\<rparr>)))"

definition apply_event :: "'p es_hooks \<Rightarrow> 'p domain_event \<Rightarrow> 'p aggregate \<Rightarrow> (js_error, 'p aggregate) res" where
  "apply_event h e a =
     rbind (stampNewEventAddress a e) (\<lambda>stamped.
     rbind (validateEvent h a stamped) (\<lambda>_.
     rbind (dispatch h stamped a) (\<lambda>a.
     rbind (addDomainEvent stamped a) (\<lambda>a. Inr (bumpVersion a)))))"

text \<open>
  Replay throws, or returns a \<open>Result\<close>: \<open>Inr None\<close> is \<open>ok()\<close>, \<open>Inr (Some e)\<close> is
  \<open>err(e)\<close>, for a domain error only.
\<close>

fun is_domain_error :: "js_error \<Rightarrow> bool" where
  "is_domain_error (KitError k _) \<longleftrightarrow> category_of k = DOMAIN"
| "is_domain_error (UserError c _ _) \<longleftrightarrow> c = DOMAIN"
| "is_domain_error _ = False"

fun is_corrupted :: "js_error \<Rightarrow> bool" where
  "is_corrupted (KitError SnapshotCorruptedError _) = True"
| "is_corrupted _ = False"

type_synonym replay_result = "(js_error, js_error option) res"

definition replay_event :: "'p es_hooks \<Rightarrow> 'p domain_event \<Rightarrow> 'p aggregate \<Rightarrow> (js_error, 'p aggregate) res" where
  "replay_event h e a = rbind (assertReplayedEventBelongsHere a e) (\<lambda>_. dispatch h e a)"

definition assertReplayTargetHasNoUnpersistedVersion :: "'p aggregate \<Rightarrow> (js_error, unit) res" where
  "assertReplayTargetHasNoUnpersistedVersion a =
     guard_res (\<not> (0 < version a \<and> persistedVersion a = None)) (kit (UnreplayableAggregateError (ag_id a)))"

definition loadFromHistory :: "'p es_hooks \<Rightarrow> 'p domain_event list \<Rightarrow> 'p aggregate \<Rightarrow> replay_result \<times> 'p aggregate" where
  "loadFromHistory h history a =
     (case rbind (assertRestoreTargetHasNoPendingEvents a) (\<lambda>_. assertReplayTargetHasNoUnpersistedVersion a) of
        Inl e \<Rightarrow> (Inl e, a)
      | Inr _ \<Rightarrow>
          if history = [] then (Inr None, a)
          else case fold_res (replay_event h) history a of
            Inl e \<Rightarrow> (if is_domain_error e then Inr (Some e) else Inl e, a)
          | Inr a' \<Rightarrow> (Inr None, markRestored (version a + length history) a'))"

definition restoreFromSnapshotWithEvents :: "'p es_hooks \<Rightarrow> 'z snapshot_hooks \<Rightarrow> 'z agg_snapshot
    \<Rightarrow> 'p domain_event list \<Rightarrow> 'p aggregate \<Rightarrow> replay_result \<times> 'p aggregate" where
  "restoreFromSnapshotWithEvents h hooks snap eventsAfter a =
     (case assertRestoreTargetHasNoPendingEvents a of
        Inl e \<Rightarrow> (Inl e, a)
      | Inr _ \<Rightarrow>
          (case rbind (resolveSnapshotState hooks a snap) (\<lambda>z.
                rbind (fromSnapshotState hooks z) (\<lambda>restored.
                rbind (validateRestoredState h restored) (\<lambda>_. Inr restored))) of
             Inl e \<Rightarrow> (if is_domain_error e \<or> is_corrupted e then Inr (Some e) else Inl e, a)
           | Inr restored \<Rightarrow>
               (case fold_res (replay_event h) eventsAfter (setVersion (sn_version snap) (a\<lparr>ag_state := restored\<rparr>)) of
                  Inl e \<Rightarrow> (if is_domain_error e then Inr (Some e) else Inl e, a)
                | Inr a' \<Rightarrow> (Inr None, markRestored (sn_version snap + length eventsAfter) a'))))"

section \<open>Application and replay\<close>

lemma dispatch_Inr:
  "dispatch h e a = Inr a' \<Longrightarrow> \<exists>s. a' = a\<lparr>ag_state := s\<rparr>"
  by (auto simp: dispatch_def split: option.splits)

lemma dispatch_state:
  assumes "ag_state b = ag_state a"
  shows "dispatch h e b = (case dispatch h e a of Inl x \<Rightarrow> Inl x | Inr a' \<Rightarrow> Inr (b\<lparr>ag_state := ag_state a'\<rparr>))"
proof (cases "jget (handlers h) (event_type e)")
  case (Some f)
  then show ?thesis by (cases "f (ag_state a) e") (simp_all add: dispatch_def assms)
qed (simp add: dispatch_def)

text \<open>The event an application stamps is minted and carries the address of the aggregate.\<close>

definition own_event :: "'p aggregate \<Rightarrow> 'p domain_event \<Rightarrow> bool" where
  "own_event a e \<longleftrightarrow> isMintedEvent e \<and> ev_aggregateId e = Some (ag_id a) \<and> ev_aggregateType e = Some (ag_type a)"

lemma stamp_own: "stampNewEventAddress a e = Inr s \<Longrightarrow> own_event a s"
  by (auto simp: stampNewEventAddress_def assertMintedEvent_def foreign_address_def own_event_def
      isMintedEvent_def adoptMintedEvent_def split: if_splits option.splits)

lemma own_not_foreign: "own_event a e \<Longrightarrow> \<not> foreign_address a e"
  by (simp add: own_event_def foreign_address_def)

lemma apply_event_Inr:
  assumes "apply_event h e a = Inr a'"
  shows "\<exists>s d. stampNewEventAddress a e = Inr s \<and> own_event a s \<and> dispatch h s a = Inr d \<and>
    a' = d\<lparr>pendingEvents := pendingEvents a @ [s], version := version a + 1\<rparr>"
proof -
  from assms obtain s d b where s: "stampNewEventAddress a e = Inr s" and d: "dispatch h s a = Inr d"
    and b: "addDomainEvent s d = Inr b" and a': "a' = bumpVersion b"
    by (auto simp: apply_event_def)
  from dispatch_Inr[OF d] obtain x where x: "d = a\<lparr>ag_state := x\<rparr>" by blast
  with b have "b = d\<lparr>pendingEvents := pendingEvents a @ [s]\<rparr>" by (auto simp: addDomainEvent_def)
  with a' x have "a' = d\<lparr>pendingEvents := pendingEvents a @ [s], version := version a + 1\<rparr>"
    by (simp add: bumpVersion_def setVersion_def)
  with s d stamp_own[OF s] show ?thesis by blast
qed

text \<open>Replay reads the state and the address only.\<close>

lemma replay_event_state:
  assumes "ag_state c = ag_state b" "ag_id c = ag_id b" "ag_type c = ag_type b"
  shows "replay_event h e c = (case replay_event h e b of Inl x \<Rightarrow> Inl x | Inr b' \<Rightarrow> Inr (c\<lparr>ag_state := ag_state b'\<rparr>))"
proof -
  have "assertReplayedEventBelongsHere c e = assertReplayedEventBelongsHere b e"
    by (simp add: assertReplayedEventBelongsHere_def foreign_address_def assms(2,3) split: option.split)
  then show ?thesis
    using dispatch_state[OF assms(1)]
    by (cases "assertReplayedEventBelongsHere b e") (simp_all add: replay_event_def)
qed

lemma replay_event_Inr: "replay_event h e a = Inr a' \<Longrightarrow> \<exists>s. a' = a\<lparr>ag_state := s\<rparr>"
  by (auto simp: replay_event_def dest: dispatch_Inr)

lemma replay_events_Inr: "fold_res (replay_event h) es a = Inr a' \<Longrightarrow> \<exists>s. a' = a\<lparr>ag_state := s\<rparr>"
proof (induction es arbitrary: a)
  case Nil
  then show ?case by (intro exI[of _ "ag_state a"]) simp
next
  case (Cons e es)
  then obtain b where b: "replay_event h e a = Inr b" "fold_res (replay_event h) es b = Inr a'" by auto
  from replay_event_Inr[OF b(1)] Cons.IH[OF b(2)] show ?case by auto
qed

lemma replay_events_state:
  assumes "ag_state c = ag_state b" "ag_id c = ag_id b" "ag_type c = ag_type b"
  shows "fold_res (replay_event h) es c = (case fold_res (replay_event h) es b of
    Inl x \<Rightarrow> Inl x | Inr b' \<Rightarrow> Inr (c\<lparr>ag_state := ag_state b'\<rparr>))"
  using assms
proof (induction es arbitrary: b c)
  case (Cons e es)
  show ?case
  proof (cases "replay_event h e b")
    case (Inr b1)
    with replay_event_state[OF Cons.prems, of h e]
    have c1: "replay_event h e c = Inr (c\<lparr>ag_state := ag_state b1\<rparr>)" by simp
    from replay_event_Inr[OF Inr] obtain y where y: "b1 = b\<lparr>ag_state := y\<rparr>" by blast
    with Cons.IH[of "c\<lparr>ag_state := ag_state b1\<rparr>" b1] Cons.prems Inr c1 show ?thesis
      by (simp split: sum.split)
  qed (use replay_event_state[OF Cons.prems, of h e] in simp)
qed simp

text \<open>What applying a list of events did, in terms of the events it added.\<close>

lemma apply_events_effect:
  assumes "fold_res (apply_event h) es a = Inr a'"
  shows "\<exists>new. pendingEvents a' = pendingEvents a @ new \<and> length new = length es \<and>
    version a' = version a + length es \<and> persistedVersion a' = persistedVersion a \<and>
    ag_id a' = ag_id a \<and> ag_type a' = ag_type a \<and> (\<forall>e \<in> set new. own_event a e) \<and>
    fold_res (replay_event h) new a = Inr (a\<lparr>ag_state := ag_state a'\<rparr>)"
  using assms
proof (induction es arbitrary: a)
  case Nil
  then show ?case by (auto intro!: exI[of _ "[]"])
next
  case (Cons e es)
  from Cons.prems obtain b where b: "apply_event h e a = Inr b" "fold_res (apply_event h) es b = Inr a'" by auto
  from apply_event_Inr[OF b(1)] obtain s d where s: "own_event a s" "dispatch h s a = Inr d"
    and bd: "b = d\<lparr>pendingEvents := pendingEvents a @ [s], version := version a + 1\<rparr>" by blast
  from dispatch_Inr[OF s(2)] obtain x where x: "d = a\<lparr>ag_state := x\<rparr>" by blast
  from Cons.IH[OF b(2)] obtain new where new: "pendingEvents a' = pendingEvents b @ new" "length new = length es"
    "version a' = version b + length es" "persistedVersion a' = persistedVersion b" "ag_id a' = ag_id b"
    "ag_type a' = ag_type b" "\<forall>e \<in> set new. own_event b e"
    "fold_res (replay_event h) new b = Inr (b\<lparr>ag_state := ag_state a'\<rparr>)" by blast
  have "fold_res (replay_event h) new d = Inr (d\<lparr>ag_state := ag_state a'\<rparr>)"
    using replay_events_state[of d b h new] new(8) bd x by simp
  moreover have "replay_event h s a = Inr d"
    using s own_not_foreign[OF s(1)] by (simp add: replay_event_def assertReplayedEventBelongsHere_def)
  ultimately have "fold_res (replay_event h) (s # new) a = Inr (a\<lparr>ag_state := ag_state a'\<rparr>)" using x by simp
  moreover have "\<forall>e \<in> set (s # new). own_event a e" using s(1) new(7) bd x by (simp add: own_event_def)
  ultimately show ?case using new bd x by (intro exI[of _ "s # new"]) simp
qed

text \<open>
  C16. Replay is the inverse of application: after applying events to a loaded (or new)
  aggregate, replaying the events it recorded over the original gives exactly the aggregate
  the persistence layer acknowledges: the same state and version, persisted, nothing pending.
\<close>

theorem replay_equals_apply:
  assumes "fold_res (apply_event h) es a = Inr a'" and "es \<noteq> []"
    and "pendingEvents a = []" and "version a = 0 \<or> persistedVersion a \<noteq> None"
  shows "loadFromHistory h (pendingEvents a') a = (Inr None, acknowledge (version a') a')"
proof -
  from apply_events_effect[OF assms(1)] assms(3) have e:
    "length (pendingEvents a') = length es" "version a' = version a + length es"
    "ag_id a' = ag_id a" "ag_type a' = ag_type a"
    "fold_res (replay_event h) (pendingEvents a') a = Inr (a\<lparr>ag_state := ag_state a'\<rparr>)" by auto
  have "pendingEvents a' \<noteq> []" using e(1) assms(2) by auto
  moreover have "assertReplayTargetHasNoUnpersistedVersion a = Inr ()" "assertRestoreTargetHasNoPendingEvents a = Inr ()"
    using assms(3,4) by (auto simp: assertReplayTargetHasNoUnpersistedVersion_def assertRestoreTargetHasNoPendingEvents_def)
  ultimately have "loadFromHistory h (pendingEvents a') a =
      (Inr None, markRestored (version a + length es) (a\<lparr>ag_state := ag_state a'\<rparr>))"
    using e by (simp add: loadFromHistory_def)
  moreover have "markRestored (version a + length es) (a\<lparr>ag_state := ag_state a'\<rparr>) = acknowledge (version a') a'"
    using e assms(3) by (simp add: markRestored_def setVersion_def acknowledge_def)
  ultimately show ?thesis by simp
qed

lemma load_failed:
  assumes "fst (loadFromHistory h es a) \<noteq> Inr None"
  shows "snd (loadFromHistory h es a) = a"
    and "fst (loadFromHistory h es a) = Inr (Some e) \<Longrightarrow> is_domain_error e"
  using assms by (auto simp: loadFromHistory_def split: sum.splits if_splits)

lemma load_empty: "snd (loadFromHistory h [] a) = a"
  by (simp add: loadFromHistory_def split: sum.split)

lemma restore_failed:
  assumes "fst (restoreFromSnapshotWithEvents h hooks snap es a) \<noteq> Inr None"
  shows "snd (restoreFromSnapshotWithEvents h hooks snap es a) = a"
    and "fst (restoreFromSnapshotWithEvents h hooks snap es a) = Inr (Some e) \<Longrightarrow> is_domain_error e \<or> is_corrupted e"
  using assms by (auto simp: restoreFromSnapshotWithEvents_def split: sum.splits if_splits)

text \<open>
  Restoring is all or nothing: when a replay or a snapshot restore does not return
  \<open>ok()\<close>, by a throw or by a returned error, state, version and pending events are the ones
  before, and only domain errors and corrupted snapshots are returned.
\<close>

theorem failed_restore_changes_nothing:
  assumes "fst (loadFromHistory h es a) \<noteq> Inr None"
    and "fst (restoreFromSnapshotWithEvents h hooks snap es b) \<noteq> Inr None"
  shows "snd (loadFromHistory h es a) = a \<and> snd (restoreFromSnapshotWithEvents h hooks snap es b) = b \<and>
    (\<forall>e. fst (loadFromHistory h es a) = Inr (Some e) \<longrightarrow> is_domain_error e) \<and>
    (\<forall>e. fst (restoreFromSnapshotWithEvents h hooks snap es b) = Inr (Some e) \<longrightarrow>
      is_domain_error e \<or> is_corrupted e)"
  using load_failed[OF assms(1)] restore_failed[OF assms(2)] by blast


section \<open>The version as the token of optimistic concurrency\<close>

datatype ('p, 'z) es_op =
    ApplyEvent "'p domain_event"
  | LoadHistory "'p domain_event list"
  | RestoreSnapshot "'z agg_snapshot" "'p domain_event list"
  | Acknowledge nat

fun run_es_op :: "'p es_hooks \<Rightarrow> 'z snapshot_hooks \<Rightarrow> ('p, 'z) es_op \<Rightarrow> 'p aggregate \<Rightarrow> 'p aggregate" where
  "run_es_op h hooks (ApplyEvent e) a = (case apply_event h e a of Inl x \<Rightarrow> a | Inr a' \<Rightarrow> a')"
| "run_es_op h hooks (LoadHistory es) a = snd (loadFromHistory h es a)"
| "run_es_op h hooks (RestoreSnapshot snap es) a = snd (restoreFromSnapshotWithEvents h hooks snap es a)"
| "run_es_op h hooks (Acknowledge v) a = acknowledge v a"

definition es_ok :: "'p aggregate \<Rightarrow> bool" where
  "es_ok a \<longleftrightarrow> version a = (case persistedVersion a of Some v \<Rightarrow> v | None \<Rightarrow> 0) + length (pendingEvents a) \<and>
     (\<forall>e \<in> set (pendingEvents a). own_event a e)"

lemma es_ok_restored: "pendingEvents a = [] \<Longrightarrow> es_ok (markRestored v a)"
  by (simp add: es_ok_def markRestored_def setVersion_def)

lemma loaded_pending: "loadFromHistory h es a = (Inr None, a') \<Longrightarrow> es \<noteq> [] \<Longrightarrow>
    \<exists>s. pendingEvents a = [] \<and> a' = markRestored (version a + length es) (a\<lparr>ag_state := s\<rparr>)"
  by (auto simp: loadFromHistory_def assertRestoreTargetHasNoPendingEvents_def dest!: replay_events_Inr
      split: sum.splits if_splits)

lemma restored_pending: "restoreFromSnapshotWithEvents h hooks snap es a = (Inr None, a') \<Longrightarrow>
    \<exists>s. pendingEvents a = [] \<and> a' = markRestored (sn_version snap + length es) (a\<lparr>version := sn_version snap, ag_state := s\<rparr>)"
  by (auto simp: restoreFromSnapshotWithEvents_def assertRestoreTargetHasNoPendingEvents_def setVersion_def
      dest!: replay_events_Inr split: sum.splits if_splits)

lemma run_es_op_kept:
  assumes "es_ok a"
  shows "es_ok (run_es_op h hooks op a) \<and> ag_id (run_es_op h hooks op a) = ag_id a \<and>
    ag_type (run_es_op h hooks op a) = ag_type a"
proof (cases op)
  case (ApplyEvent e)
  show ?thesis
  proof (cases "apply_event h e a")
    case (Inr a')
    from apply_event_Inr[OF this] obtain s d where s: "own_event a s" "dispatch h s a = Inr d"
      and a': "a' = d\<lparr>pendingEvents := pendingEvents a @ [s], version := version a + 1\<rparr>" by blast
    from dispatch_Inr[OF s(2)] a' obtain x where
      x: "a' = a\<lparr>ag_state := x, pendingEvents := pendingEvents a @ [s], version := version a + 1\<rparr>" by auto
    have "es_ok a'" unfolding x using assms s(1) by (simp add: es_ok_def own_event_def ball_Un)
    moreover have "ag_id a' = ag_id a" "ag_type a' = ag_type a" by (simp_all add: x)
    ultimately show ?thesis by (simp add: ApplyEvent Inr)
  qed (simp add: ApplyEvent assms)
next
  case (LoadHistory es)
  show ?thesis
  proof (cases "fst (loadFromHistory h es a) = Inr None \<and> es \<noteq> []")
    case True
    then obtain a' where "loadFromHistory h es a = (Inr None, a')" "es \<noteq> []" by (metis prod.collapse)
    from loaded_pending[OF this] this show ?thesis
      by (auto simp: LoadHistory intro!: es_ok_restored) (simp_all add: markRestored_def setVersion_def)
  next
    case False
    then have "snd (loadFromHistory h es a) = a"
      using load_failed load_empty by blast
    then show ?thesis by (simp add: LoadHistory assms)
  qed
next
  case (RestoreSnapshot snap es)
  show ?thesis
  proof (cases "fst (restoreFromSnapshotWithEvents h hooks snap es a) = Inr None")
    case True
    then obtain a' where "restoreFromSnapshotWithEvents h hooks snap es a = (Inr None, a')" by (metis prod.collapse)
    from restored_pending[OF this] this show ?thesis
      by (auto simp: RestoreSnapshot intro!: es_ok_restored) (simp_all add: markRestored_def setVersion_def)
  next
    case False
    then have "snd (restoreFromSnapshotWithEvents h hooks snap es a) = a"
      using restore_failed by blast
    then show ?thesis by (simp add: RestoreSnapshot assms)
  qed
qed (simp add: acknowledge_def es_ok_def)

lemma run_es_ops_kept:
  assumes "es_ok a"
  shows "es_ok (fold (run_es_op h hooks) ops a) \<and> ag_id (fold (run_es_op h hooks) ops a) = ag_id a \<and>
    ag_type (fold (run_es_op h hooks) ops a) = ag_type a"
  using assms run_es_op_kept[of _ h hooks] by (induction ops arbitrary: a) auto

text \<open>
  The version an event-sourced aggregate is saved with is right: whatever was applied,
  replayed, restored or acknowledged since it was created, failures included, its version is
  the persisted one plus the number of pending events, and every pending event is minted and
  carries its address.
\<close>

theorem es_version_is_expected:
  assumes "new_aggregate i t s0 v fresh = Inr a"
  shows "let a' = fold (run_es_op h hooks) ops a in
    version a' = (case persistedVersion a' of Some n \<Rightarrow> n | None \<Rightarrow> 0) + length (pendingEvents a') \<and>
    (\<forall>e \<in> set (pendingEvents a'). isMintedEvent e \<and> ev_aggregateId e = i \<and> ev_aggregateType e = Some t)"
proof -
  from assms have a: "es_ok a" "i = Some (ag_id a)" "ag_type a = t"
    by (auto simp: new_aggregate_def new_entity_def es_ok_def split: option.splits)
  from run_es_ops_kept[OF a(1), of h hooks ops] a(2,3) show ?thesis
    by (simp add: es_ok_def own_event_def Let_def)
qed

section \<open>Changes of a state-based root\<close>

lemma changed_keys_iff:
  "baselineState a = Some b \<Longrightarrow> k \<in> set (changedKeys a) \<longleftrightarrow>
    (k \<in> set (ownKeys (ag_state a)) \<longleftrightarrow> k \<notin> set (ownKeys b)) \<or>
    (k \<in> set (ownKeys b) \<and> k \<in> set (ownKeys (ag_state a)) \<and>
      \<not> strict_equal (state_read b k) (state_read (ag_state a) k))"
  by (auto simp: changedKeys_def computeChangedKeys_def)

text \<open>
  Skipping the save of a root that reports no changes loses nothing: it has been
  persisted at its version, no event is pending, its state has the keys of the persisted
  state with identical values, and a keyless state is the persisted one.
\<close>

theorem unchanged_root_is_persisted:
  assumes "\<not> hasChanges a"
  shows "\<exists>b. baselineState a = Some b \<and> persistedVersion a = Some (version a) \<and> pendingEvents a = [] \<and>
    set (ownKeys b) = set (ownKeys (ag_state a)) \<and>
    (\<forall>k \<in> set (ownKeys b). state_read b k = state_read (ag_state a) k) \<and>
    (ownKeys b = [] \<longrightarrow> state_identity b = state_identity (ag_state a))"
proof -
  from assms obtain b where b: "baselineState a = Some b" by (auto simp: hasChanges_def split: option.splits)
  with assms have h: "persistedVersion a = Some (version a)" "pendingEvents a = []" "changedKeys a = []"
    "\<not> (\<not> strict_equal (state_identity b) (state_identity (ag_state a)) \<and> ownKeys b = [] \<and> ownKeys (ag_state a) = [])"
    by (auto simp: hasChanges_def)
  from h(3) have none: "k \<notin> set (changedKeys a)" for k by simp
  then have keys: "k \<in> set (ownKeys (ag_state a)) \<longleftrightarrow> k \<in> set (ownKeys b)" for k
    using changed_keys_iff[OF b, of k] by auto
  then have eq: "set (ownKeys b) = set (ownKeys (ag_state a))" by blast
  have "strict_equal (state_read b k) (state_read (ag_state a) k)" if "k \<in> set (ownKeys b)" for k
    using none[of k] keys[of k] that changed_keys_iff[OF b, of k] by auto
  with h eq b show ?thesis by (auto simp: strict_equal_def)
qed

text \<open>A key that holds \<open>NaN\<close> is reported as changed even right after an acknowledgement.\<close>

lemma nan_key_always_dirty:
  assumes "k \<in> set (ownKeys (ag_state a))" "state_read (ag_state a) k = PNum NaN"
  shows "k \<in> set (changedKeys (root_acknowledge v a))"
  using assms by (subst changed_keys_iff) (auto simp: root_acknowledge_def captureBaseline_def acknowledge_def strict_equal_def)

lemma addDomainEvents_minted:
  assumes "\<forall>e \<in> set es. assertMintedEvent e = Inr ()"
  shows "addDomainEvents es a = (Inr (), a\<lparr>pendingEvents := pendingEvents a @ es\<rparr>)"
  using assms by (induction es arbitrary: a) (auto simp: addDomainEvent_def)

text \<open>
  Committing a state with its events is all or nothing: it throws, and nothing changed,
  or the validated copy of the state is in place, the version is one higher and exactly the
  given events, all minted, follow the pending ones.
\<close>

theorem commit_all_or_nothing:
  "case commit validateState fresh newState events a of
     (Inl e, a') \<Rightarrow> a' = a
   | (Inr _, a') \<Rightarrow> own_state validateState fresh newState = Inr (ag_state a') \<and>
       version a' = version a + 1 \<and> pendingEvents a' = pendingEvents a @ events \<and>
       persistedVersion a' = persistedVersion a \<and> list_all isMintedEvent events"
proof (cases "all_res assertMintedEvent events")
  case (Inr u)
  then have m: "\<forall>e \<in> set events. assertMintedEvent e = Inr ()" by simp
  then have "list_all isMintedEvent events" by (auto simp: list_all_iff assertMintedEvent_def)
  moreover have ar: "all_res assertMintedEvent events = Inr ()" using Inr by simp
  ultimately show ?thesis
    unfolding commit_def ar using addDomainEvents_minted[OF m]
    by (cases "own_state validateState fresh newState")
      (simp_all add: root_setState_def setStateWithoutVersionBump_def bumpVersion_def setVersion_def)
qed (simp add: commit_def)

section \<open>Examples\<close>

definition ex_added :: "string \<Rightarrow> unit domain_event" where
  "ex_added i = \<lparr>eventId = i, event_type = ''Added'', ev_aggregateId = None, ev_aggregateType = None,
     payload = (), occurredAt = Num 0, event_version = 1, metadata = None, minted = True\<rparr>"

fun ex_count :: "js_state \<Rightarrow> unit domain_event \<Rightarrow> (js_error, js_state) res" where
  "ex_count (SPrim (PBig n)) e = Inr (SPrim (PBig (n + 1)))"
| "ex_count s e = Inl (UserError DOMAIN False 0)"

definition ex_hooks :: "unit es_hooks" where
  "ex_hooks = \<lparr>validateEvent = \<lambda>_ _. Inr (), validateRestoredState = \<lambda>_. Inr (), handlers = [(''Added'', ex_count)]\<rparr>"

definition ex_snapshots :: "js_state snapshot_hooks" where
  "ex_snapshots = \<lparr>toSnapshotState = Inr, fromSnapshotState = Inr, snapshotSchemaVersion = 1, migrate = None\<rparr>"

definition ex_counter :: "int \<Rightarrow> unit aggregate" where
  "ex_counter n = \<lparr>ag_id = ''a'', ag_type = ''Counter'', ag_state = SPrim (PBig n), version = 0,
     persistedVersion = None, pendingEvents = []\<rparr>"

definition ex_broken :: "unit aggregate" where
  "ex_broken = (ex_counter 0)\<lparr>ag_state := SPrim PNull\<rparr>"

definition ex_applied :: "unit aggregate" where
  "ex_applied = (case fold_res (apply_event ex_hooks) [ex_added ''1'', ex_added ''2''] (ex_counter 0) of
     Inr a \<Rightarrow> a | Inl _ \<Rightarrow> ex_counter 0)"

theorem replay_equals_apply_witness:
  "ag_state (snd (loadFromHistory ex_hooks (pendingEvents ex_applied) (ex_counter 0))) = SPrim (PBig 2)"
proof -
  have f: "fold_res (apply_event ex_hooks) [ex_added ''1'', ex_added ''2''] (ex_counter 0) = Inr ex_applied" by code_simp
  have s: "ag_state ex_applied = SPrim (PBig 2)" by code_simp
  from replay_equals_apply[OF f] s show ?thesis by (simp add: ex_counter_def acknowledge_def)
qed

theorem failed_restore_witness:
  "ag_state (snd (loadFromHistory ex_hooks [ex_added ''1''] ex_broken)) = SPrim PNull"
proof -
  have "fst (loadFromHistory ex_hooks [ex_added ''1''] ex_broken) \<noteq> Inr None"
    "fst (restoreFromSnapshotWithEvents ex_hooks ex_snapshots
       \<lparr>sn_state = SPrim PNull, sn_version = 1, sn_at = Num 0, sn_schemaVersion = Some 2\<rparr> [ex_added ''1''] ex_broken) \<noteq> Inr None"
    by code_simp+
  from failed_restore_changes_nothing[OF this] show ?thesis by (simp add: ex_broken_def)
qed


theorem es_version_witness:
  "version (fold (run_es_op ex_hooks ex_snapshots) [ApplyEvent (ex_added ''1''), Acknowledge 7, ApplyEvent (ex_added ''2'')]
     (ex_counter 0)) = 8"
proof -
  let ?ops = "[ApplyEvent (ex_added ''1''), Acknowledge 7, ApplyEvent (ex_added ''2'')]"
  have "new_aggregate (Some ''a'') ''Counter'' (SPrim (PBig 0)) None 0 = Inr (ex_counter 0)"
    by (simp add: new_aggregate_def new_entity_def own_state_def shallowCopyOwned_def ex_counter_def)
  note es_version_is_expected[OF this, of ex_hooks ex_snapshots ?ops]
  moreover have "persistedVersion (fold (run_es_op ex_hooks ex_snapshots) ?ops (ex_counter 0)) = Some 7"
    "length (pendingEvents (fold (run_es_op ex_hooks ex_snapshots) ?ops (ex_counter 0))) = 1" by code_simp+
  ultimately show ?thesis by (simp add: Let_def)
qed

definition ex_root :: "unit aggregate_root" where
  "ex_root = root_acknowledge 3 \<lparr>ag_id = ''a'', ag_type = ''Counter'',
     ag_state = SObj \<lparr>obj_id = 1, obj_proto = ObjectProto, obj_array = False, obj_props = [(KStr ''n'', PBig 5, True)]\<rparr>,
     version = 3, persistedVersion = None, pendingEvents = [], baselineState = None\<rparr>"

theorem unchanged_root_witness: "persistedVersion ex_root = Some 3 \<and> pendingEvents ex_root = []"
proof -
  have "\<not> hasChanges ex_root" by code_simp
  from unchanged_root_is_persisted[OF this] show ?thesis by (simp add: ex_root_def root_acknowledge_def
        captureBaseline_def acknowledge_def)
qed

end
