(* ===== verification/Commit.thy ===== *)
theory Commit
  imports Aggregates Dispatcher "HOL-Library.Multiset"
begin

text \<open>
  The commit of a write use case (\<open>withCommit\<close> of src/app/handler.ts) over a transaction scope
  (src/repo/scope.ts) and the retrying scope (src/repo/retrying-scope.ts). The work callback
  is a tree of its steps: it changes the world, enrolls aggregates and continues with the
  answer, so the model runs exactly the interleaving the callback has. The scope is a
  parameter with the contract of its interface as a locale. Observers and bus subscribers
  run after the commit; their outcomes are parameters and they do not change the world.
\<close>

section \<open>The world\<close>

text \<open>
  \<open>db\<close> is what the transaction covers (the business rows and the outbox), \<open>heap\<close> the
  aggregates in memory by reference, which no rollback undoes.
\<close>

datatype 'p commit_note =
    PersistedNote nat nat | PersistErrorNote js_error nat
  | PublishNote "'p domain_event list" | PublishErrorNote js_error "'p domain_event list"

record ('d, 'p) world =
  db :: 'd
  heap :: "(nat, 'p aggregate) jmap"
  scopes :: nat
  log :: "'p commit_note list"

section \<open>Enrollment\<close>

text \<open>A commit token: the scope that minted it and its number there, or no token at all.\<close>

datatype commit_token = Token nat nat | NoToken

record commit_record =
  cr_aggregate :: nat
  cr_deleted :: bool

record token_scope =
  ts_id :: nat
  ts_records :: "commit_record list"
  ts_open :: bool

definition new_token_scope :: "nat \<Rightarrow> token_scope" where
  "new_token_scope i = \<lparr>ts_id = i, ts_records = [], ts_open = True\<rparr>"

fun token_of :: "nat \<Rightarrow> commit_record list \<Rightarrow> nat option" where
  "token_of r [] = None"
| "token_of r (c # cs) = (if cr_aggregate c = r then Some 0 else map_option Suc (token_of r cs))"

abbreviation commit_error :: js_error where
  "commit_error \<equiv> kit (EventHarvestError None)"

definition enroll :: "(nat, 'p aggregate) jmap \<Rightarrow> nat \<Rightarrow> bool \<Rightarrow> token_scope
    \<Rightarrow> (js_error, commit_token) res \<times> token_scope" where
  "enroll h r deleted ts =
     (if \<not> ts_open ts then (Inl commit_error, ts)
      else case token_of r (ts_records ts) of
        Some i \<Rightarrow>
          (let c = ts_records ts ! i
           in if cr_deleted c \<and> \<not> deleted then (Inl commit_error, ts)
              else (Inr (Token (ts_id ts) i),
                    if deleted then ts\<lparr>ts_records := (ts_records ts)[i := c\<lparr>cr_deleted := True\<rparr>]\<rparr> else ts))
      | None \<Rightarrow>
          if jget h r = None then (Inl commit_error, ts)
          else (Inr (Token (ts_id ts) (length (ts_records ts))),
                ts\<lparr>ts_records := ts_records ts @ [\<lparr>cr_aggregate = r, cr_deleted = deleted\<rparr>]\<rparr>))"

text \<open>The tokens a callback returned, resolved: each of this scope, none left out.\<close>

fun resolve_loop :: "token_scope \<Rightarrow> nat list \<Rightarrow> commit_token list \<Rightarrow> (js_error, nat list) res" where
  "resolve_loop ts seen [] = Inr []"
| "resolve_loop ts seen (NoToken # toks) = Inl commit_error"
| "resolve_loop ts seen (Token s i # toks) =
     (if s \<noteq> ts_id ts \<or> length (ts_records ts) \<le> i then Inl commit_error
      else if i \<in> set seen then resolve_loop ts seen toks
      else rbind (resolve_loop ts (i # seen) toks) (\<lambda>is. Inr (i # is)))"

definition resolve :: "token_scope \<Rightarrow> commit_token list option \<Rightarrow> (js_error, commit_record list) res" where
  "resolve ts tokens = (case tokens of
     None \<Rightarrow> Inl commit_error
   | Some toks \<Rightarrow> rbind (resolve_loop ts [] toks) (\<lambda>is.
       if length is \<noteq> length (ts_records ts) then Inl commit_error
       else Inr (map (\<lambda>i. ts_records ts ! i) is)))"

section \<open>The work callback\<close>

datatype ('w, 'r) work =
    Done 'r "commit_token list option"
  | Fail js_error
  | Step "'w \<Rightarrow> 'w" "'w \<Rightarrow> ('w, 'r) work"
  | EnrollSaved nat "(js_error, commit_token) res \<Rightarrow> ('w, 'r) work"
  | EnrollDeleted nat "(js_error, commit_token) res \<Rightarrow> ('w, 'r) work"

type_synonym 'r work_result = "(js_error, 'r \<times> commit_token list option) res"

primrec run_work :: "(('d, 'p, 'z) world_scheme, 'r) work \<Rightarrow> token_scope \<Rightarrow> ('d, 'p, 'z) world_scheme
    \<Rightarrow> 'r work_result \<times> token_scope \<times> ('d, 'p, 'z) world_scheme" where
  "run_work (Done r toks) ts w = (Inr (r, toks), ts, w)"
| "run_work (Fail e) ts w = (Inl e, ts, w)"
| "run_work (Step u k) ts w = run_work (k (u w)) ts (u w)"
| "run_work (EnrollSaved a k) ts w = (let (r, ts') = enroll (heap w) a False ts in run_work (k r) ts' w)"
| "run_work (EnrollDeleted a k) ts w = (let (r, ts') = enroll (heap w) a True ts in run_work (k r) ts' w)"

section \<open>Harvest\<close>

definition truthy_str :: "string option \<Rightarrow> bool" where
  "truthy_str s \<longleftrightarrow> (case s of Some x \<Rightarrow> x \<noteq> [] | None \<Rightarrow> False)"

definition harvest_event :: "'p aggregate \<Rightarrow> nat \<times> 'p domain_event \<Rightarrow> (js_error, 'p candidate) res" where
  "harvest_event a ie = (case ie of (i, e) \<Rightarrow>
     if \<not> truthy_str (ev_aggregateId e) \<or> \<not> truthy_str (ev_aggregateType e)
     then Inl (kit (EventHarvestError (Some (event_type e))))
     else Inr \<lparr>c_event = e, c_source = \<lparr>addr_type = the (ev_aggregateType e), addr_id = the (ev_aggregateId e)\<rparr>,
       c_position = \<lparr>aggregateVersion = version a, commitSequence = i, commitSize = length (pendingEvents a)\<rparr>\<rparr>)"

definition harvest_one :: "'p aggregate \<Rightarrow> (js_error, 'p candidate list) res" where
  "harvest_one a =
     (if pendingEvents a \<noteq> [] \<and> (case persistedVersion a of Some v \<Rightarrow> version a \<le> v | None \<Rightarrow> False)
      then Inl commit_error
      else map_res (harvest_event a) (List.enumerate 0 (pendingEvents a)))"

definition harvest :: "(nat, 'p aggregate) jmap \<Rightarrow> commit_record list \<Rightarrow> (js_error, 'p candidate list) res" where
  "harvest h recs = rbind (map_res (\<lambda>c. case jget h (cr_aggregate c) of
       Some a \<Rightarrow> harvest_one a | None \<Rightarrow> Inr []) recs) (\<lambda>cs. Inr (concat cs))"

section \<open>After the commit\<close>

text \<open>An application callback after the commit: it ran (and maybe failed), or was not started.\<close>

datatype call_outcome = Ran "js_error option" | NotStarted js_error

record ('d, 'p) commit_deps =
  outbox_add :: "'p candidate list \<Rightarrow> 'd \<Rightarrow> (js_error, unit) res \<times> 'd"
  onPersisted :: "(nat \<Rightarrow> nat \<Rightarrow> call_outcome) option"
  bus :: "('p domain_event list \<Rightarrow> call_outcome) option"
  postCommitTimeoutMs :: "js_num option"
  cd_aborted :: "js_error option"

fun acknowledge_records :: "commit_record list \<Rightarrow> (nat, 'p aggregate) jmap
    \<Rightarrow> (nat, 'p aggregate) jmap \<times> (nat \<times> nat) list" where
  "acknowledge_records [] h = (h, [])"
| "acknowledge_records (c # cs) h = (case jget h (cr_aggregate c) of
     None \<Rightarrow> acknowledge_records cs h
   | Some a \<Rightarrow>
       if cr_deleted c then acknowledge_records cs (jset (cr_aggregate c) (discardPendingEvents a) h)
       else let (h', saved) = acknowledge_records cs (jset (cr_aggregate c) (acknowledge (version a) a) h)
            in (h', (cr_aggregate c, version a) # saved))"

definition note_call :: "call_outcome \<Rightarrow> 'p commit_note \<Rightarrow> (js_error \<Rightarrow> 'p commit_note) \<Rightarrow> 'p commit_note list" where
  "note_call out ok_note err_note = (case out of
     Ran None \<Rightarrow> [ok_note] | Ran (Some e) \<Rightarrow> [ok_note, err_note e] | NotStarted e \<Rightarrow> [err_note e])"

definition post_commit :: "('d, 'p) commit_deps \<Rightarrow> commit_record list \<Rightarrow> 'p domain_event list
    \<Rightarrow> ('d, 'p, 'z) world_scheme \<Rightarrow> ('d, 'p, 'z) world_scheme" where
  "post_commit deps recs events w =
     (let (h, saved) = acknowledge_records recs (heap w);
          observed = (case onPersisted deps of None \<Rightarrow> []
            | Some f \<Rightarrow> concat (map (\<lambda>(r, v). note_call (f r v) (PersistedNote r v) (\<lambda>e. PersistErrorNote e r)) saved));
          published = (case bus deps of None \<Rightarrow> []
            | Some f \<Rightarrow> if events = [] then [] else note_call (f events) (PublishNote events) (\<lambda>e. PublishErrorNote e events))
      in w\<lparr>heap := h, log := log w @ observed @ published\<rparr>)"

section \<open>The commit\<close>

type_synonym ('p, 'r) body_result = "(js_error, 'r \<times> commit_record list \<times> 'p domain_event list) res"

definition commit_body :: "('d, 'p) commit_deps \<Rightarrow> (('d, 'p, 'z) world_scheme, 'r) work
    \<Rightarrow> ('d, 'p, 'z) world_scheme \<Rightarrow> ('p, 'r) body_result \<times> ('d, 'p, 'z) world_scheme" where
  "commit_body deps fn w =
     (case run_work fn (new_token_scope (scopes w)) (w\<lparr>scopes := scopes w + 1\<rparr>) of
        (Inl e, ts, w1) \<Rightarrow> (Inl e, w1)
      | (Inr (result, tokens), ts, w1) \<Rightarrow>
          (case rbind (resolve (ts\<lparr>ts_open := False\<rparr>) tokens) (\<lambda>recs.
                rbind (harvest (heap w1) recs) (\<lambda>cands. Inr (recs, cands))) of
             Inl e \<Rightarrow> (Inl e, w1)
           | Inr (recs, cands) \<Rightarrow>
               if cands = [] then (Inr (result, recs, []), w1)
               else (case outbox_add deps cands (db w1) of
                   (Inl e, d) \<Rightarrow> (Inl e, w1\<lparr>db := d\<rparr>)
                 | (Inr _, d) \<Rightarrow> (Inr (result, recs, map c_event cands), w1\<lparr>db := d\<rparr>))))"

definition withCommit :: "('d, 'p) commit_deps
    \<Rightarrow> ((('d, 'p, 'z) world_scheme \<Rightarrow> ('p, 'r) body_result \<times> ('d, 'p, 'z) world_scheme)
        \<Rightarrow> ('d, 'p, 'z) world_scheme \<Rightarrow> ('p, 'r) body_result \<times> ('d, 'p, 'z) world_scheme)
    \<Rightarrow> (('d, 'p, 'z) world_scheme, 'r) work \<Rightarrow> ('d, 'p, 'z) world_scheme
    \<Rightarrow> (js_error, 'r) res \<times> ('d, 'p, 'z) world_scheme" where
  "withCommit deps transactional fn w =
     (case assertNonNegativeFinite (case postCommitTimeoutMs deps of Some n \<Rightarrow> n | None \<Rightarrow> Num 30000) of
        Inl e \<Rightarrow> (Inl e, w)
      | Inr _ \<Rightarrow> (case cd_aborted deps of
          Some e \<Rightarrow> (Inl e, w)
        | None \<Rightarrow> (case transactional (commit_body deps fn) w of
            (Inl e, w') \<Rightarrow> (Inl e, w')
          | (Inr (r, recs, events), w') \<Rightarrow> (Inr r, post_commit deps recs events w'))))"

section \<open>Transaction scopes\<close>

text \<open>
  The worlds a scope may run the callback in: the one it was given, and the one after a run
  of the callback whose transaction was rolled back. What the callback did outside the
  transaction stays.
\<close>

inductive attempted :: "('w \<Rightarrow> 'x \<times> 'w) \<Rightarrow> ('d \<Rightarrow> 'w \<Rightarrow> 'w) \<Rightarrow> 'd \<Rightarrow> 'w \<Rightarrow> 'w \<Rightarrow> bool"
  for fn put d w where
  none: "attempted fn put d w w"
| more: "attempted fn put d w w0 \<Longrightarrow> fn w0 = (r, w1) \<Longrightarrow> attempted fn put d w (put d w1)"

lemma attempted_trans: "attempted fn put d w1 w2 \<Longrightarrow> attempted fn put d w0 w1 \<Longrightarrow> attempted fn put d w0 w2"
  by (induction rule: attempted.induct) (auto intro: attempted.more)

text \<open>
  The contract of \<open>TransactionScope\<close>: the transaction commits when the callback resolves and
  is rolled back when it throws or the commit is refused; the callback may be run again.
\<close>

locale transaction_scope =
  fixes view :: "'w \<Rightarrow> 'd"
    and put :: "'d \<Rightarrow> 'w \<Rightarrow> 'w"
    and transactional :: "('w \<Rightarrow> (js_error, 'a) res \<times> 'w) \<Rightarrow> 'w \<Rightarrow> (js_error, 'a) res \<times> 'w"
  assumes view_put: "view (put d w) = d"
    and committed: "transactional fn w = (Inr r, w') \<Longrightarrow> \<exists>w0. attempted fn put (view w) w w0 \<and> fn w0 = (Inr r, w')"
    and rolled_back: "transactional fn w = (Inl e, w') \<Longrightarrow> attempted fn put (view w) w w'"
begin

lemma attempted_view: "attempted fn put (view w) w w0 \<Longrightarrow> view w0 = view w"
  by (induction rule: attempted.induct) (simp_all add: view_put)

lemma failed_view: "transactional fn w = (Inl e, w') \<Longrightarrow> view w' = view w"
  by (rule attempted_view) (rule rolled_back)

lemma kept:
  assumes "transactional fn w = (r, w')" and "P w"
    and "\<And>u x u'. P u \<Longrightarrow> fn u = (x, u') \<Longrightarrow> P u'" and "\<And>u d. P u \<Longrightarrow> P (put d u)"
  shows "P w'"
proof -
  have a: "attempted fn put (view w) w w0 \<Longrightarrow> P w0" for w0
  proof (induction rule: attempted.induct)
    case none
    show ?case by (rule assms(2))
  next
    case (more w0 r w1)
    from assms(3)[OF more.IH more.hyps(2)] show ?case by (rule assms(4))
  qed
  show ?thesis
  proof (cases r)
    case (Inl e)
    with assms(1) rolled_back a show ?thesis by blast
  next
    case (Inr x)
    with assms(1) committed obtain w0 where "attempted fn put (view w) w w0" "fn w0 = (Inr x, w')" by blast
    with a assms(3) show ?thesis by blast
  qed
qed

end

subsection \<open>The retrying scope\<close>

text \<open>
  The policy, with what the environment answers: whether the signal is aborted before an
  attempt, and whether the sleep after an attempt rejects.
\<close>

record retry_policy =
  rp_maxAttempts :: nat
  rp_baseDelayMs :: rat
  rp_maxDelayMs :: rat
  rp_random :: rat
  rp_isRetryable :: "js_error \<Rightarrow> (js_error, bool) res"
  rp_aborted :: "nat \<Rightarrow> js_error option"
  rp_sleep :: "nat \<Rightarrow> js_num \<Rightarrow> js_error option"

definition isRetryableSafe :: "retry_policy \<Rightarrow> js_error \<Rightarrow> bool" where
  "isRetryableSafe p e = (case rp_isRetryable p e of Inr b \<Rightarrow> b | Inl _ \<Rightarrow> False)"

fun retry_loop :: "retry_policy \<Rightarrow> (('w \<Rightarrow> (js_error, 'a) res \<times> 'w) \<Rightarrow> 'w \<Rightarrow> (js_error, 'a) res \<times> 'w)
    \<Rightarrow> ('w \<Rightarrow> (js_error, 'a) res \<times> 'w) \<Rightarrow> nat \<Rightarrow> 'w \<Rightarrow> (js_error, 'a) res \<times> 'w" where
  "retry_loop p inner fn 0 w = (Inl (PlainError ''Error'' None), w)"
| "retry_loop p inner fn (Suc left) w =
     (let attempt = rp_maxAttempts p - left
      in case rp_aborted p attempt of
        Some e \<Rightarrow> (Inl e, w)
      | None \<Rightarrow> (case inner fn w of
          (Inr r, w') \<Rightarrow> (Inr r, w')
        | (Inl e, w') \<Rightarrow>
            if left = 0 \<or> \<not> isRetryableSafe p e then (Inl e, w')
            else (case rp_sleep p attempt (computeBackoffDelay attempt (rp_baseDelayMs p) (rp_maxDelayMs p) (rp_random p)) of
                Some x \<Rightarrow> (Inl x, w')
              | None \<Rightarrow> retry_loop p inner fn left w')))"

definition retrying :: "retry_policy \<Rightarrow> (('w \<Rightarrow> (js_error, 'a) res \<times> 'w) \<Rightarrow> 'w \<Rightarrow> (js_error, 'a) res \<times> 'w)
    \<Rightarrow> ('w \<Rightarrow> (js_error, 'a) res \<times> 'w) \<Rightarrow> 'w \<Rightarrow> (js_error, 'a) res \<times> 'w" where
  "retrying p inner fn w = retry_loop p inner fn (rp_maxAttempts p) w"

text \<open>Retrying a scope keeps its contract.\<close>

locale retried_scope = transaction_scope view put transactional
  for view :: "'w \<Rightarrow> 'd" and put :: "'d \<Rightarrow> 'w \<Rightarrow> 'w"
    and transactional :: "('w \<Rightarrow> (js_error, 'a) res \<times> 'w) \<Rightarrow> 'w \<Rightarrow> (js_error, 'a) res \<times> 'w" +
  fixes p :: retry_policy
begin

lemma retry_loop_attempted:
  assumes "retry_loop p transactional fn n w = (r, w')"
  shows "case r of Inl e \<Rightarrow> attempted fn put (view w) w w'
    | Inr x \<Rightarrow> \<exists>w0. attempted fn put (view w) w w0 \<and> fn w0 = (Inr x, w')"
  using assms
proof (induction n arbitrary: w)
  case 0
  then show ?case by (auto intro: attempted.none)
next
  case (Suc n)
  obtain ir iw where inner: "transactional fn w = (ir, iw)" by force
  show ?case
  proof (cases ir)
    case (Inr x)
    with Suc.prems inner committed[of fn w x iw] show ?thesis
      by (auto simp: Let_def intro: attempted.none split: option.splits)
  next
    case (Inl e)
    with inner have a: "attempted fn put (view w) w iw" "view iw = view w"
      using rolled_back failed_view by blast+
    from Suc.IH[of iw] a have ih: "retry_loop p transactional fn n iw = (r, w') \<Longrightarrow> ?thesis"
      by (cases r) (auto intro: attempted_trans)
    from Suc.prems inner Inl a ih show ?thesis
      by (auto simp: Let_def intro: attempted.none split: option.splits if_splits)
  qed
qed

end

sublocale retried_scope \<subseteq> retry: transaction_scope view put "retrying p transactional"
proof
  fix fn w r w' assume "retrying p transactional fn w = (Inr r, w')"
  from retry_loop_attempted[OF this[unfolded retrying_def]]
  show "\<exists>w0. attempted fn put (view w) w w0 \<and> fn w0 = (Inr r, w')" by simp
next
  fix fn w e w' assume "retrying p transactional fn w = (Inl e, w')"
  from retry_loop_attempted[OF this[unfolded retrying_def]]
  show "attempted fn put (view w) w w'" by simp
qed (rule view_put)

subsection \<open>A scope that commits or rolls back\<close>

text \<open>One transaction around one run of the callback; the store may refuse the commit.\<close>

definition atomic_scope :: "(('d, 'p, 'z) world_scheme \<Rightarrow> js_error option)
    \<Rightarrow> (('d, 'p, 'z) world_scheme \<Rightarrow> (js_error, 'a) res \<times> ('d, 'p, 'z) world_scheme)
    \<Rightarrow> ('d, 'p, 'z) world_scheme \<Rightarrow> (js_error, 'a) res \<times> ('d, 'p, 'z) world_scheme" where
  "atomic_scope refuse fn w = (case fn w of
     (Inl e, w') \<Rightarrow> (Inl e, w'\<lparr>db := db w\<rparr>)
   | (Inr r, w') \<Rightarrow> (case refuse w' of Some e \<Rightarrow> (Inl e, w'\<lparr>db := db w\<rparr>) | None \<Rightarrow> (Inr r, w')))"

definition put_db :: "'d \<Rightarrow> ('d, 'p, 'z) world_scheme \<Rightarrow> ('d, 'p, 'z) world_scheme" where
  "put_db d w = w\<lparr>db := d\<rparr>"

lemma atomic_scope_attempt:
  assumes "atomic_scope refuse fn w = (r, w')"
  shows "case r of Inl e \<Rightarrow> attempted fn put_db (db w) w w'
    | Inr x \<Rightarrow> \<exists>w0. attempted fn put_db (db w) w w0 \<and> fn w0 = (Inr x, w')"
proof -
  obtain fr fw where f: "fn w = (fr, fw)" by force
  have one: "attempted fn put_db (db w) w (fw\<lparr>db := db w\<rparr>)"
    using attempted.more[of fn put_db "db w" w w fr fw] attempted.none f by (fastforce simp: put_db_def)
  show ?thesis
    using assms f one attempted.none[of fn put_db "db w" w]
    by (auto simp: atomic_scope_def split: sum.splits option.splits)
qed

interpretation atomic: transaction_scope db put_db "atomic_scope refuse" for refuse
proof
  fix fn w r w' assume "atomic_scope refuse fn w = (Inr r, w')"
  from atomic_scope_attempt[OF this]
  show "\<exists>w0. attempted fn put_db (db w) w w0 \<and> fn w0 = (Inr r, w')" by simp
next
  fix fn w e w' assume "atomic_scope refuse fn w = (Inl e, w')"
  from atomic_scope_attempt[OF this] show "attempted fn put_db (db w) w w'" by simp
qed (simp add: put_db_def)

interpretation retried_atomic: retried_scope db put_db "atomic_scope refuse" p for refuse p
  by unfold_locales

section \<open>Enrollment and tokens\<close>

lemma token_of_Some: "token_of r cs = Some i \<Longrightarrow> i < length cs \<and> cr_aggregate (cs ! i) = r"
  by (induction cs arbitrary: i) (auto split: if_splits)

lemma token_of_None: "token_of r cs = None \<longleftrightarrow> r \<notin> cr_aggregate ` set cs"
  by (induction cs) auto

abbreviation enrolled_refs :: "token_scope \<Rightarrow> nat list" where
  "enrolled_refs ts \<equiv> map cr_aggregate (ts_records ts)"

lemma enroll_distinct:
  assumes "distinct (enrolled_refs ts)" "enroll h r d ts = (x, ts')"
  shows "distinct (enrolled_refs ts')"
proof (cases "token_of r (ts_records ts)")
  case None
  then have "r \<notin> set (enrolled_refs ts)" by (simp add: token_of_None)
  with assms None show ?thesis by (auto simp: enroll_def split: if_splits)
next
  case (Some i)
  then have i: "i < length (ts_records ts)" using token_of_Some by blast
  have "map cr_aggregate ((ts_records ts)[i := (ts_records ts ! i)\<lparr>cr_deleted := True\<rparr>]) = enrolled_refs ts"
    by (rule nth_equalityI) (auto simp: i nth_list_update split: if_splits)
  moreover from assms(2) Some have "ts_records ts' = ts_records ts
      \<or> ts_records ts' = (ts_records ts)[i := (ts_records ts ! i)\<lparr>cr_deleted := True\<rparr>]"
    by (simp add: enroll_def Let_def split: if_splits) auto
  ultimately show ?thesis using assms(1) by metis
qed

lemma run_work_distinct:
  assumes "distinct (enrolled_refs ts)" "run_work fn ts w = (r, ts', w')"
  shows "distinct (enrolled_refs ts')"
  using assms
proof (induction fn arbitrary: ts w)
  case (EnrollSaved a k)
  obtain x ts1 where e: "enroll (heap w) a False ts = (x, ts1)" by force
  from EnrollSaved.IH[OF rangeI enroll_distinct[OF EnrollSaved.prems(1) e]] EnrollSaved.prems(2) e
  show ?case by simp
next
  case (EnrollDeleted a k)
  obtain x ts1 where e: "enroll (heap w) a True ts = (x, ts1)" by force
  from EnrollDeleted.IH[OF rangeI enroll_distinct[OF EnrollDeleted.prems(1) e]] EnrollDeleted.prems(2) e
  show ?case by simp
next
  case (Step u k)
  from Step.IH[OF rangeI Step.prems(1)] Step.prems(2) show ?case by simp
qed auto

lemma resolve_loop_Inr:
  "resolve_loop ts seen toks = Inr is \<Longrightarrow> distinct is \<and> set is \<inter> set seen = {} \<and> set is \<subseteq> {..<length (ts_records ts)}"
proof (induction ts seen toks arbitrary: "is" rule: resolve_loop.induct)
  case (3 ts seen s i toks)
  show ?case
  proof (cases "i \<in> set seen")
    case True
    with 3 show ?thesis by (simp split: if_splits)
  next
    case False
    from 3(3) False obtain js where js: "resolve_loop ts (i # seen) toks = Inr js" "is = i # js"
      and b: "i < length (ts_records ts)" "s = ts_id ts" by (auto split: if_splits)
    from 3(2)[OF _ False js(1)] b have "distinct js \<and> set js \<inter> set (i # seen) = {} \<and> set js \<subseteq> {..<length (ts_records ts)}"
      by simp
    with js(2) b(1) False show ?thesis by auto
  qed
qed simp_all

lemma resolve_Inr:
  assumes "resolve ts tokens = Inr recs"
  shows "mset recs = mset (ts_records ts)"
proof -
  let ?n = "length (ts_records ts)"
  from assms obtain toks "is" where i: "resolve_loop ts [] toks = Inr is" "length is = ?n"
    and recs: "recs = map (\<lambda>i. ts_records ts ! i) is"
    by (auto simp: resolve_def split: option.splits if_splits)
  from resolve_loop_Inr[OF i(1)] have d: "distinct is" "set is \<subseteq> {..<?n}" by auto
  then have "card (set is) = ?n" using i(2) by (simp add: distinct_card)
  then have "set is = {..<?n}" using d(2) by (metis card_lessThan card_subset_eq finite_lessThan)
  then have "set is = set [0..<?n]" by (simp only: atLeast_upt)
  then have "mset is = mset [0..<?n]" by (rule iffD1[OF set_eq_iff_mset_eq_distinct[OF d(1) distinct_upt]])
  then have "image_mset (\<lambda>i. ts_records ts ! i) (mset is) = image_mset (\<lambda>i. ts_records ts ! i) (mset [0..<?n])"
    by simp
  then have "mset recs = mset (map (\<lambda>i. ts_records ts ! i) [0..<?n])" by (simp only: recs mset_map)
  then show ?thesis by (simp add: map_nth)
qed

lemma resolved_refs: "mset recs = mset (ts_records ts) \<Longrightarrow> distinct (enrolled_refs ts) \<Longrightarrow> distinct (map cr_aggregate recs)"
  by (metis mset_map mset_eq_imp_distinct_iff)

section \<open>What a commit does\<close>

text \<open>The candidates of an aggregate: its pending events at the positions of one commit.\<close>

definition candidates_of :: "'p aggregate \<Rightarrow> 'p candidate list" where
  "candidates_of a = map (\<lambda>(i, e). \<lparr>c_event = e,
       c_source = \<lparr>addr_type = the (ev_aggregateType e), addr_id = the (ev_aggregateId e)\<rparr>,
       c_position = \<lparr>aggregateVersion = version a, commitSequence = i, commitSize = length (pendingEvents a)\<rparr>\<rparr>)
     (List.enumerate 0 (pendingEvents a))"

definition expected_candidates :: "(nat, 'p aggregate) jmap \<Rightarrow> commit_record list \<Rightarrow> 'p candidate list" where
  "expected_candidates h recs = concat (map (\<lambda>c. case jget h (cr_aggregate c) of
     Some a \<Rightarrow> candidates_of a | None \<Rightarrow> []) recs)"

lemma map_res_map: "map_res f xs = Inr ys \<Longrightarrow> (\<And>x y. f x = Inr y \<Longrightarrow> y = g x) \<Longrightarrow> ys = map g xs"
  by (induction xs arbitrary: ys) auto

lemma harvest_one_Inr: "harvest_one a = Inr cs \<Longrightarrow> cs = candidates_of a"
  unfolding candidates_of_def
  by (rule map_res_map[of "harvest_event a"]) (auto simp: harvest_one_def harvest_event_def split: if_splits)

lemma harvest_Inr: "harvest h recs = Inr cands \<Longrightarrow> cands = expected_candidates h recs"
proof -
  assume "harvest h recs = Inr cands"
  then obtain cs where cs: "map_res (\<lambda>c. case jget h (cr_aggregate c) of
       Some a \<Rightarrow> harvest_one a | None \<Rightarrow> Inr []) recs = Inr cs" "cands = concat cs"
    by (auto simp: harvest_def)
  have "cs = map (\<lambda>c. case jget h (cr_aggregate c) of Some a \<Rightarrow> candidates_of a | None \<Rightarrow> []) recs"
    using cs(1) by (rule map_res_map) (auto dest: harvest_one_Inr split: option.splits)
  with cs(2) show ?thesis by (simp add: expected_candidates_def)
qed

lemma candidates_events: "map c_event (candidates_of a) = pendingEvents a"
proof -
  have "map c_event (candidates_of a) = map snd (List.enumerate 0 (pendingEvents a))"
    by (simp add: candidates_of_def case_prod_unfold comp_def)
  then show ?thesis by simp
qed

text \<open>The aggregate after the commit: acknowledged, cleared, or untouched.\<close>

definition settled :: "commit_record list \<Rightarrow> nat \<Rightarrow> 'p aggregate \<Rightarrow> 'p aggregate" where
  "settled recs r a = (case List.find (\<lambda>c. cr_aggregate c = r) recs of
     None \<Rightarrow> a
   | Some c \<Rightarrow> if cr_deleted c then discardPendingEvents a else acknowledge (version a) a)"

lemma settled_simps:
  "settled [] r a = a"
  "settled (c # cs) r a = (if cr_aggregate c = r
     then (if cr_deleted c then discardPendingEvents a else acknowledge (version a) a) else settled cs r a)"
  by (simp_all add: settled_def)

lemma settled_absent: "r \<notin> set (map cr_aggregate recs) \<Longrightarrow> settled recs r a = a"
  by (induction recs) (auto simp: settled_simps)

lemma acknowledge_records_get:
  assumes "distinct (map cr_aggregate recs)" "acknowledge_records recs h = (h', saved)"
  shows "jget h' r = map_option (settled recs r) (jget h r)"
  using assms
proof (induction recs arbitrary: h saved)
  case Nil
  then show ?case by (simp add: settled_simps option.map_ident)
next
  case (Cons c recs)
  then have c: "cr_aggregate c \<notin> set (map cr_aggregate recs)" "distinct (map cr_aggregate recs)" by auto
  show ?case
  proof (cases "jget h (cr_aggregate c)")
    case None
    with Cons.prems Cons.IH[OF c(2), of h saved] show ?thesis
      by (cases "r = cr_aggregate c") (auto simp: settled_simps)
  next
    case (Some a)
    let ?b = "if cr_deleted c then discardPendingEvents a else acknowledge (version a) a"
    from Cons.prems Some obtain saved' where "acknowledge_records recs (jset (cr_aggregate c) ?b h) = (h', saved')"
      by (auto split: prod.splits if_splits)
    from Cons.IH[OF c(2) this] Some c(1) show ?thesis
      by (auto simp: settled_simps settled_absent)
  qed
qed

definition publishes_only :: "'p domain_event list \<Rightarrow> 'p commit_note list \<Rightarrow> bool" where
  "publishes_only es notes \<longleftrightarrow> (\<forall>es'. PublishNote es' \<in> set notes \<longrightarrow> es' = es \<and> es \<noteq> [])"

lemma post_commit_simps:
  "db (post_commit deps recs events w) = db w"
  "heap (post_commit deps recs events w) = fst (acknowledge_records recs (heap w))"
  by (simp_all add: post_commit_def Let_def case_prod_unfold)

lemma note_call_publish: "PublishNote es' \<in> set (note_call out (PublishNote es) (\<lambda>e. PublishErrorNote e es)) \<Longrightarrow> es' = es"
  "PublishNote es' \<notin> set (note_call out (PersistedNote r v) (\<lambda>e. PersistErrorNote e r))"
  by (auto simp: note_call_def split: call_outcome.splits option.splits)

lemma post_commit_log: "\<exists>calls. log (post_commit deps recs events w) = log w @ calls \<and> publishes_only events calls"
  by (auto simp: post_commit_def Let_def case_prod_unfold publishes_only_def dest: note_call_publish(1)
      intro: note_call_publish(2)[THEN notE] split: option.splits if_splits)

lemma commit_body_Inr:
  assumes "commit_body deps fn w = (Inr (r, recs, events), w')"
  shows "\<exists>toks ts w1 d. run_work fn (new_token_scope (scopes w)) (w\<lparr>scopes := scopes w + 1\<rparr>) = (Inr (r, toks), ts, w1)
    \<and> resolve (ts\<lparr>ts_open := False\<rparr>) toks = Inr recs \<and> harvest (heap w1) recs = Inr (expected_candidates (heap w1) recs)
    \<and> events = map c_event (expected_candidates (heap w1) recs) \<and> w' = w1\<lparr>db := d\<rparr>
    \<and> (if expected_candidates (heap w1) recs = [] then d = db w1
       else outbox_add deps (expected_candidates (heap w1) recs) (db w1) = (Inr (), d))"
proof -
  obtain fr ts w1 where run: "run_work fn (new_token_scope (scopes w)) (w\<lparr>scopes := scopes w + 1\<rparr>) = (fr, ts, w1)"
    by (cases "run_work fn (new_token_scope (scopes w)) (w\<lparr>scopes := scopes w + 1\<rparr>)") auto
  with assms obtain x toks where fr: "fr = Inr (x, toks)" by (cases fr) (auto simp: commit_body_def)
  let ?chain = "rbind (resolve (ts\<lparr>ts_open := False\<rparr>) toks) (\<lambda>recs. rbind (harvest (heap w1) recs) (\<lambda>cands. Inr (recs, cands)))"
  obtain recs' cands where c: "?chain = Inr (recs', cands)"
    using assms run fr by (cases ?chain) (auto simp: commit_body_def)
  then have parts: "resolve (ts\<lparr>ts_open := False\<rparr>) toks = Inr recs'" "harvest (heap w1) recs' = Inr cands" by auto
  then have e: "cands = expected_candidates (heap w1) recs'" by (blast intro: harvest_Inr)
  show ?thesis
  proof (cases "cands = []")
    case True
    with assms run fr c have "recs = recs'" "events = []" "w' = w1" "x = r" by (simp_all add: commit_body_def)
    with True run fr parts e show ?thesis by (intro exI[of _ toks] exI[of _ ts] exI[of _ w1] exI[of _ "db w1"]) simp
  next
    case False
    obtain ar d where add: "outbox_add deps cands (db w1) = (ar, d)" by force
    with assms run fr c False have "ar = Inr ()" "recs = recs'" "events = map c_event cands" "w' = w1\<lparr>db := d\<rparr>" "x = r"
      by (cases ar; simp add: commit_body_def)+
    with False run fr parts e add show ?thesis
      by (intro exI[of _ toks] exI[of _ ts] exI[of _ w1] exI[of _ d]) simp
  qed
qed

lemma withCommit_Inr:
  assumes "withCommit deps transactional fn w = (Inr r, w')"
  shows "\<exists>recs events w2. transactional (commit_body deps fn) w = (Inr (r, recs, events), w2)
    \<and> w' = post_commit deps recs events w2"
  using assms by (auto simp: withCommit_def split: sum.splits option.splits prod.splits)

lemma withCommit_Inl:
  assumes "withCommit deps transactional fn w = (Inl e, w')"
  shows "w' = w \<or> transactional (commit_body deps fn) w = (Inl e, w')"
  using assms by (auto simp: withCommit_def split: sum.splits option.splits prod.splits)

text \<open>What a commit that returned has done.\<close>

lemma commit_persisted:
  assumes "transaction_scope db put_db transactional"
    and "withCommit deps transactional fn w = (Inr r, w')"
  obtains w0 toks ts w1 recs calls where "db w0 = db w"
    and "run_work fn (new_token_scope (scopes w0)) (w0\<lparr>scopes := scopes w0 + 1\<rparr>) = (Inr (r, toks), ts, w1)"
    and "mset recs = mset (ts_records ts)" and "distinct (map cr_aggregate recs)"
    and "if expected_candidates (heap w1) recs = [] then db w' = db w1
       else outbox_add deps (expected_candidates (heap w1) recs) (db w1) = (Inr (), db w')"
    and "\<forall>a. jget (heap w') a = map_option (settled recs a) (jget (heap w1) a)"
    and "log w' = log w1 @ calls" and "publishes_only (map c_event (expected_candidates (heap w1) recs)) calls"
proof -
  have fv: "attempted (commit_body deps fn) put_db (db w) w w0 \<Longrightarrow> db w0 = db w" for w0
    by (rule transaction_scope.attempted_view[OF assms(1)])
  obtain recs events w2 where t: "transactional (commit_body deps fn) w = (Inr (r, recs, events), w2)"
    and w': "w' = post_commit deps recs events w2" using withCommit_Inr[OF assms(2)] by blast
  obtain w0 where w0: "db w0 = db w" "commit_body deps fn w0 = (Inr (r, recs, events), w2)"
    using transaction_scope.committed[OF assms(1) t] fv by blast
  from commit_body_Inr[OF w0(2)] obtain toks ts w1 d where
    run: "run_work fn (new_token_scope (scopes w0)) (w0\<lparr>scopes := scopes w0 + 1\<rparr>) = (Inr (r, toks), ts, w1)"
    and res: "resolve (ts\<lparr>ts_open := False\<rparr>) toks = Inr recs"
    and ev: "events = map c_event (expected_candidates (heap w1) recs)" and w2: "w2 = w1\<lparr>db := d\<rparr>"
    and out: "if expected_candidates (heap w1) recs = [] then d = db w1
       else outbox_add deps (expected_candidates (heap w1) recs) (db w1) = (Inr (), d)" by blast
  have m: "mset recs = mset (ts_records ts)" using resolve_Inr[OF res] by simp
  have "distinct (enrolled_refs ts)" by (rule run_work_distinct[OF _ run]) (simp add: new_token_scope_def)
  then have dis: "distinct (map cr_aggregate recs)" by (rule resolved_refs[OF m])
  obtain h saved where ack: "acknowledge_records recs (heap w1) = (h, saved)" by force
  have hp: "\<forall>a. jget (heap w') a = map_option (settled recs a) (jget (heap w1) a)"
    using acknowledge_records_get[OF dis ack] ack by (simp add: w' w2 post_commit_simps)
  have dbs: "if expected_candidates (heap w1) recs = [] then db w' = db w1
      else outbox_add deps (expected_candidates (heap w1) recs) (db w1) = (Inr (), db w')"
    using out by (simp add: w' w2 post_commit_simps)
  obtain calls where "log w' = log w1 @ calls" "publishes_only events calls"
    using post_commit_log[of deps recs events w2] by (auto simp: w' w2)
  with that[OF w0(1) run m dis dbs hp] ev show ?thesis by blast
qed


text \<open>
  C19. When \<open>withCommit\<close> throws, whatever made it throw and however often the scope ran the
  callback: the database is the one before the call, and the commit itself touched nothing
  in memory. Whatever the callback's own runs keep true of the aggregates is true of them
  afterwards (none was acknowledged, none lost its pending events), and no observer and no
  subscriber was called.
\<close>

theorem failed_commit_leaves_no_trace:
  assumes "transaction_scope db put_db transactional"
    and "withCommit deps transactional fn w = (Inl e, w')"
    and "\<And>ts u x ts' u'. Q (heap u) (log u) \<Longrightarrow> run_work fn ts u = (x, ts', u') \<Longrightarrow> Q (heap u') (log u')"
    and "Q (heap w) (log w)"
  shows "db w' = db w \<and> Q (heap w') (log w')"
proof -
  let ?Q = "\<lambda>u. Q (heap u) (log u)"
  have body: "?Q u'" if "?Q u" "commit_body deps fn u = (x, u')" for u x u'
  proof -
    obtain fr ts u1 where run: "run_work fn (new_token_scope (scopes u)) (u\<lparr>scopes := scopes u + 1\<rparr>) = (fr, ts, u1)"
      by (cases "run_work fn (new_token_scope (scopes u)) (u\<lparr>scopes := scopes u + 1\<rparr>)") auto
    have "heap u' = heap u1 \<and> log u' = log u1"
      using that(2) run by (auto simp: commit_body_def split: sum.splits if_splits prod.splits)
    moreover have "?Q u1" using assms(3)[OF _ run] that(1) by simp
    ultimately show ?thesis by simp
  qed
  from withCommit_Inl[OF assms(2)] show ?thesis
  proof
    assume "w' = w"
    with assms(4) show ?thesis by simp
  next
    assume t: "transactional (commit_body deps fn) w = (Inl e, w')"
    have "?Q w'"
      by (rule transaction_scope.kept[OF assms(1) t, of ?Q]) (use assms(4) body in \<open>auto simp: put_db_def\<close>)
    with transaction_scope.failed_view[OF assms(1) t] show ?thesis by simp
  qed
qed

lemma retry_loop_step:
  assumes "\<And>a. rp_aborted p a = None" "\<And>a d. rp_sleep p a d = None"
    and "inner fn w = (Inl e, w1)" "isRetryableSafe p e" "0 < n"
  shows "retry_loop p inner fn (Suc n) w = retry_loop p inner fn n w1"
  using assms by simp

text \<open>
  The retrying scope reaches a success that is within its attempts: when the first
  \<open>k < maxAttempts\<close> attempts fail with errors the policy calls retryable, the next one commits
  and nothing aborts the sleeps, then it returns that result.
\<close>

theorem retrying_reaches_success:
  assumes "\<And>a. rp_aborted p a = None" "\<And>a d. rp_sleep p a d = None"
    and "k < rp_maxAttempts p"
    and "\<And>j. j < k \<Longrightarrow> inner fn (ws j) = (Inl (es j), ws (Suc j)) \<and> isRetryableSafe p (es j)"
    and "inner fn (ws k) = (Inr r, w')"
  shows "retrying p inner fn (ws 0) = (Inr r, w')"
proof -
  have "j \<le> k \<Longrightarrow> k - j < n \<Longrightarrow> retry_loop p inner fn n (ws j) = (Inr r, w')" for j n
  proof (induction "k - j" arbitrary: j n)
    case 0
    then obtain m where "n = Suc m" "j = k" by (cases n) auto
    with assms(1,5) show ?case by simp
  next
    case (Suc d)
    then obtain m where m: "n = Suc m" by (cases n) auto
    from Suc.hyps(2) have j: "j < k" by simp
    with Suc.prems m have "0 < m" by simp
    then have "retry_loop p inner fn n (ws j) = retry_loop p inner fn m (ws (Suc j))"
      using retry_loop_step[OF assms(1,2), of inner fn "ws j" "es j" "ws (Suc j)" m] assms(4)[OF j] m by blast
    also have "\<dots> = (Inr r, w')" using Suc.hyps(1)[of "Suc j" m] Suc.hyps(2) Suc.prems m by simp
    finally show ?case .
  qed
  from this[of 0 "rp_maxAttempts p"] assms(3) show ?thesis by (simp add: retrying_def)
qed

text \<open>
  The retrying scope opens at most \<open>maxAttempts\<close> transactions, and at most one when its
  policy calls no error retryable: a counter that a transaction raises by at most one is raised by at most
  that much.
\<close>

theorem retrying_bounded:
  fixes tick :: "'w \<Rightarrow> nat"
  assumes "\<And>u x u'. inner fn u = (x, u') \<Longrightarrow> tick u' \<le> Suc (tick u)"
    and "retrying p inner fn w = (r, w')"
  shows "tick w' \<le> tick w + (if \<exists>e. isRetryableSafe p e then rp_maxAttempts p else min 1 (rp_maxAttempts p))"
proof -
  have "retry_loop p inner fn n w = (r, w') \<Longrightarrow>
      tick w' \<le> tick w + (if \<exists>e. isRetryableSafe p e then n else min 1 n)" for n w
  proof (induction n arbitrary: w)
    case 0
    then show ?case by simp
  next
    case (Suc n)
    obtain ir iw where i: "inner fn w = (ir, iw)" by force
    note t = assms(1)[OF i]
    show ?case
    proof (cases "\<exists>e. ir = Inl e \<and> n \<noteq> 0 \<and> isRetryableSafe p e \<and> retry_loop p inner fn n iw = (r, w')")
      case True
      then have "tick w' \<le> tick iw + n" and "\<exists>e. isRetryableSafe p e" using Suc.IH[of iw] by (auto split: if_splits)
      with t show ?thesis by simp
    next
      case False
      with Suc.prems i have "w' = w \<or> w' = iw"
        by (auto simp: Let_def split: option.splits sum.splits if_splits)
      with t show ?thesis by auto
    qed
  qed
  from this[OF assms(2)[unfolded retrying_def]] show ?thesis .
qed

section \<open>Concrete inputs\<close>

definition ex_stored :: "unit domain_event" where
  "ex_stored = (ex_added ''1'')\<lparr>ev_aggregateId := Some ''a'', ev_aggregateType := Some ''Counter''\<rparr>"

definition ex_world :: "(unit candidate list, unit) world" where
  "ex_world = \<lparr>db = [], heap = [(0, (ex_counter 0)\<lparr>version := 1, pendingEvents := [ex_stored]\<rparr>)], scopes = 0, log = []\<rparr>"

definition ex_deps :: "(unit candidate list, unit) commit_deps" where
  "ex_deps = \<lparr>outbox_add = \<lambda>cs d. (Inr (), d @ cs), onPersisted = None, bus = Some (\<lambda>es. Ran None),
     postCommitTimeoutMs = None, cd_aborted = None\<rparr>"

definition ex_work :: "bool \<Rightarrow> ((unit candidate list, unit) world, nat) work" where
  "ex_work give_token = EnrollSaved 0 (\<lambda>r. case r of Inl e \<Rightarrow> Fail e
     | Inr t \<Rightarrow> Done 7 (Some (if give_token then [t] else [])))"

definition ex_policy :: retry_policy where
  "ex_policy = \<lparr>rp_maxAttempts = 3, rp_baseDelayMs = 50, rp_maxDelayMs = 1000, rp_random = 1 / 2,
     rp_isRetryable = \<lambda>e. Inr (e = UserError INFRASTRUCTURE True 0), rp_aborted = \<lambda>_. None, rp_sleep = \<lambda>_ _. None\<rparr>"

definition ex_scope :: "((unit candidate list, unit) world \<Rightarrow> (js_error, 'a) res \<times> (unit candidate list, unit) world)
    \<Rightarrow> (unit candidate list, unit) world \<Rightarrow> (js_error, 'a) res \<times> (unit candidate list, unit) world" where
  "ex_scope = retrying ex_policy (atomic_scope (\<lambda>_. None))"

lemma ex_scope_ok: "transaction_scope db put_db ex_scope"
  unfolding ex_scope_def by (rule retried_atomic.retry.transaction_scope_axioms)

lemmas ex_defs = ex_stored_def ex_world_def ex_deps_def ex_work_def ex_scope_def ex_added_def ex_counter_def

definition ex_after :: "(unit candidate list, unit) world" where
  "ex_after = snd (withCommit ex_deps ex_scope (ex_work True) ex_world)"

lemma ex_commit: "withCommit ex_deps ex_scope (ex_work True) ex_world = (Inr 7, ex_after)"
  unfolding ex_after_def by code_simp


definition ex_failed :: "(unit candidate list, unit) world" where
  "ex_failed = snd (withCommit ex_deps ex_scope (ex_work False) ex_world)"

theorem failed_commit_witness:
  "db ex_failed = [] \<and> map_option pendingEvents (jget (heap ex_failed) 0) = Some [ex_stored] \<and> log ex_failed = []"
proof -
  let ?Q = "\<lambda>h l. map_option pendingEvents (jget h 0) = Some [ex_stored] \<and> (l :: unit commit_note list) = []"
  have run: "withCommit ex_deps ex_scope (ex_work False) ex_world = (Inl commit_error, ex_failed)"
    unfolding ex_failed_def by code_simp
  have keep: "?Q (heap u') (log u')" if "?Q (heap u) (log u)" "run_work (ex_work False) ts u = (x, ts', u')" for ts u x ts' u'
  proof -
    have "u' = u" using that(2) by (cases "enroll (heap u) 0 False ts") (simp add: ex_work_def split: sum.splits)
    with that(1) show ?thesis by simp
  qed
  have "db ex_failed = db ex_world \<and> ?Q (heap ex_failed) (log ex_failed)"
    by (rule failed_commit_leaves_no_trace[where Q = ?Q, OF ex_scope_ok run keep]) (simp_all add: ex_world_def)
  then show ?thesis by (simp add: ex_world_def)
qed

text \<open>A store that answers busy until its third transaction.\<close>

definition ex_busy :: "(nat \<Rightarrow> (js_error, nat) res \<times> nat) \<Rightarrow> nat \<Rightarrow> (js_error, nat) res \<times> nat" where
  "ex_busy fn n = (if n < 2 then (Inl (UserError INFRASTRUCTURE True 0), Suc n) else fn n)"

theorem retrying_reaches_witness: "retrying ex_policy ex_busy (\<lambda>n. (Inr (n + 1), Suc n)) 0 = (Inr 3, 3)"
proof -
  have "retrying ex_policy ex_busy (\<lambda>n. (Inr (n + 1), Suc n)) ((\<lambda>j. j) 0) = (Inr 3, 3)"
    by (rule retrying_reaches_success[of ex_policy 2 _ _ _ "\<lambda>_. UserError INFRASTRUCTURE True 0"])
      (simp_all add: ex_policy_def ex_busy_def isRetryableSafe_def)
  then show ?thesis .
qed

theorem retrying_bounded_witness:
  "snd (retrying ex_policy ex_busy (\<lambda>n. (Inl (UserError INFRASTRUCTURE True 0) :: (js_error, nat) res, Suc n)) 0) \<le> 3"
proof -
  let ?run = "retrying ex_policy ex_busy (\<lambda>n. (Inl (UserError INFRASTRUCTURE True 0) :: (js_error, nat) res, Suc n)) 0"
  obtain r n where run: "?run = (r, n)" by force
  have "n \<le> 0 + (if \<exists>e. isRetryableSafe ex_policy e then rp_maxAttempts ex_policy else min 1 (rp_maxAttempts ex_policy))"
    by (rule retrying_bounded[where tick = "\<lambda>n. n", OF _ run]) (auto simp: ex_busy_def split: if_splits)
  also have "\<dots> \<le> 3" by (simp add: ex_policy_def)
  finally show ?thesis by (simp only: run snd_conv)
qed

end
