(* ===== verification/Idempotent_Commit.thy ===== *)
theory Idempotent_Commit
  imports Commit Idempotency
begin

text \<open>
  The commit of an idempotent command: \<open>withIdempotentCommit\<close> of src/app/idempotency.ts over
  \<open>withCommit\<close>, the idempotency store port and its lease heartbeat. The store is a parameter
  (\<open>idem_port\<close>) whose contract, as far as the leased family goes, is the locale
  \<open>leased_store\<close>; the in-memory store is its instance. Time passes at the pauses of the
  callback: there the heartbeat timer may fire, and other executions may use the store. The
  enrollment the callback gets cannot be used after it settled, since a work tree enrolls
  only by its own nodes.
\<close>

section \<open>Store, world and dependencies\<close>

text \<open>
  The port: \<open>claim\<close> and \<open>complete\<close> take the transaction context, the others work on the
  store's own state. The number is the step, for the clock and the token source.
  \<open>ip_others\<close> is what other executions do to the store between two steps.
\<close>

record ('d, 'i) idem_port =
  ip_claim :: "nat \<Rightarrow> string \<Rightarrow> string \<Rightarrow> 'd \<times> 'i \<Rightarrow> (js_error, idempotency_claim) res \<times> 'd \<times> 'i"
  ip_complete :: "nat \<Rightarrow> claim_handle \<Rightarrow> ev_data \<Rightarrow> 'd \<times> 'i \<Rightarrow> (js_error, unit) res \<times> 'd \<times> 'i"
  ip_renew :: "nat \<Rightarrow> claim_handle \<Rightarrow> 'i \<Rightarrow> (js_error, lease option) res \<times> 'i"
  ip_confirm :: "nat \<Rightarrow> claim_handle \<Rightarrow> 'i \<Rightarrow> (js_error, unit) res \<times> 'i"
  ip_abandon :: "nat \<Rightarrow> claim_handle \<Rightarrow> 'i \<Rightarrow> (js_error, unit) res \<times> 'i"
  ip_reconcile :: "nat \<Rightarrow> reconciliation \<Rightarrow> string \<Rightarrow> 'i \<Rightarrow> (js_error, unit) res \<times> 'i"
  ip_others :: "nat \<Rightarrow> 'i \<Rightarrow> 'i"

datatype heartbeat = NoHeartbeat | Beating claim_handle | HeartbeatFailed js_error

datatype idem_report = IdemReport string js_error claim_handle

record ('d, 'p, 'i) idem_world = "('d, 'p) world" +
  istate :: 'i
  attempt_claim :: "claim_handle option"
  heart :: heartbeat
  idem_step :: nat
  reports_made :: "idem_report list"

record ('d, 'p, 'i) idem_deps = "('d, 'p) commit_deps" +
  idempotency :: "('d, 'i) idem_port"
  reconcileIdempotency :: "(nat \<Rightarrow> reconciliation \<Rightarrow> 'd \<Rightarrow> (js_error, string) res) option"
  timer_fires :: "nat \<Rightarrow> bool"

type_synonym ('d, 'p, 'i, 'a) idem_call =
  "('d, 'p, 'i) idem_world \<Rightarrow> (js_error, 'a) res \<times> ('d, 'p, 'i) idem_world"

definition with_ctx :: "(nat \<Rightarrow> 'd \<times> 'i \<Rightarrow> (js_error, 'a) res \<times> 'd \<times> 'i) \<Rightarrow> ('d, 'p, 'i, 'a) idem_call" where
  "with_ctx f w = (case f (idem_step w) (db w, istate w) of (r, d, i) \<Rightarrow> (r, w\<lparr>db := d, istate := i\<rparr>))"

definition with_store :: "(nat \<Rightarrow> 'i \<Rightarrow> (js_error, 'a) res \<times> 'i) \<Rightarrow> ('d, 'p, 'i, 'a) idem_call" where
  "with_store f w = (case f (idem_step w) (istate w) of (r, i) \<Rightarrow> (r, w\<lparr>istate := i\<rparr>))"

definition idem_report :: "string \<Rightarrow> js_error \<Rightarrow> claim_handle \<Rightarrow> ('d, 'p, 'i) idem_world \<Rightarrow> ('d, 'p, 'i) idem_world" where
  "idem_report operation e h w = w\<lparr>reports_made := reports_made w @ [IdemReport operation e h]\<rparr>"

section \<open>The lease heartbeat\<close>

definition validRenewAfterMs :: "int \<Rightarrow> bool" where
  "validRenewAfterMs v \<longleftrightarrow> \<bar>v\<bar> \<le> max_safe_integer \<and> 0 < v \<and> v \<le> 2147483647"

definition schedule_beat :: "claim_handle \<Rightarrow> int \<Rightarrow> ('d, 'p, 'i) idem_world \<Rightarrow> ('d, 'p, 'i) idem_world" where
  "schedule_beat h delay w =
     w\<lparr>heart := if validRenewAfterMs delay then Beating h else HeartbeatFailed typeError\<rparr>"

definition startLeaseHeartbeat :: "claim_handle \<Rightarrow> ('d, 'p, 'i) idem_world \<Rightarrow> ('d, 'p, 'i) idem_world" where
  "startLeaseHeartbeat h w = (case ch_lease h of
     None \<Rightarrow> w | Some l \<Rightarrow> schedule_beat h (ls_renewAfterMs l) w)"

definition renewal :: "('d, 'i) idem_port \<Rightarrow> ('d, 'p, 'i) idem_world \<Rightarrow> ('d, 'p, 'i) idem_world" where
  "renewal P w = (case heart w of
     Beating h \<Rightarrow> (case with_store (\<lambda>n. ip_renew P n h) w of
         (Inl e, w') \<Rightarrow> w'\<lparr>heart := HeartbeatFailed e\<rparr>
       | (Inr None, w') \<Rightarrow> w'\<lparr>heart := HeartbeatFailed typeError\<rparr>
       | (Inr (Some l), w') \<Rightarrow> schedule_beat h (ls_renewAfterMs l) w')
   | _ \<Rightarrow> w)"

definition stop_heartbeat :: "('d, 'p, 'i) idem_world \<Rightarrow> ('d, 'p, 'i) idem_world" where
  "stop_heartbeat w = (case heart w of Beating _ \<Rightarrow> w\<lparr>heart := NoHeartbeat\<rparr> | _ \<Rightarrow> w)"

definition heartbeat_failure :: "('d, 'p, 'i) idem_world \<Rightarrow> js_error option" where
  "heartbeat_failure w = (case heart w of HeartbeatFailed e \<Rightarrow> Some e | _ \<Rightarrow> None)"

text \<open>Time passes: other executions have their turn, and the timer may fire.\<close>

definition pause :: "('d, 'p, 'i) idem_deps \<Rightarrow> ('d, 'p, 'i) idem_world \<Rightarrow> ('d, 'p, 'i) idem_world" where
  "pause deps w =
     (let w1 = w\<lparr>istate := ip_others (idempotency deps) (idem_step w) (istate w), idem_step := idem_step w + 1\<rparr>
      in if timer_fires deps (idem_step w) then renewal (idempotency deps) w1 else w1)"

section \<open>The callback\<close>

definition call_store :: "('d, 'p, 'i) idem_deps \<Rightarrow> ('d, 'p, 'i, 'a) idem_call
    \<Rightarrow> ('a \<Rightarrow> (('d, 'p, 'i) idem_world, 'r) work) \<Rightarrow> (('d, 'p, 'i) idem_world, 'r) work" where
  "call_store deps op K = Step (pause deps) (\<lambda>w. case op w of
     (Inl e, w') \<Rightarrow> Step (\<lambda>_. w') (\<lambda>_. Fail e)
   | (Inr x, w') \<Rightarrow> Step (\<lambda>_. w') (\<lambda>_. K x))"

text \<open>
  The user's callback sees the world without the fields of the wrapper; a pause stands
  before each of its steps and before it settles.
\<close>

definition on_world :: "(('d, 'p) world \<Rightarrow> ('d, 'p) world) \<Rightarrow> ('d, 'p, 'i) idem_world \<Rightarrow> ('d, 'p, 'i) idem_world" where
  "on_world u w = world.extend (u (world.truncate w)) (world.more w)"

primrec user_work :: "('d, 'p, 'i) idem_deps \<Rightarrow> ('r \<Rightarrow> commit_token list option \<Rightarrow> (('d, 'p, 'i) idem_world, 's) work)
    \<Rightarrow> (('d, 'p) world, 'r) work \<Rightarrow> (('d, 'p, 'i) idem_world, 's) work" where
  "user_work deps K (Done r toks) = Step (pause deps) (\<lambda>_. K r toks)"
| "user_work deps K (Fail e) = Step (pause deps) (\<lambda>_. Fail e)"
| "user_work deps K (Step u k) = Step (\<lambda>w. on_world u (pause deps w)) (\<lambda>w. user_work deps K (k (world.truncate w)))"
| "user_work deps K (EnrollSaved a k) = EnrollSaved a (\<lambda>r. user_work deps K (k r))"
| "user_work deps K (EnrollDeleted a k) = EnrollDeleted a (\<lambda>r. user_work deps K (k r))"

definition run_claimed :: "('d, 'p, 'i) idem_deps \<Rightarrow> (string \<Rightarrow> (('d, 'p) world, ev_data) work) \<Rightarrow> claim_handle
    \<Rightarrow> (('d, 'p, 'i) idem_world, bool \<times> ev_data) work" where
  "run_claimed deps fn h = Step (\<lambda>w. startLeaseHeartbeat h (w\<lparr>attempt_claim := Some h\<rparr>)) (\<lambda>_.
     user_work deps (\<lambda>result toks.
       call_store deps (with_ctx (\<lambda>n. ip_complete (idempotency deps) n h result)) (\<lambda>_. Done (False, result) toks))
     (fn (ch_token h)))"

definition reconciliation_error :: "reconciliation \<Rightarrow> js_error" where
  "reconciliation_error r = kit (IdempotencyReconciliationRequiredError (re_key r) (re_fingerprint r) (re_token r))"

definition decide :: "('d, 'p, 'i) idem_deps \<Rightarrow> reconciliation \<Rightarrow> ('d, 'p, 'i, string) idem_call" where
  "decide deps r w = (case reconcileIdempotency deps of
     None \<Rightarrow> (Inr ''unknown'', w)
   | Some f \<Rightarrow> (f (idem_step w) r (db w), w))"

definition on_claim :: "('d, 'p, 'i) idem_deps \<Rightarrow> (string \<Rightarrow> (('d, 'p) world, ev_data) work)
    \<Rightarrow> (reconciliation \<Rightarrow> (('d, 'p, 'i) idem_world, bool \<times> ev_data) work) \<Rightarrow> idempotency_claim
    \<Rightarrow> (('d, 'p, 'i) idem_world, bool \<times> ev_data) work" where
  "on_claim deps fn recover c = (case c of
     Claimed h \<Rightarrow> run_claimed deps fn h
   | Completed out \<Rightarrow> Done (True, out) (Some [])
   | ReconciliationRequired r \<Rightarrow> recover r)"

definition idem_work :: "('d, 'p, 'i) idem_deps \<Rightarrow> string \<Rightarrow> string \<Rightarrow> (string \<Rightarrow> (('d, 'p) world, ev_data) work)
    \<Rightarrow> (('d, 'p, 'i) idem_world, bool \<times> ev_data) work" where
  "idem_work deps key fp fn =
     (let claim_again = with_ctx (\<lambda>n. ip_claim (idempotency deps) n key fp)
      in call_store deps claim_again (on_claim deps fn (\<lambda>r.
           call_store deps (decide deps r) (\<lambda>decision.
             if decision = ''unknown'' then Fail (reconciliation_error r)
             else if decision \<noteq> ''committed'' \<and> decision \<noteq> ''not-committed'' then Fail typeError
             else call_store deps (with_store (\<lambda>n. ip_reconcile (idempotency deps) n r decision)) (\<lambda>_.
               call_store deps claim_again (on_claim deps fn (\<lambda>r'. Fail (reconciliation_error r'))))))))"

section \<open>The scope of an attempt\<close>

definition release_claim :: "('d, 'p, 'i) idem_deps \<Rightarrow> ('d, 'p, 'i) idem_world \<Rightarrow> ('d, 'p, 'i) idem_world" where
  "release_claim deps w = (case attempt_claim w of
     None \<Rightarrow> w
   | Some h \<Rightarrow> (case with_store (\<lambda>n. ip_abandon (idempotency deps) n h) (w\<lparr>attempt_claim := None\<rparr>) of
       (Inl e, w') \<Rightarrow> idem_report ''abandon'' e h w'
     | (Inr _, w') \<Rightarrow> w'))"

definition report_heartbeat :: "('d, 'p, 'i) idem_world \<Rightarrow> ('d, 'p, 'i) idem_world" where
  "report_heartbeat w = (case (heartbeat_failure w, attempt_claim w) of
     (Some e, Some h) \<Rightarrow> idem_report ''renew'' e h w | _ \<Rightarrow> w)"

definition attempt_body :: "('d, 'p, 'i) idem_deps \<Rightarrow> ('d, 'p, 'i, 'a) idem_call \<Rightarrow> ('d, 'p, 'i, 'a) idem_call" where
  "attempt_body deps work w =
     (case work (w\<lparr>attempt_claim := None, heart := NoHeartbeat\<rparr>) of
        (Inr result, w1) \<Rightarrow>
          (let w2 = stop_heartbeat (pause deps w1)
           in case heartbeat_failure w2 of
                Some e \<Rightarrow> (Inl e, release_claim deps w2)
              | None \<Rightarrow> (Inr result, w2))
      | (Inl e, w1) \<Rightarrow> (Inl e, release_claim deps (report_heartbeat (stop_heartbeat (pause deps w1)))))"

definition withIdempotentCommit :: "('d, 'p, 'i) idem_deps
    \<Rightarrow> (('d, 'p, 'i, (bool \<times> ev_data) \<times> commit_record list \<times> 'p domain_event list) idem_call
        \<Rightarrow> ('d, 'p, 'i, (bool \<times> ev_data) \<times> commit_record list \<times> 'p domain_event list) idem_call)
    \<Rightarrow> string \<Rightarrow> string \<Rightarrow> (string \<Rightarrow> (('d, 'p) world, ev_data) work) \<Rightarrow> ('d, 'p, 'i, bool \<times> ev_data) idem_call" where
  "withIdempotentCommit deps transactional key fp fn w =
     (case withCommit (commit_deps.truncate deps) (\<lambda>work. transactional (attempt_body deps work))
             (idem_work deps key fp fn) w of
        (Inl e, w') \<Rightarrow> (Inl e, w')
      | (Inr (replayed, result), w') \<Rightarrow>
          if replayed then (Inr (replayed, result), w')
          else (case attempt_claim w' of
              None \<Rightarrow> (Inl commit_error, w')
            | Some h \<Rightarrow> (case with_store (\<lambda>n. ip_confirm (idempotency deps) n h) (pause deps w') of
                (Inl e, w'') \<Rightarrow> (Inr (replayed, result), idem_report ''confirm'' e h w'')
              | (Inr _, w'') \<Rightarrow> (Inr (replayed, result), w''))))"

section \<open>The contract of a leased store\<close>

text \<open>
  For one key and fingerprint: the key is \<open>filed\<close> (it has an entry with the fingerprint),
  an outcome is \<open>staged\<close> under a token, or it is \<open>confirmed\<close>. Other executions keep all
  three, since they do not have the tokens.
\<close>

locale leased_store =
  fixes P :: "('d, 'i) idem_port" and key fp :: string
    and filed :: "'i \<Rightarrow> bool" and staged :: "string \<Rightarrow> ev_data \<Rightarrow> 'i \<Rightarrow> bool" and confirmed :: "ev_data \<Rightarrow> 'i \<Rightarrow> bool"
  assumes claim_files: "ip_claim P n key fp (d, s) = (Inr (Claimed h), d', s') \<Longrightarrow> ch_key h = key \<and> filed s'"
    and complete_stages: "ip_complete P n h out (d, s) = (Inr (), d', s') \<Longrightarrow> filed s \<Longrightarrow> ch_key h = key
      \<Longrightarrow> staged (ch_token h) out s'"
    and renew_keeps: "ip_renew P n h s = (lr, s') \<Longrightarrow> (filed s \<longrightarrow> filed s') \<and> (staged t out s \<longrightarrow> staged t out s')"
    and others_keep: "(filed s \<longrightarrow> filed (ip_others P n s)) \<and> (staged t out s \<longrightarrow> staged t out (ip_others P n s))
      \<and> (confirmed out s \<longrightarrow> confirmed out (ip_others P n s))"
    and claim_replays: "ip_claim P n key fp (d, s) = (cr, d', s') \<Longrightarrow> confirmed out s
      \<Longrightarrow> d' = d \<and> confirmed out s' \<and> (case cr of Inl _ \<Rightarrow> True | Inr c \<Rightarrow> c = Completed out)"

section \<open>What the steps leave alone\<close>

lemma renewal_frame [simp]:
  "db (renewal P w) = db w" "heap (renewal P w) = heap w" "log (renewal P w) = log w"
  "scopes (renewal P w) = scopes w" "attempt_claim (renewal P w) = attempt_claim w"
  "idem_step (renewal P w) = idem_step w"
  by (auto simp: renewal_def with_store_def schedule_beat_def split: heartbeat.splits prod.splits sum.splits option.splits)

lemma pause_frame [simp]:
  "db (pause deps w) = db w" "heap (pause deps w) = heap w" "log (pause deps w) = log w"
  "scopes (pause deps w) = scopes w" "attempt_claim (pause deps w) = attempt_claim w"
  by (simp_all add: pause_def Let_def)

lemma pause_silent:
  assumes "heart w = NoHeartbeat"
  shows "heart (pause deps w) = NoHeartbeat" "istate (pause deps w) = ip_others (idempotency deps) (idem_step w) (istate w)"
  using assms by (simp_all add: pause_def Let_def renewal_def)

lemma on_world_frame [simp]:
  "istate (on_world u w) = istate w" "attempt_claim (on_world u w) = attempt_claim w" "heart (on_world u w) = heart w"
  by (cases w; simp add: on_world_def world.truncate_def world.extend_def)+

lemma start_frame [simp]:
  "istate (startLeaseHeartbeat h w) = istate w" "attempt_claim (startLeaseHeartbeat h w) = attempt_claim w"
  by (simp_all add: startLeaseHeartbeat_def schedule_beat_def split: option.split)

lemma stop_frame [simp]:
  "istate (stop_heartbeat w) = istate w" "attempt_claim (stop_heartbeat w) = attempt_claim w"
  "db (stop_heartbeat w) = db w" "heap (stop_heartbeat w) = heap w" "log (stop_heartbeat w) = log w"
  by (simp_all add: stop_heartbeat_def split: heartbeat.split)

lemma post_commit_frame [simp]:
  "istate (post_commit deps recs events w) = istate w" "attempt_claim (post_commit deps recs events w) = attempt_claim w"
  by (simp_all add: post_commit_def Let_def case_prod_unfold)

lemma call_store_run:
  assumes "run_work (call_store deps op K) ts w = (x, ts', w')"
  obtains (threw) e where "op (pause deps w) = (Inl e, w')" "x = Inl e" "ts' = ts"
  | (called) r w1 where "op (pause deps w) = (Inr r, w1)" "run_work (K r) ts w1 = (x, ts', w')"
proof -
  obtain r w1 where "op (pause deps w) = (r, w1)" by force
  with assms that show thesis by (cases r) (auto simp: call_store_def)
qed

text \<open>A condition on the store's state that the pauses keep is kept by the user's callback.\<close>

lemma user_work_run:
  assumes run: "run_work (user_work deps K fn) ts w = (x, ts', w')" and inv: "I (istate w)"
    and keep: "\<And>w. I (istate w) \<Longrightarrow> I (istate (pause deps w))"
  shows "(\<exists>r toks ts1 w1. run_work (K r toks) ts1 w1 = (x, ts', w') \<and> I (istate w1) \<and> attempt_claim w1 = attempt_claim w)
    \<or> (\<exists>e. x = Inl e \<and> I (istate w') \<and> attempt_claim w' = attempt_claim w)"
  using run inv
proof (induction fn arbitrary: ts w)
  case (Done r toks)
  with keep[of w] have "run_work (K r toks) ts (pause deps w) = (x, ts', w')" "I (istate (pause deps w))" by simp_all
  then show ?case using pause_frame(5) by blast
next
  case (Fail e)
  with keep[of w] show ?case by auto
next
  case (Step u k)
  let ?w = "on_world u (pause deps w)"
  from Step.prems(1) have run: "run_work (user_work deps K (k (world.truncate ?w))) ts ?w = (x, ts', w')" by simp
  from Step.IH[OF rangeI run] keep[OF Step.prems(2)] show ?case by simp
next
  case (EnrollSaved a k)
  obtain y ts1 where "enroll (heap w) a False ts = (y, ts1)" by force
  with EnrollSaved.prems EnrollSaved.IH[OF rangeI, of y ts1 w] show ?case by simp
next
  case (EnrollDeleted a k)
  obtain y ts1 where "enroll (heap w) a True ts = (y, ts1)" by force
  with EnrollDeleted.prems EnrollDeleted.IH[OF rangeI, of y ts1 w] show ?case by simp
qed

section \<open>Commands over a leased store\<close>

locale idempotent_commit = leased_store "idempotency deps" key fp filed staged confirmed
    + transaction_scope db put_db transactional
  for deps :: "('d, 'p, 'i) idem_deps" and key fp :: string
    and filed :: "'i \<Rightarrow> bool" and staged :: "string \<Rightarrow> ev_data \<Rightarrow> 'i \<Rightarrow> bool" and confirmed :: "ev_data \<Rightarrow> 'i \<Rightarrow> bool"
    and transactional :: "('d, 'p, 'i, (bool \<times> ev_data) \<times> commit_record list \<times> 'p domain_event list) idem_call
      \<Rightarrow> ('d, 'p, 'i, (bool \<times> ev_data) \<times> commit_record list \<times> 'p domain_event list) idem_call"
begin

lemma renewal_keeps:
  "(filed (istate w) \<longrightarrow> filed (istate (renewal (idempotency deps) w))) \<and>
   (staged t out (istate w) \<longrightarrow> staged t out (istate (renewal (idempotency deps) w)))"
proof (cases "heart w")
  case (Beating h)
  obtain r i where r: "ip_renew (idempotency deps) (idem_step w) h (istate w) = (r, i)" by force
  with renew_keeps[OF this, of t out] Beating show ?thesis
    by (simp add: renewal_def with_store_def schedule_beat_def split: sum.split option.split)
qed (simp_all add: renewal_def)

lemma pause_keeps:
  "filed (istate w) \<Longrightarrow> filed (istate (pause deps w))"
  "staged t out (istate w) \<Longrightarrow> staged t out (istate (pause deps w))"
proof -
  let ?w = "w\<lparr>istate := ip_others (idempotency deps) (idem_step w) (istate w), idem_step := idem_step w + 1\<rparr>"
  have p: "istate (pause deps w) = istate ?w \<or> istate (pause deps w) = istate (renewal (idempotency deps) ?w)"
    by (simp add: pause_def Let_def)
  show "filed (istate w) \<Longrightarrow> filed (istate (pause deps w))"
    using p others_keep[of "istate w" "idem_step w"] renewal_keeps[of ?w] by auto
  show "staged t out (istate w) \<Longrightarrow> staged t out (istate (pause deps w))"
    using p others_keep[of "istate w" "idem_step w" t out] renewal_keeps[of ?w t out] by auto
qed

lemma pause_confirmed:
  assumes "confirmed out (istate w)" "heart w = NoHeartbeat"
  shows "confirmed out (istate (pause deps w))"
  using assms others_keep[of "istate w" "idem_step w" _ out] by (simp add: pause_silent)

subsection \<open>A fresh execution\<close>

definition own :: "ev_data \<Rightarrow> ('d, 'p, 'i) idem_world \<Rightarrow> bool" where
  "own out w \<longleftrightarrow> (\<exists>h. ch_key h = key \<and> attempt_claim w = Some h \<and> staged (ch_token h) out (istate w))"

lemma run_claimed_fresh:
  assumes run: "run_work (run_claimed deps fn h) ts w = (Inr (x, toks), ts', w')"
    and h: "filed (istate w)" "ch_key h = key"
  shows "\<not> fst x \<and> own (snd x) w'"
proof -
  let ?w = "startLeaseHeartbeat h (w\<lparr>attempt_claim := Some h\<rparr>)"
  let ?K = "\<lambda>result toks. call_store deps (with_ctx (\<lambda>n. ip_complete (idempotency deps) n h result))
    (\<lambda>_. Done (False, result) toks)"
  from run have run': "run_work (user_work deps ?K (fn (ch_token h))) ts ?w = (Inr (x, toks), ts', w')"
    by (simp add: run_claimed_def)
  have f: "filed (istate ?w)" using h by simp
  from user_work_run[OF run', where I = filed, OF f pause_keeps(1)]
  obtain r toks1 ts1 w1 where k: "run_work (?K r toks1) ts1 w1 = (Inr (x, toks), ts', w')"
      "filed (istate w1)" "attempt_claim w1 = Some h" by auto
  from k(1) show ?thesis
  proof (cases rule: call_store_run)
    case (called y w2)
    let ?p = "pause deps w1"
    obtain d i where c: "ip_complete (idempotency deps) (idem_step ?p) h r (db ?p, istate ?p) = (Inr (), d, i)"
        "w2 = ?p\<lparr>db := d, istate := i\<rparr>"
      using called(1) by (auto simp: with_ctx_def split: prod.splits)
    from complete_stages[OF c(1)] k(2) h(2) pause_keeps(1) have "staged (ch_token h) r i" by blast
    with called(2) c(2) k(3) h(2) show ?thesis by (auto simp: own_def)
  qed auto
qed

lemma claim_fresh:
  assumes op: "with_ctx (\<lambda>n. ip_claim (idempotency deps) n key fp) (pause deps w) = (Inr c, w1)"
    and run: "run_work (on_claim deps fn recover c) ts w1 = (Inr ((False, out), toks), ts', w')"
  shows "own out w' \<or> (\<exists>r. c = ReconciliationRequired r \<and> run_work (recover r) ts w1 = (Inr ((False, out), toks), ts', w'))"
proof (cases c)
  case (Claimed h)
  let ?p = "pause deps w"
  obtain d i where "ip_claim (idempotency deps) (idem_step ?p) key fp (db ?p, istate ?p) = (Inr (Claimed h), d, i)"
      "w1 = ?p\<lparr>db := d, istate := i\<rparr>"
    using op Claimed by (auto simp: with_ctx_def split: prod.splits)
  with claim_files have "filed (istate w1)" "ch_key h = key" by fastforce+
  from run_claimed_fresh[OF _ this, of fn ts "(False, out)" toks ts' w'] run Claimed
  show ?thesis by (simp add: on_claim_def)
qed (use run in \<open>auto simp: on_claim_def\<close>)

lemma idem_work_fresh:
  assumes "run_work (idem_work deps key fp fn) ts w = (Inr ((False, out), toks), ts', w')"
  shows "own out w'"
  using assms unfolding idem_work_def Let_def
proof (cases rule: call_store_run)
  case (called c w1)
  from claim_fresh[OF called] show ?thesis
  proof (elim disjE exE conjE)
    fix r assume "c = ReconciliationRequired r"
    assume "run_work (call_store deps (decide deps r) (\<lambda>decision.
             if decision = ''unknown'' then Fail (reconciliation_error r)
             else if decision \<noteq> ''committed'' \<and> decision \<noteq> ''not-committed'' then Fail typeError
             else call_store deps (with_store (\<lambda>n. ip_reconcile (idempotency deps) n r decision)) (\<lambda>_.
               call_store deps (with_ctx (\<lambda>n. ip_claim (idempotency deps) n key fp))
                 (on_claim deps fn (\<lambda>r'. Fail (reconciliation_error r')))))) ts w1 = (Inr ((False, out), toks), ts', w')"
    then show ?thesis
    proof (cases rule: call_store_run)
      case (called decision w2)
      from called(2) have "run_work (call_store deps (with_store (\<lambda>n. ip_reconcile (idempotency deps) n r decision)) (\<lambda>_.
               call_store deps (with_ctx (\<lambda>n. ip_claim (idempotency deps) n key fp))
                 (on_claim deps fn (\<lambda>r'. Fail (reconciliation_error r'))))) ts w2 = (Inr ((False, out), toks), ts', w')"
        by (auto split: if_splits)
      then show ?thesis
      proof (cases rule: call_store_run)
        case (called u w3)
        from called(2) show ?thesis
        proof (cases rule: call_store_run)
          case (called c' w4)
          from claim_fresh[OF called] show ?thesis by auto
        qed auto
      qed auto
    qed auto
  qed
qed auto

lemma attempt_fresh:
  assumes "attempt_body deps (commit_body cd (idem_work deps key fp fn)) w = (Inr ((False, out), recs, events), w')"
  shows "own out w'"
proof -
  let ?w = "w\<lparr>attempt_claim := None, heart := NoHeartbeat\<rparr>"
  from assms obtain w1 where body: "commit_body cd (idem_work deps key fp fn) ?w = (Inr ((False, out), recs, events), w1)"
      "w' = stop_heartbeat (pause deps w1)"
    by (auto simp: attempt_body_def Let_def split: prod.splits sum.splits option.splits)
  from commit_body_Inr[OF body(1)] obtain toks ts w2 d where
    "run_work (idem_work deps key fp fn) (new_token_scope (scopes ?w)) (?w\<lparr>scopes := scopes ?w + 1\<rparr>) = (Inr ((False, out), toks), ts, w2)"
    "w1 = w2\<lparr>db := d\<rparr>" by blast
  with idem_work_fresh have "own out w1" by (fastforce simp: own_def)
  with body(2) pause_keeps(2) show ?thesis by (auto simp: own_def)
qed

abbreviation attempt_scope :: "('d, 'p, 'i, (bool \<times> ev_data) \<times> commit_record list \<times> 'p domain_event list) idem_call
    \<Rightarrow> ('d, 'p, 'i, (bool \<times> ev_data) \<times> commit_record list \<times> 'p domain_event list) idem_call" where
  "attempt_scope work \<equiv> transactional (attempt_body deps work)"

lemma returned:
  assumes "withCommit cd attempt_scope (idem_work deps key fp fn) w = (Inr x, w')"
  obtains w0 recs events w1 where "attempted (attempt_body deps (commit_body cd (idem_work deps key fp fn))) put_db (db w) w w0"
    and "attempt_body deps (commit_body cd (idem_work deps key fp fn)) w0 = (Inr (x, recs, events), w1)"
    and "w' = post_commit cd recs events w1"
  using withCommit_Inr[OF assms] committed by blast

lemma fresh_owned:
  assumes "withCommit cd attempt_scope (idem_work deps key fp fn) w = (Inr (False, out), w')"
  shows "own out w'"
  using assms by (elim returned) (drule attempt_fresh, simp add: own_def)

lemma fresh_committed:
  assumes "withIdempotentCommit deps transactional key fp fn w = (Inr (False, out), w')"
  shows "\<exists>h n s. ch_key h = key \<and> staged (ch_token h) out s \<and> istate w' = snd (ip_confirm (idempotency deps) n h s)"
proof -
  let ?cd = "commit_deps.truncate deps"
  from assms obtain w1 where c: "withCommit ?cd attempt_scope (idem_work deps key fp fn) w = (Inr (False, out), w1)"
    by (auto simp: withIdempotentCommit_def split: prod.splits sum.splits option.splits if_splits)
  from fresh_owned[OF c] obtain h where h: "ch_key h = key" "attempt_claim w1 = Some h" "staged (ch_token h) out (istate w1)"
    by (auto simp: own_def)
  let ?p = "pause deps w1"
  from assms c h(2) have "istate w' = snd (ip_confirm (idempotency deps) (idem_step ?p) h (istate ?p))"
    by (auto simp: withIdempotentCommit_def with_store_def idem_report_def split: prod.splits sum.splits)
  with h pause_keeps(2) show ?thesis by blast
qed

text \<open>A call that throws did not commit.\<close>

lemma thrown_uncommitted:
  assumes "withIdempotentCommit deps transactional key fp fn w = (Inl e, w')"
  shows "db w' = db w"
proof -
  let ?cd = "commit_deps.truncate deps"
  obtain x w1 where c: "withCommit ?cd attempt_scope (idem_work deps key fp fn) w = (x, w1)" by force
  show ?thesis
  proof (cases x)
    case (Inl e')
    with assms c have "w' = w1" by (simp add: withIdempotentCommit_def)
    moreover from withCommit_Inl[of ?cd attempt_scope "idem_work deps key fp fn" w] c Inl failed_view
    have "db w1 = db w" by blast
    ultimately show ?thesis by simp
  next
    case (Inr y)
    then obtain rep out where y: "x = Inr (rep, out)" by (cases y) simp
    show ?thesis
    proof (cases rep)
      case False
      with c y have "withCommit ?cd attempt_scope (idem_work deps key fp fn) w = (Inr (False, out), w1)" by simp
      then have "own out w1" by (rule fresh_owned)
      with assms c y False show ?thesis
        by (auto simp: withIdempotentCommit_def own_def split: prod.splits sum.splits)
    qed (use assms c y in \<open>simp add: withIdempotentCommit_def\<close>)
  qed
qed

subsection \<open>A replay\<close>

text \<open>Against a confirmed outcome the callback is not run, and nothing else is touched.\<close>

definition replaying :: "ev_data \<Rightarrow> ('d, 'p, 'i) idem_world \<Rightarrow> ('d, 'p, 'i) idem_world \<Rightarrow> bool" where
  "replaying out w w' \<longleftrightarrow> confirmed out (istate w') \<and> heart w' = NoHeartbeat \<and> attempt_claim w' = None
     \<and> db w' = db w \<and> heap w' = heap w \<and> log w' = log w"

lemma idem_work_replays:
  assumes run: "run_work (idem_work deps key fp fn) ts w = (x, ts', w')" and c: "confirmed out (istate w)"
    and quiet: "heart w = NoHeartbeat" "attempt_claim w = None"
  shows "replaying out w w' \<and> ts' = ts \<and> (case x of Inl _ \<Rightarrow> True | Inr y \<Rightarrow> y = ((True, out), Some []))"
proof -
  let ?p = "pause deps w"
  have p: "confirmed out (istate ?p)" "heart ?p = NoHeartbeat"
    using pause_confirmed[OF c quiet(1)] quiet by (simp_all add: pause_silent)
  obtain r d i where cl: "ip_claim (idempotency deps) (idem_step ?p) key fp (db ?p, istate ?p) = (r, d, i)"
    using prod_cases3 by blast
  from claim_replays[OF cl p(1)] have k: "d = db w" "confirmed out i" "case r of Inl _ \<Rightarrow> True | Inr c \<Rightarrow> c = Completed out"
    by simp_all
  let ?w1 = "?p\<lparr>db := d, istate := i\<rparr>"
  have op: "with_ctx (\<lambda>n. ip_claim (idempotency deps) n key fp) ?p = (r, ?w1)"
    using cl by (simp add: with_ctx_def)
  have same: "replaying out w ?w1" using k p quiet by (simp add: replaying_def)
  from run[unfolded idem_work_def Let_def] show ?thesis
  proof (cases rule: call_store_run)
    case (threw e)
    with op same show ?thesis by auto
  next
    case (called c' w1)
    with op k(3) have "c' = Completed out" "w1 = ?w1" by auto
    with called(2) same show ?thesis by (auto simp: on_claim_def)
  qed
qed

lemma commit_replays:
  assumes run: "commit_body cd (idem_work deps key fp fn) w = (x, w')" and c: "confirmed out (istate w)"
    and quiet: "heart w = NoHeartbeat" "attempt_claim w = None"
  shows "replaying out w w' \<and> (case x of Inl _ \<Rightarrow> True | Inr y \<Rightarrow> y = ((True, out), [], []))"
proof -
  let ?w = "w\<lparr>scopes := scopes w + 1\<rparr>" and ?ts = "new_token_scope (scopes w)"
  obtain fr ts w1 where r: "run_work (idem_work deps key fp fn) ?ts ?w = (fr, ts, w1)"
    by (cases "run_work (idem_work deps key fp fn) ?ts ?w") auto
  from idem_work_replays[OF r, of out] c quiet have k: "replaying out w w1" "ts = ?ts" "case fr of Inl _ \<Rightarrow> True | Inr y \<Rightarrow> y = ((True, out), Some [])"
    by (simp_all add: replaying_def)
  have "resolve (?ts\<lparr>ts_open := False\<rparr>) (Some []) = Inr []" "harvest (heap w1) [] = Inr []"
    by (simp_all add: resolve_def new_token_scope_def harvest_def)
  with run r k show ?thesis by (cases fr) (auto simp: commit_body_def)
qed

lemma attempt_replays:
  assumes run: "attempt_body deps (commit_body cd (idem_work deps key fp fn)) w = (x, w')" and c: "confirmed out (istate w)"
  shows "replaying out (w\<lparr>attempt_claim := None, heart := NoHeartbeat\<rparr>) w' \<and> (case x of Inl _ \<Rightarrow> True | Inr y \<Rightarrow> y = ((True, out), [], []))"
proof -
  let ?w = "w\<lparr>attempt_claim := None, heart := NoHeartbeat\<rparr>"
  obtain r w1 where b: "commit_body cd (idem_work deps key fp fn) ?w = (r, w1)" by force
  from commit_replays[OF b, of out] c have k: "replaying out ?w w1" "case r of Inl _ \<Rightarrow> True | Inr y \<Rightarrow> y = ((True, out), [], [])" by simp_all
  let ?w2 = "stop_heartbeat (pause deps w1)"
  have q: "heart (pause deps w1) = NoHeartbeat" using k(1) by (simp add: replaying_def pause_silent)
  then have "heart ?w2 = NoHeartbeat" by (simp add: stop_heartbeat_def)
  moreover have "confirmed out (istate (pause deps w1))" using k(1) pause_confirmed by (simp add: replaying_def)
  ultimately have "replaying out ?w ?w2" "heartbeat_failure ?w2 = None" "release_claim deps (report_heartbeat ?w2) = ?w2"
    using k(1) by (simp_all add: replaying_def heartbeat_failure_def report_heartbeat_def release_claim_def)
  with run b k(2) show ?thesis by (auto simp: attempt_body_def Let_def split: sum.splits)
qed

lemma replayed:
  assumes run: "withIdempotentCommit deps transactional key fp fn w = (x, w')" and c: "confirmed out (istate w)"
  shows "confirmed out (istate w') \<and> db w' = db w \<and> heap w' = heap w \<and> log w' = log w \<and> (case x of Inl _ \<Rightarrow> True | Inr y \<Rightarrow> y = (True, out))"
proof -
  let ?cd = "commit_deps.truncate deps"
  let ?I = "\<lambda>u. confirmed out (istate u) \<and> heap u = heap w \<and> log u = log w"
  have step: "?I u'" if "?I u" "attempt_body deps (commit_body ?cd (idem_work deps key fp fn)) u = (y, u')" for u y u'
    using attempt_replays[OF that(2), of out] that(1) by (simp add: replaying_def)
  obtain r w1 where com: "withCommit ?cd attempt_scope (idem_work deps key fp fn) w = (r, w1)" by force
  show ?thesis
  proof (cases r)
    case (Inl e)
    with run com have w1: "w' = w1" "x = Inl e" by (simp_all add: withIdempotentCommit_def)
    from withCommit_Inl[OF com[unfolded Inl]] show ?thesis
    proof
      assume "w1 = w"
      with w1 c show ?thesis by simp
    next
      assume t: "attempt_scope (commit_body ?cd (idem_work deps key fp fn)) w = (Inl e, w1)"
      have "?I w1"
      proof (rule kept[OF t])
        fix u y u' assume "?I u" "attempt_body deps (commit_body ?cd (idem_work deps key fp fn)) u = (y, u')"
        then show "?I u'" by (rule step)
      qed (simp_all add: c put_db_def)
      with w1 failed_view[OF t] show ?thesis by simp
    qed
  next
    case (Inr y)
    from com[unfolded Inr] obtain w0 recs events w2 where
      a: "attempted (attempt_body deps (commit_body ?cd (idem_work deps key fp fn))) put_db (db w) w w0"
      and b: "attempt_body deps (commit_body ?cd (idem_work deps key fp fn)) w0 = (Inr (y, recs, events), w2)"
      and p: "w1 = post_commit ?cd recs events w2" by (rule returned)
    from a have i: "?I w0"
    proof (induction rule: attempted.induct)
      case (more w0 y u')
      from step[OF more.IH more.hyps(2)] show ?case by (simp add: put_db_def)
    qed (simp add: c)
    from attempt_replays[OF b, of out] i attempted_view[OF a]
    have k: "y = (True, out)" "recs = []" "events = []" "?I w2" "db w2 = db w" by (auto simp: replaying_def)
    have "post_commit ?cd [] [] w2 = w2" by (auto simp: post_commit_def split: option.split)
    with p k run com Inr show ?thesis by (auto simp: withIdempotentCommit_def)
  qed
qed

end

section \<open>The in-memory store\<close>

text \<open>
  The in-memory store behind the port: it ignores the transaction context. Between two steps
  any sequence of operations of other executions may run.
\<close>

definition memory_idem_port :: "(nat \<Rightarrow> int option) \<Rightarrow> (nat \<Rightarrow> (js_error, string option) res) \<Rightarrow> (nat \<Rightarrow> idem_op list)
    \<Rightarrow> ('d, idempotency_store) idem_port" where
  "memory_idem_port clk tokens others = \<lparr>
     ip_claim = \<lambda>n key fp (d, s). (case claim (clk n) (tokens n) key fp s of (r, s') \<Rightarrow> (r, d, s')),
     ip_complete = \<lambda>n h out (d, s). (case complete (clk n) h out s of (r, s') \<Rightarrow> (r, d, s')),
     ip_renew = \<lambda>n h s. (case renew (clk n) h s of (Inl e, s') \<Rightarrow> (Inl e, s') | (Inr l, s') \<Rightarrow> (Inr (Some l), s')),
     ip_confirm = \<lambda>n h s. (Inr (), confirm h s),
     ip_abandon = \<lambda>n h s. (Inr (), abandon h s),
     ip_reconcile = \<lambda>n r decision s. reconcile (clk n) r decision s,
     ip_others = \<lambda>n s. run_ops (others n) s\<rparr>"

text \<open>An execution without the token of a key can only try to claim it.\<close>

fun spares :: "string \<Rightarrow> idem_op \<Rightarrow> bool" where
  "spares key (Claim _ _ _ _) \<longleftrightarrow> True"
| "spares key (Complete _ h _) \<longleftrightarrow> ch_key h \<noteq> key"
| "spares key (Renew _ h) \<longleftrightarrow> ch_key h \<noteq> key"
| "spares key (Confirm h) \<longleftrightarrow> ch_key h \<noteq> key"
| "spares key (Abandon h) \<longleftrightarrow> ch_key h \<noteq> key"
| "spares key (Reconcile _ r _) \<longleftrightarrow> re_key r \<noteq> key"

lemma spares_token: "spares key op \<Longrightarrow> \<not> op_token op key t"
  by (cases op) (auto simp: op_token_def)

definition is_pending :: "entry \<Rightarrow> bool" where
  "is_pending e \<longleftrightarrow> (case e of PendingEntry _ _ _ \<Rightarrow> True | _ \<Rightarrow> False)"

lemma spared_entry:
  assumes "jget (entries s) key = Some e" "spares key op"
  shows "\<exists>e'. jget (entries (run_op op s)) key = Some e' \<and> fingerprint e' = fingerprint e \<and> (\<not> is_pending e \<longrightarrow> e' = e)"
proof -
  obtain k c where eff: "op_effect op s k c (run_op op s)"
    using run_op_effect[of op s] by (auto simp: effect_def)
  show ?thesis
  proof (cases "k = key")
    case True
    with eff assms(1) have "entry_step op s key (Some e) c" by (simp add: op_effect_def)
    then have "c = Unchanged \<or> (\<exists>e'. c = Made e' \<and> fingerprint e' = fingerprint e \<and> is_pending e)"
      using spares_token[OF assms(2)] by cases (auto simp: is_pending_def)
    with eff assms(1) True show ?thesis by (auto simp: op_effect_def)
  next
    case False
    with eff assms(1) show ?thesis by (cases c) (auto simp: op_effect_def)
  qed
qed

definition mem_filed :: "string \<Rightarrow> string \<Rightarrow> idempotency_store \<Rightarrow> bool" where
  "mem_filed key fp s \<longleftrightarrow> (\<exists>e. jget (entries s) key = Some e \<and> fingerprint e = fp)"

definition mem_staged :: "string \<Rightarrow> string \<Rightarrow> string \<Rightarrow> ev_data \<Rightarrow> idempotency_store \<Rightarrow> bool" where
  "mem_staged key fp t out s \<longleftrightarrow> (\<exists>x. jget (entries s) key = Some (StagedEntry fp t x out))"

definition mem_confirmed :: "string \<Rightarrow> string \<Rightarrow> ev_data \<Rightarrow> idempotency_store \<Rightarrow> bool" where
  "mem_confirmed key fp out s \<longleftrightarrow> (\<exists>t. jget (entries s) key = Some (ConfirmedEntry fp t out))"

lemma spared_op:
  assumes "spares key op"
  shows "mem_filed key fp s \<Longrightarrow> mem_filed key fp (run_op op s)"
    and "mem_staged key fp t out s \<Longrightarrow> mem_staged key fp t out (run_op op s)"
  using spared_entry[OF _ assms] by (fastforce simp: mem_filed_def, fastforce simp: mem_staged_def is_pending_def)

lemma spared_ops:
  assumes "\<forall>op \<in> set ops. spares key op"
  shows "mem_filed key fp s \<Longrightarrow> mem_filed key fp (run_ops ops s)"
    and "mem_staged key fp t out s \<Longrightarrow> mem_staged key fp t out (run_ops ops s)"
proof -
  show "mem_filed key fp (run_ops ops s)" if "mem_filed key fp s"
    by (rule run_ops_induct[where P = "mem_filed key fp", OF that]) (use assms spared_op(1) in blast)
  show "mem_staged key fp t out (run_ops ops s)" if "mem_staged key fp t out s"
    by (rule run_ops_induct[where P = "mem_staged key fp t out", OF that]) (use assms spared_op(2) in blast)
qed

lemma mem_renew:
  assumes "renew clk h s = (r, s')"
  shows "s' = s \<or> (\<exists>e x. jget (entries s) (ch_key h) = Some e \<and> (\<forall>fp t out. e \<noteq> ConfirmedEntry fp t out)
    \<and> s' = s\<lparr>entries := jset (ch_key h) (with_expiry x e) (entries s)\<rparr>)"
  using assms by (auto simp: renew_def holds_def split: sum.splits option.splits if_splits entry.splits)

lemma with_expiry_simps [simp]: "fingerprint (with_expiry x e) = fingerprint e" "token (with_expiry x e) = token e"
  by (cases e; simp)+

lemma memory_leased_store:
  assumes "\<forall>n. \<forall>op \<in> set (others n). spares key op"
  shows "leased_store (memory_idem_port clk tokens others) key fp (mem_filed key fp) (mem_staged key fp) (mem_confirmed key fp)"
proof
  fix n d s h d' s'
  assume "ip_claim (memory_idem_port clk tokens others) n key fp (d, s) = (Inr (Claimed h), d', s')"
  then have "claim (clk n) (tokens n) key fp s = (Inr (Claimed h), s')"
    by (auto simp: memory_idem_port_def split: prod.splits)
  from claim_claimed[OF this] show "ch_key h = key \<and> mem_filed key fp s'" by (auto simp: mem_filed_def)
next
  fix n h out d s d' s'
  assume "ip_complete (memory_idem_port clk tokens others) n h out (d, s) = (Inr (), d', s')" "mem_filed key fp s" "ch_key h = key"
  then have c: "complete (clk n) h out s = (Inr (), s')" "mem_filed key fp s" "ch_key h = key"
    by (auto simp: memory_idem_port_def split: prod.splits)
  from complete_staged[OF c(1)] c(2,3) show "mem_staged key fp (ch_token h) out s'"
    by (auto simp: mem_staged_def mem_filed_def)
next
  fix n h s r s' t out
  assume "ip_renew (memory_idem_port clk tokens others) n h s = (r, s')"
  then obtain lr where "renew (clk n) h s = (lr, s')"
    by (auto simp: memory_idem_port_def split: prod.splits sum.splits)
  from mem_renew[OF this]
  show "(mem_filed key fp s \<longrightarrow> mem_filed key fp s') \<and> (mem_staged key fp t out s \<longrightarrow> mem_staged key fp t out s')"
    by (auto simp: mem_filed_def mem_staged_def)
next
  fix n s t out
  show "(mem_filed key fp s \<longrightarrow> mem_filed key fp (ip_others (memory_idem_port clk tokens others) n s))
      \<and> (mem_staged key fp t out s \<longrightarrow> mem_staged key fp t out (ip_others (memory_idem_port clk tokens others) n s))
      \<and> (mem_confirmed key fp out s \<longrightarrow> mem_confirmed key fp out (ip_others (memory_idem_port clk tokens others) n s))"
    using assms spared_ops[of "others n" key] by (auto simp: memory_idem_port_def mem_confirmed_def intro: confirmed_ops)
next
  fix n d s r d' s' out
  assume "ip_claim (memory_idem_port clk tokens others) n key fp (d, s) = (r, d', s')" "mem_confirmed key fp out s"
  then show "d' = d \<and> mem_confirmed key fp out s' \<and> (case r of Inl _ \<Rightarrow> True | Inr c \<Rightarrow> c = Completed out)"
    by (auto simp: memory_idem_port_def mem_confirmed_def claim_def nowMs_def split: option.splits)
qed

interpretation memory_store: leased_store "memory_idem_port clk tokens (\<lambda>_. [])" key fp
    "mem_filed key fp" "mem_staged key fp" "mem_confirmed key fp" for clk tokens key fp
  by (rule memory_leased_store) simp

interpretation memory_commit: idempotent_commit
    "deps\<lparr>idempotency := memory_idem_port clk tokens (\<lambda>_. [])\<rparr>" key fp
    "mem_filed key fp" "mem_staged key fp" "mem_confirmed key fp" "retrying p (atomic_scope refuse)"
    for deps :: "('d, 'p, idempotency_store) idem_deps" and clk tokens key fp p refuse
  by (simp add: idempotent_commit_def memory_store.leased_store_axioms retried_atomic.retry.transaction_scope_axioms)

lemma memory_idempotent_commit:
  assumes "transaction_scope db put_db transactional" "idempotency deps = memory_idem_port clk tokens others"
    and "\<forall>n. \<forall>op \<in> set (others n). spares key op"
  shows "idempotent_commit deps key fp (mem_filed key fp) (mem_staged key fp) (mem_confirmed key fp) transactional"
  using assms memory_leased_store by (simp add: idempotent_commit_def)

text \<open>To replay, nothing has to be known about the others: a confirmed entry is final.\<close>

lemma memory_replay:
  assumes "transaction_scope db put_db transactional" "idempotency deps = memory_idem_port clk tokens others"
  shows "idempotent_commit deps key fp (\<lambda>_. True) (\<lambda>_ _ _. True) (mem_confirmed key fp) transactional"
proof -
  have "leased_store (memory_idem_port clk tokens others) key fp (\<lambda>_. True) (\<lambda>_ _ _. True) (mem_confirmed key fp)"
  proof
    fix n d s h d' s'
    assume "ip_claim (memory_idem_port clk tokens others) n key fp (d, s) = (Inr (Claimed h), d', s')"
    then have "claim (clk n) (tokens n) key fp s = (Inr (Claimed h), s')"
      by (auto simp: memory_idem_port_def split: prod.splits)
    from claim_claimed[OF this] show "ch_key h = key \<and> True" by auto
  next
    fix n d s r d' s' out
    assume "ip_claim (memory_idem_port clk tokens others) n key fp (d, s) = (r, d', s')" "mem_confirmed key fp out s"
    then show "d' = d \<and> mem_confirmed key fp out s' \<and> (case r of Inl _ \<Rightarrow> True | Inr c \<Rightarrow> c = Completed out)"
      by (auto simp: memory_idem_port_def mem_confirmed_def claim_def nowMs_def split: option.splits)
  qed (auto simp: memory_idem_port_def mem_confirmed_def intro: confirmed_ops)
  with assms show ?thesis by (simp add: idempotent_commit_def)
qed

lemma mem_confirm: "mem_staged key fp t out s \<Longrightarrow> ch_key h = key \<Longrightarrow> ch_token h = t \<Longrightarrow> mem_confirmed key fp out (confirm h s)"
  by (auto simp: mem_staged_def mem_confirmed_def confirm_def)

lemma mem_confirmed_ops: "mem_confirmed key fp out s \<Longrightarrow> mem_confirmed key fp out (run_ops ops s)"
  by (auto simp: mem_confirmed_def intro: confirmed_ops)

lemma memory_fresh:
  assumes "transaction_scope db put_db transactional" "idempotency deps = memory_idem_port clk tokens others"
    and "\<forall>n. \<forall>op \<in> set (others n). spares key op"
    and "withIdempotentCommit deps transactional key fp fn w = (Inr (False, out), w')"
  shows "mem_confirmed key fp out (istate w')"
proof -
  from idempotent_commit.fresh_committed[OF memory_idempotent_commit[OF assms(1-3)] assms(4)] obtain h n s where
    "ch_key h = key" "mem_staged key fp (ch_token h) out s" "istate w' = snd (ip_confirm (idempotency deps) n h s)" by blast
  with assms(2) show ?thesis by (auto simp: memory_idem_port_def intro: mem_confirm)
qed

section \<open>Properties\<close>


text \<open>
  A command that throws did not commit: whatever threw (the callback, the store, a lost
  lease, the harvest, the outbox, the scope), the database is the one before the call.
\<close>

theorem throwing_command_not_committed:
  assumes "transaction_scope db put_db transactional"
    and "idempotency deps = memory_idem_port clk tokens others" and "\<forall>n. \<forall>op \<in> set (others n). spares key op"
    and "withIdempotentCommit deps transactional key fp fn w = (Inl e, w')"
  shows "db w' = db w"
  by (rule idempotent_commit.thrown_uncommitted[OF memory_idempotent_commit[OF assms(1-3)] assms(4)])

section \<open>What a failed attempt leaves in the store\<close>

text \<open>
  \<open>unblocked\<close>: the entry of the key is gone, the one before the call, or a settled one.
  \<open>mine\<close>: if there is an entry, it carries the token.
\<close>

definition unblocked :: "string \<Rightarrow> entry option \<Rightarrow> idempotency_store \<Rightarrow> bool" where
  "unblocked key e0 s \<longleftrightarrow> (let e = jget (entries s) key
     in e = None \<or> e = e0 \<or> (\<exists>fp t out. e = Some (ConfirmedEntry fp t out)))"

definition mine :: "string \<Rightarrow> string \<Rightarrow> idempotency_store \<Rightarrow> bool" where
  "mine key t s \<longleftrightarrow> (\<forall>e. jget (entries s) key = Some e \<longrightarrow> token e = t)"

definition tidy :: "string \<Rightarrow> entry option \<Rightarrow> ('d, 'p, idempotency_store) idem_world \<Rightarrow> bool" where
  "tidy key e0 w \<longleftrightarrow> (case attempt_claim w of
     None \<Rightarrow> heart w = NoHeartbeat \<and> unblocked key e0 (istate w)
   | Some h \<Rightarrow> ch_key h = key \<and> mine key (ch_token h) (istate w))"

lemma mine_abandon: "mine key (ch_token h) s \<Longrightarrow> ch_key h = key \<Longrightarrow> unblocked key e0 (abandon h s)"
  by (auto simp: mine_def unblocked_def abandon_def Let_def split: option.splits entry.splits)

lemma mine_renew: "mine key t s \<Longrightarrow> renew clk h s = (r, s') \<Longrightarrow> mine key t s'"
  by (drule mem_renew) (auto simp: mine_def split: if_splits)

lemma mine_complete:
  assumes "mine key (ch_token h) s" "complete clk h out s = (r, s')"
  shows "mine key (ch_token h) s'"
proof (cases r)
  case (Inl e)
  with assms(2) have "s' = s"
    by (auto simp: complete_def nowMs_def split: sum.splits option.splits entry.splits if_splits)
  with assms(1) show ?thesis by simp
next
  case (Inr u)
  with assms(2) obtain fp x where "entries s' = jset (ch_key h) (StagedEntry fp (ch_token h) x out) (entries s)"
    by (auto simp: complete_def nowMs_def split: sum.splits option.splits entry.splits if_splits)
  with assms(1) show ?thesis by (simp add: mine_def)
qed

lemma unblocked_claim:
  assumes "unblocked key e0 s" "claim clk tok key fp s = (r, s')"
  shows "(case r of Inr (Claimed h) \<Rightarrow> ch_key h = key \<and> mine key (ch_token h) s' | _ \<Rightarrow> unblocked key e0 s')"
proof (cases "\<exists>h. r = Inr (Claimed h)")
  case True
  then obtain h where r: "r = Inr (Claimed h)" by blast
  from claim_claimed[OF assms(2)[unfolded r]] r show ?thesis by (auto simp: mine_def)
next
  case False
  have "entries s' = entries s"
  proof -
    from claim_cases[OF assms(2)] show ?thesis
    proof (elim disjE exE conjE)
      fix now assume c: "createPending key fp now tok s = (r, s')"
      show ?thesis
      proof (cases r)
        case (Inl e)
        with c createPending_throws show ?thesis by blast
      next
        case (Inr x)
        with c createPending_claims[of key fp now tok s x s'] False show ?thesis by auto
      qed
    qed simp
  qed
  with assms(1) False show ?thesis by (auto simp: unblocked_def split: sum.split idempotency_claim.split)
qed

lemma unblocked_reconcile: "unblocked key e0 s \<Longrightarrow> reconcile clk r d s = (x, s') \<Longrightarrow> unblocked key e0 s'"
  by (auto simp: unblocked_def reconcile_def Let_def split: option.splits entry.splits if_splits sum.splits)

lemma memory_pause:
  fixes deps :: "('d, 'p, idempotency_store) idem_deps"
  assumes "idempotency deps = memory_idem_port clk tokens (\<lambda>_. [])"
  shows "mine key t (istate w) \<Longrightarrow> mine key t (istate (pause deps w))"
    and "tidy key e0 w \<Longrightarrow> tidy key e0 (pause deps w)"
proof -
  let ?w = "w\<lparr>istate := ip_others (idempotency deps) (idem_step w) (istate w), idem_step := idem_step w + 1\<rparr>"
  have same: "istate ?w = istate w" by (simp add: assms memory_idem_port_def)
  have r: "mine key t (istate (renewal (idempotency deps) ?w))" if "mine key t (istate w)" for t
  proof (cases "heart w")
    case (Beating h)
    obtain lr s' where l: "renew (clk (idem_step ?w)) h (istate w) = (lr, s')" by force
    from mine_renew[OF that l] l Beating same assms show ?thesis
      by (cases lr) (simp_all add: renewal_def with_store_def schedule_beat_def memory_idem_port_def)
  qed (use that same in \<open>simp_all add: renewal_def\<close>)
  show m: "mine key t (istate (pause deps w))" if "mine key t (istate w)" for t
    using r[OF that] that same by (simp add: pause_def Let_def)
  show "tidy key e0 (pause deps w)" if "tidy key e0 w"
  proof (cases "attempt_claim w")
    case None
    with that same show ?thesis by (simp add: tidy_def pause_silent)
  next
    case (Some h)
    with that m show ?thesis by (simp add: tidy_def)
  qed
qed

lemma memory_claim_step:
  assumes "idempotency deps = memory_idem_port clk tokens (\<lambda>_. [])" "tidy key e0 w" "attempt_claim w = None"
    and "with_ctx (\<lambda>n. ip_claim (idempotency deps) n key fp) (pause deps w) = (r, w1)"
  shows "attempt_claim w1 = None \<and> heart w1 = NoHeartbeat
    \<and> (case r of Inr (Claimed h) \<Rightarrow> ch_key h = key \<and> mine key (ch_token h) (istate w1) | _ \<Rightarrow> tidy key e0 w1)"
proof -
  let ?p = "pause deps w"
  have p: "tidy key e0 ?p" "attempt_claim ?p = None" using memory_pause(2)[OF assms(1,2)] assms(3) by simp_all
  from p have u: "unblocked key e0 (istate ?p)" "heart ?p = NoHeartbeat" by (simp_all add: tidy_def)
  obtain r' s' where c: "claim (clk (idem_step ?p)) (tokens (idem_step ?p)) key fp (istate ?p) = (r', s')" by force
  with assms(1,4) p(2) u(2) have "r = r'" "istate w1 = s'" "attempt_claim w1 = None" "heart w1 = NoHeartbeat"
    by (auto simp: with_ctx_def memory_idem_port_def)
  with unblocked_claim[OF u(1) c] show ?thesis
    by (auto simp: tidy_def split: sum.splits idempotency_claim.splits)
qed

lemma claimed_tidy:
  assumes d: "idempotency deps = memory_idem_port clk tokens (\<lambda>_. [])"
    and run: "run_work (run_claimed deps fn h) ts w = (x, ts', w')"
    and h: "ch_key h = key" "mine key (ch_token h) (istate w)"
  shows "tidy key e0 w'"
proof -
  let ?w = "startLeaseHeartbeat h (w\<lparr>attempt_claim := Some h\<rparr>)"
  let ?K = "\<lambda>result toks. call_store deps (with_ctx (\<lambda>n. ip_complete (idempotency deps) n h result))
    (\<lambda>_. Done (False, result) toks)"
  from run have run': "run_work (user_work deps ?K (fn (ch_token h))) ts ?w = (x, ts', w')"
    by (simp add: run_claimed_def)
  have m: "mine key (ch_token h) (istate ?w)" using h by simp
  have "(\<exists>r toks ts1 w1. run_work (?K r toks) ts1 w1 = (x, ts', w') \<and> mine key (ch_token h) (istate w1)
      \<and> attempt_claim w1 = attempt_claim ?w)
    \<or> (\<exists>e. x = Inl e \<and> mine key (ch_token h) (istate w') \<and> attempt_claim w' = attempt_claim ?w)"
    by (rule user_work_run[OF run', where I = "mine key (ch_token h)", OF m]) (rule memory_pause(1)[OF d])
  then show ?thesis
  proof (elim disjE exE conjE)
    fix r toks1 ts1 w1
    assume k: "run_work (?K r toks1) ts1 w1 = (x, ts', w')" "mine key (ch_token h) (istate w1)"
      "attempt_claim w1 = attempt_claim ?w"
    let ?p = "pause deps w1"
    have p: "mine key (ch_token h) (istate ?p)" "attempt_claim ?p = Some h"
      using memory_pause(1)[OF d k(2)] k(3) by simp_all
    have after: "tidy key e0 w2" if "with_ctx (\<lambda>n. ip_complete (idempotency deps) n h r) ?p = (y, w2)" for y w2
    proof -
      obtain y' s' where c: "complete (clk (idem_step ?p)) h r (istate ?p) = (y', s')" by force
      with that d have "istate w2 = s'" "attempt_claim w2 = Some h"
        using p(2) by (auto simp: with_ctx_def memory_idem_port_def)
      with mine_complete[OF p(1) c] h(1) show ?thesis by (simp add: tidy_def)
    qed
    from k(1) show ?thesis by (cases rule: call_store_run) (auto dest: after)
  qed (use h in \<open>simp add: tidy_def\<close>)
qed

lemma on_claim_tidy:
  assumes d: "idempotency deps = memory_idem_port clk tokens (\<lambda>_. [])"
    and w: "tidy key e0 w" "attempt_claim w = None"
    and op: "with_ctx (\<lambda>n. ip_claim (idempotency deps) n key fp) (pause deps w) = (Inr c, w1)"
    and run: "run_work (on_claim deps fn recover c) ts w1 = (x, ts', w')"
  shows "tidy key e0 w' \<or> (\<exists>r. c = ReconciliationRequired r \<and> run_work (recover r) ts w1 = (x, ts', w')
    \<and> tidy key e0 w1 \<and> attempt_claim w1 = None)"
  using memory_claim_step[OF d w op] run
  by (cases c) (auto simp: on_claim_def dest: claimed_tidy[OF d])

lemma idem_work_tidy:
  assumes d: "idempotency deps = memory_idem_port clk tokens (\<lambda>_. [])"
    and run: "run_work (idem_work deps key fp fn) ts w = (x, ts', w')"
    and w: "tidy key e0 w" "attempt_claim w = None"
  shows "tidy key e0 w'"
  using run unfolding idem_work_def Let_def
proof (cases rule: call_store_run)
  case (threw e)
  with memory_claim_step[OF d w threw(1)] show ?thesis by simp
next
  case (called c w1)
  from on_claim_tidy[OF d w called] show ?thesis
  proof (elim disjE exE conjE)
    fix r assume w1: "tidy key e0 w1" "attempt_claim w1 = None"
    let ?again = "call_store deps (with_ctx (\<lambda>n. ip_claim (idempotency deps) n key fp))
      (on_claim deps fn (\<lambda>r'. Fail (reconciliation_error r')))"
    let ?settle = "\<lambda>decision. call_store deps (with_store (\<lambda>n. ip_reconcile (idempotency deps) n r decision)) (\<lambda>_. ?again)"
    have again: "tidy key e0 w'" if "run_work ?again ts w3 = (x, ts', w')" "tidy key e0 w3" "attempt_claim w3 = None" for w3
      using that(1)
    proof (cases rule: call_store_run)
      case (threw e)
      with memory_claim_step[OF d that(2,3) threw(1)] show ?thesis by simp
    next
      case (called c' w4)
      from on_claim_tidy[OF d that(2,3) called] show ?thesis by auto
    qed
    have reconciled: "tidy key e0 w3 \<and> attempt_claim w3 = None"
      if "with_store (\<lambda>n. ip_reconcile (idempotency deps) n r decision) (pause deps w2) = (y, w3)"
        "tidy key e0 w2" "attempt_claim w2 = None" for w2 y w3 decision
    proof -
      let ?p = "pause deps w2"
      have p: "tidy key e0 ?p" "attempt_claim ?p = None" using memory_pause(2)[OF d that(2)] that(3) by simp_all
      then have u: "unblocked key e0 (istate ?p)" "heart ?p = NoHeartbeat" by (simp_all add: tidy_def)
      obtain y' s' where c: "reconcile (clk (idem_step ?p)) r decision (istate ?p) = (y', s')" by force
      with that(1) d p(2) u(2) have "istate w3 = s'" "attempt_claim w3 = None" "heart w3 = NoHeartbeat"
        by (auto simp: with_store_def memory_idem_port_def)
      with unblocked_reconcile[OF u(1) c] show ?thesis by (simp add: tidy_def)
    qed
    have settle: "tidy key e0 w'" if "run_work (?settle decision) ts w2 = (x, ts', w')" "tidy key e0 w2" "attempt_claim w2 = None"
      for decision w2
      using that(1)
    proof (cases rule: call_store_run)
      case (threw e)
      with reconciled[OF threw(1) that(2,3)] show ?thesis by simp
    next
      case (called u w3)
      with reconciled[OF called(1) that(2,3)] again show ?thesis by blast
    qed
    have decided: "w2 = pause deps w1" if "decide deps r (pause deps w1) = (y, w2)" for y w2
      using that by (auto simp: decide_def split: option.splits)
    have p: "tidy key e0 (pause deps w1)" "attempt_claim (pause deps w1) = None"
      using memory_pause(2)[OF d w1(1)] w1(2) by simp_all
    assume "run_work (call_store deps (decide deps r) (\<lambda>decision.
             if decision = ''unknown'' then Fail (reconciliation_error r)
             else if decision \<noteq> ''committed'' \<and> decision \<noteq> ''not-committed'' then Fail typeError
             else ?settle decision)) ts w1 = (x, ts', w')"
    then show ?thesis
    proof (cases rule: call_store_run)
      case (threw e)
      with decided p show ?thesis by blast
    next
      case (called decision w2)
      from decided[OF called(1)] called(2) p settle[of decision w2] show ?thesis by (auto split: if_splits)
    qed
  qed
qed

lemma attempt_unblocked:
  assumes d: "idempotency deps = memory_idem_port clk tokens (\<lambda>_. [])"
    and run: "attempt_body deps (commit_body cd (idem_work deps key fp fn)) w = (Inl e, w')"
    and w: "unblocked key e0 (istate w)"
  shows "unblocked key e0 (istate w')"
proof -
  let ?w = "w\<lparr>attempt_claim := None, heart := NoHeartbeat\<rparr>"
  obtain y w1 where b: "commit_body cd (idem_work deps key fp fn) ?w = (y, w1)" by force
  have t1: "tidy key e0 w1"
  proof -
    obtain x ts w2 where r: "run_work (idem_work deps key fp fn) (new_token_scope (scopes ?w)) (?w\<lparr>scopes := scopes ?w + 1\<rparr>) = (x, ts, w2)"
      by (cases "run_work (idem_work deps key fp fn) (new_token_scope (scopes ?w)) (?w\<lparr>scopes := scopes ?w + 1\<rparr>)") auto
    from idem_work_tidy[OF d r] w have "tidy key e0 w2" by (simp add: tidy_def)
    moreover from b r have "istate w1 = istate w2" "attempt_claim w1 = attempt_claim w2" "heart w1 = heart w2"
      by (auto simp: commit_body_def split: sum.splits prod.splits if_splits)
    ultimately show ?thesis by (simp add: tidy_def split: option.splits)
  qed
  have t2: "tidy key e0 (stop_heartbeat (pause deps w1))"
    using memory_pause(2)[OF d t1] by (auto simp: tidy_def stop_heartbeat_def split: option.splits heartbeat.splits)
  have released: "unblocked key e0 (istate (release_claim deps u))" if "tidy key e0 u" for u :: "('a, 'b, idempotency_store) idem_world"
    using that d by (auto simp: tidy_def release_claim_def with_store_def memory_idem_port_def mine_abandon split: option.splits)
  have reported: "tidy key e0 (report_heartbeat u)" if "tidy key e0 u" for u :: "('a, 'b, idempotency_store) idem_world"
    using that by (auto simp: tidy_def report_heartbeat_def idem_report_def split: option.splits)
  from run b have "w' = release_claim deps (stop_heartbeat (pause deps w1))
      \<or> w' = release_claim deps (report_heartbeat (stop_heartbeat (pause deps w1)))"
    by (auto simp: attempt_body_def Let_def split: sum.splits option.splits)
  with released[OF t2] released[OF reported[OF t2]] show ?thesis by blast
qed

lemma retry_loop_failed:
  assumes "retry_loop p inner fn n w = (Inl e, w')" "J w"
    and "\<And>u u' e. J u \<Longrightarrow> inner fn u = (Inl e, u') \<Longrightarrow> J u'"
  shows "J w'"
  using assms(1,2)
proof (induction n arbitrary: w)
  case (Suc n)
  obtain r u where i: "inner fn w = (r, u)" by force
  show ?case
  proof (cases r)
    case (Inl e')
    with assms(3) Suc.prems(2) i have "J u" by blast
    with Suc i Inl show ?thesis by (auto simp: Let_def split: option.splits if_splits)
  qed (use Suc.prems i in \<open>auto simp: Let_def split: option.splits\<close>)
qed simp

text \<open>
  C23. A command that throws does not block its key: when nobody else uses the store during
  the call and the scope does not refuse a commit after the callback, then afterwards the key
  has no entry, the entry it had before the call, or a settled one; no claim and no staged
  outcome of the failed attempts is left, however often the scope retried.
\<close>

theorem failed_command_frees_its_key:
  assumes "idempotency deps = memory_idem_port clk tokens (\<lambda>_. [])"
    and "withIdempotentCommit deps (retrying p (atomic_scope (\<lambda>_. None))) key fp fn w = (Inl e, w')"
  shows "unblocked key (jget (entries (istate w)) key) (istate w')"
proof -
  let ?cd = "commit_deps.truncate deps" and ?e0 = "jget (entries (istate w)) key"
  let ?scope = "\<lambda>work. retrying p (atomic_scope (\<lambda>_. None)) (attempt_body deps work)"
  have start: "unblocked key ?e0 (istate w)" by (simp add: unblocked_def)
  obtain x w1 where c: "withCommit ?cd ?scope (idem_work deps key fp fn) w = (x, w1)" by force
  show ?thesis
  proof (cases x)
    case (Inl e')
    with assms(2) c have w': "w' = w1" by (simp add: withIdempotentCommit_def)
    from withCommit_Inl[OF c[unfolded Inl]] show ?thesis
    proof
      assume r: "?scope (commit_body ?cd (idem_work deps key fp fn)) w = (Inl e', w1)"
      have "unblocked key ?e0 (istate w1)"
      proof (rule retry_loop_failed[OF r[unfolded retrying_def], where J = "\<lambda>u. unblocked key ?e0 (istate u)"])
        fix u u' y assume j: "unblocked key ?e0 (istate u)"
          and "atomic_scope (\<lambda>_. None) (attempt_body deps (commit_body ?cd (idem_work deps key fp fn))) u = (Inl y, u')"
        then obtain u1 where "attempt_body deps (commit_body ?cd (idem_work deps key fp fn)) u = (Inl y, u1)" "istate u' = istate u1"
          by (auto simp: atomic_scope_def split: sum.splits prod.splits)
        with attempt_unblocked[OF assms(1) _ j] show "unblocked key ?e0 (istate u')" by simp
      qed (rule start)
      with w' show ?thesis by simp
    qed (use w' start in simp)
  next
    case (Inr y)
    then obtain rep out where y: "x = Inr (rep, out)" by (cases y) simp
    have scope: "transaction_scope db put_db (retrying p (atomic_scope (\<lambda>_. None)))"
      by (rule retried_atomic.retry.transaction_scope_axioms)
    have port: "idempotent_commit deps key fp (mem_filed key fp) (mem_staged key fp) (mem_confirmed key fp)
        (retrying p (atomic_scope (\<lambda>_. None)))"
      by (rule memory_idempotent_commit[OF scope assms(1)]) simp
    show ?thesis
    proof (cases rep)
      case False
      with c y have "withCommit ?cd ?scope (idem_work deps key fp fn) w = (Inr (False, out), w1)" by simp
      from idempotent_commit.fresh_owned[OF port this] obtain h where "attempt_claim w1 = Some h"
        by (auto simp: idempotent_commit.own_def[OF port])
      with assms(2) c y False show ?thesis by (auto simp: withIdempotentCommit_def split: prod.splits sum.splits)
    qed (use assms(2) c y in \<open>simp add: withIdempotentCommit_def\<close>)
  qed
qed

section \<open>Concrete inputs\<close>

text \<open>One aggregate is saved; the heartbeat fires once while another execution claims another key.\<close>

definition ex_port :: "(nat \<Rightarrow> idem_op list) \<Rightarrow> (unit candidate list, idempotency_store) idem_port" where
  "ex_port others = memory_idem_port (\<lambda>n. Some (int n)) (\<lambda>_. ex_token) others"

definition ex_race :: "nat \<Rightarrow> idem_op list" where
  "ex_race n = (if n = 1 then [Claim (Some 1) ex_token ''k'' ''f''] else [])"

definition ex_command_deps :: "(nat \<Rightarrow> idem_op list) \<Rightarrow> (unit candidate list, unit, idempotency_store) idem_deps" where
  "ex_command_deps others = commit_deps.extend ex_deps (idem_deps.fields (ex_port others) None (\<lambda>n. n = 1))"

definition ex_command_world :: "(unit candidate list, unit, idempotency_store) idem_world" where
  "ex_command_world = world.extend ex_world (idem_world.fields ex_idem None NoHeartbeat 0 [])"

definition ex_command :: "string \<Rightarrow> ((unit candidate list, unit) world, ev_data) work" where
  "ex_command t = EnrollSaved 0 (\<lambda>r. case r of Inl e \<Rightarrow> Fail e | Inr tok \<Rightarrow> Done (EStr ''ok'') (Some [tok]))"

definition ex_first :: "(unit candidate list, unit, idempotency_store) idem_world" where
  "ex_first = snd (withIdempotentCommit (ex_command_deps ex_race) (retrying ex_policy (atomic_scope (\<lambda>_. None))) ''k'' ''f'' ex_command ex_command_world)"

lemmas ex_command_defs = ex_port_def ex_race_def ex_command_deps_def ex_command_world_def ex_command_def

lemma ex_fresh: "withIdempotentCommit (ex_command_deps ex_race) (retrying ex_policy (atomic_scope (\<lambda>_. None))) ''k'' ''f'' ex_command ex_command_world
    = (Inr (False, EStr ''ok''), ex_first)"
  unfolding ex_first_def by code_simp

lemma ex_race_spares: "\<forall>n. \<forall>op \<in> set (ex_race n). spares ''k'' op"
  by (simp add: ex_race_def)

lemma ex_policy_scope: "transaction_scope db put_db (retrying ex_policy (atomic_scope (\<lambda>_. None)))"
  by (rule retried_atomic.retry.transaction_scope_axioms)

lemma ex_command_port [simp]: "idempotency (ex_command_deps others) = memory_idem_port (\<lambda>n. Some (int n)) (\<lambda>_. ex_token) others"
  by (simp add: ex_command_deps_def ex_port_def idem_deps.fields_def commit_deps.extend_def ex_deps_def)

definition ex_second :: "(js_error, bool \<times> ev_data) res \<times> (unit candidate list, unit, idempotency_store) idem_world" where
  "ex_second = withIdempotentCommit (ex_command_deps ex_race) (retrying ex_policy (atomic_scope (\<lambda>_. None))) ''k'' ''f''
     (\<lambda>_. Fail typeError) ex_first"


text \<open>A callback that throws after the claim.\<close>

definition ex_thrown :: "(unit candidate list, unit, idempotency_store) idem_world" where
  "ex_thrown = snd (withIdempotentCommit (ex_command_deps (\<lambda>_. [])) (retrying ex_policy (atomic_scope (\<lambda>_. None))) ''k'' ''f''
     (\<lambda>_. Fail typeError) ex_command_world)"

lemma ex_throws: "withIdempotentCommit (ex_command_deps (\<lambda>_. [])) (retrying ex_policy (atomic_scope (\<lambda>_. None))) ''k'' ''f''
    (\<lambda>_. Fail typeError) ex_command_world = (Inl typeError, ex_thrown)"
  unfolding ex_thrown_def by code_simp

theorem throwing_command_witness: "db ex_thrown = []"
proof -
  have "db ex_thrown = db ex_command_world"
    by (rule throwing_command_not_committed[OF ex_policy_scope ex_command_port _ ex_throws]) simp
  also have "\<dots> = []" by code_simp
  finally show ?thesis .
qed

theorem failed_command_witness: "unblocked ''k'' None (istate ex_thrown) \<and> tokenGeneration (istate ex_thrown) = 1"
proof -
  have "unblocked ''k'' (jget (entries (istate ex_command_world)) ''k'') (istate ex_thrown)"
    by (rule failed_command_frees_its_key[OF ex_command_port ex_throws])
  moreover have "jget (entries (istate ex_command_world)) ''k'' = None" by code_simp
  moreover have "tokenGeneration (istate ex_thrown) = 1" unfolding ex_thrown_def by code_simp
  ultimately show ?thesis by simp
qed

end
