(* ===== verification/Unit_Of_Work.thy ===== *)
theory Unit_Of_Work
  imports Commit
begin

text \<open>
  The identity map (src/repo/identity-map.ts), the session and the run of a unit of work
  (src/app/unit-of-work.ts). The work callback is a tree of its steps over the session, and is
  translated to the callback \<open>withCommit\<close> runs, so a unit of work inherits what is proved of
  the commit. The fields of the instance and the locals of \<open>run\<close> extend the world: no
  rollback undoes them. Error objects are compared by value: two thrown values that are equal
  count as the same object.
\<close>

section \<open>The identity map\<close>

text \<open>An object of the program: a kit aggregate on the heap, or an object the kit did not build.\<close>

datatype object_ref = Kit nat | Lookalike nat

record identity_map =
  im_stores :: "(nat, (string, object_ref) jmap) jmap"
  im_deleted :: "(nat, string list) jmap"
  im_pendingAtRegistration :: "(object_ref, nat) jmap"

definition new_identity_map :: identity_map where
  "new_identity_map = \<lparr>im_stores = [], im_deleted = [], im_pendingAtRegistration = []\<rparr>"

definition sadd :: "'a \<Rightarrow> 'a list \<Rightarrow> 'a list" where
  "sadd x xs = (if x \<in> set xs then xs else xs @ [x])"

lemma set_sadd [simp]: "set (sadd x xs) = insert x (set xs)"
  by (auto simp: sadd_def)

fun pendingEventsOf :: "(nat, 'p aggregate) jmap \<Rightarrow> object_ref \<Rightarrow> 'p domain_event list option" where
  "pendingEventsOf h (Kit n) = map_option pendingEvents (jget h n)"
| "pendingEventsOf h (Lookalike n) = None"

definition im_get :: "nat \<Rightarrow> string \<Rightarrow> identity_map \<Rightarrow> object_ref option" where
  "im_get t i m = (case jget (im_stores m) t of None \<Rightarrow> None | Some st \<Rightarrow> jget st i)"

definition im_has :: "nat \<Rightarrow> string \<Rightarrow> identity_map \<Rightarrow> bool" where
  "im_has t i m \<longleftrightarrow> (case jget (im_stores m) t of None \<Rightarrow> False | Some st \<Rightarrow> jhas st i)"

definition im_isDeleted :: "nat \<Rightarrow> string \<Rightarrow> identity_map \<Rightarrow> bool" where
  "im_isDeleted t i m \<longleftrightarrow> (case jget (im_deleted m) t of None \<Rightarrow> False | Some ids \<Rightarrow> i \<in> set ids)"

definition im_store_of :: "nat \<Rightarrow> identity_map \<Rightarrow> (string, object_ref) jmap" where
  "im_store_of t m = (case jget (im_stores m) t of None \<Rightarrow> [] | Some st \<Rightarrow> st)"

definition im_register :: "(nat, 'p aggregate) jmap \<Rightarrow> object_ref \<Rightarrow> identity_map \<Rightarrow> identity_map" where
  "im_register h r m =
     (if jhas (im_pendingAtRegistration m) r then m
      else case pendingEventsOf h r of
        None \<Rightarrow> m
      | Some es \<Rightarrow> m\<lparr>im_pendingAtRegistration := jset r (length es) (im_pendingAtRegistration m)\<rparr>)"

definition im_set :: "(nat, 'p aggregate) jmap \<Rightarrow> nat \<Rightarrow> string \<Rightarrow> object_ref \<Rightarrow> identity_map
    \<Rightarrow> (js_error, unit) res \<times> identity_map" where
  "im_set h t i r m =
     (if im_isDeleted t i m then (Inl (kit (AggregateDeletedError i)), m)
      else let st = im_store_of t m in
        case jget st i of
          Some r' \<Rightarrow> if r' \<noteq> r then (Inl (PlainError ''Error'' None), m)
            else (Inr (), im_register h r (m\<lparr>im_stores := jset t (jset i r st) (im_stores m)\<rparr>))
        | None \<Rightarrow> (Inr (), im_register h r (m\<lparr>im_stores := jset t (jset i r st) (im_stores m)\<rparr>)))"

definition im_registered_pending :: "object_ref \<Rightarrow> identity_map \<Rightarrow> nat" where
  "im_registered_pending r m = (case jget (im_pendingAtRegistration m) r of None \<Rightarrow> 0 | Some n \<Rightarrow> n)"

definition im_instances :: "identity_map \<Rightarrow> object_ref list" where
  "im_instances m = concat (map jvals (jvals (im_stores m)))"

definition im_instancesWithNewPendingEvents :: "(nat, 'p aggregate) jmap \<Rightarrow> identity_map \<Rightarrow> object_ref list" where
  "im_instancesWithNewPendingEvents h m = filter (\<lambda>r. case pendingEventsOf h r of
       None \<Rightarrow> False | Some es \<Rightarrow> im_registered_pending r m < length es) (im_instances m)"

definition im_delete :: "nat \<Rightarrow> string \<Rightarrow> identity_map \<Rightarrow> identity_map" where
  "im_delete t i m = m\<lparr>im_stores := (case jget (im_stores m) t of
         None \<Rightarrow> im_stores m | Some st \<Rightarrow> jset t (jdel i st) (im_stores m)),
       im_deleted := jset t (sadd i (case jget (im_deleted m) t of None \<Rightarrow> [] | Some ids \<Rightarrow> ids)) (im_deleted m)\<rparr>"

definition im_clear :: "identity_map \<Rightarrow> identity_map" where
  "im_clear m = new_identity_map"

section \<open>The session\<close>

record uow_session =
  ss_enrolled :: "object_ref list"
  ss_deleted :: "object_ref list"
  ss_commitTokens :: "commit_token list"
  ss_identityMap :: identity_map
  ss_closed :: bool

definition new_session :: uow_session where
  "new_session = \<lparr>ss_enrolled = [], ss_deleted = [], ss_commitTokens = [], ss_identityMap = new_identity_map,
     ss_closed = False\<rparr>"

definition assertOpen :: "string \<Rightarrow> uow_session \<Rightarrow> (js_error, unit) res" where
  "assertOpen operation s = guard_res (\<not> ss_closed s) (kit (TransactionClosedError operation))"

definition ss_close :: "uow_session \<Rightarrow> uow_session" where
  "ss_close s = s\<lparr>ss_closed := True, ss_identityMap := im_clear (ss_identityMap s)\<rparr>"

text \<open>The class and id of an object; the kit's aggregates carry theirs, others are given.\<close>

record object_info =
  class_of :: "object_ref \<Rightarrow> nat"
  lookalike_id :: "nat \<Rightarrow> string"

fun object_key :: "object_info \<Rightarrow> (nat, 'p aggregate) jmap \<Rightarrow> object_ref \<Rightarrow> (nat \<times> string) option" where
  "object_key oi h (Kit n) = map_option (\<lambda>a. (class_of oi (Kit n), ag_id a)) (jget h n)"
| "object_key oi h (Lookalike n) = Some (class_of oi (Lookalike n), lookalike_id oi n)"

text \<open>
  \<open>enrollSaved\<close> up to the call of the commit enrollment: the guards, and the aggregate is
  noted as enrolled. A reference to nothing throws when its class is read.
\<close>

definition enrollSaved_guard :: "object_info \<Rightarrow> (nat, 'p aggregate) jmap \<Rightarrow> object_ref \<Rightarrow> uow_session
    \<Rightarrow> (js_error, unit) res \<times> uow_session" where
  "enrollSaved_guard oi h r s =
     (case rbind (assertOpen ''session.enrollSaved'' s) (\<lambda>_.
        case object_key oi h r of
          None \<Rightarrow> Inl typeError
        | Some (t, i) \<Rightarrow> guard_res (\<not> (r \<in> set (ss_deleted s) \<or> im_isDeleted t i (ss_identityMap s)))
            (kit (AggregateDeletedError i))) of
        Inl e \<Rightarrow> (Inl e, s)
      | Inr _ \<Rightarrow> (Inr (), s\<lparr>ss_enrolled := sadd r (ss_enrolled s)\<rparr>))"

definition note_token :: "commit_token \<Rightarrow> uow_session \<Rightarrow> uow_session" where
  "note_token t s = s\<lparr>ss_commitTokens := sadd t (ss_commitTokens s)\<rparr>"

text \<open>\<open>enrollDeleted\<close> after the commit enrollment gave its token.\<close>

definition note_deleted :: "object_info \<Rightarrow> (nat, 'p aggregate) jmap \<Rightarrow> object_ref \<Rightarrow> commit_token \<Rightarrow> uow_session
    \<Rightarrow> uow_session" where
  "note_deleted oi h r tok s = note_token tok (s\<lparr>ss_deleted := sadd r (ss_deleted s),
     ss_identityMap := (case object_key oi h r of Some (t, i) \<Rightarrow> im_delete t i (ss_identityMap s)
       | None \<Rightarrow> ss_identityMap s),
     ss_enrolled := sadd r (ss_enrolled s)\<rparr>)"

definition id_text :: "object_info \<Rightarrow> (nat, 'p aggregate) jmap \<Rightarrow> object_ref \<Rightarrow> string" where
  "id_text oi h r = (case object_key oi h r of Some (t, i) \<Rightarrow> i | None \<Rightarrow> ''undefined'')"

definition assertAllChangesEnrolled :: "object_info \<Rightarrow> (nat, 'p aggregate) jmap \<Rightarrow> uow_session \<Rightarrow> (js_error, unit) res" where
  "assertAllChangesEnrolled oi h s = all_res (\<lambda>r.
     guard_res (r \<in> set (ss_enrolled s) \<or> r \<in> set (ss_deleted s)) (kit (UnenrolledChangesError (id_text oi h r))))
     (im_instancesWithNewPendingEvents h (ss_identityMap s))"

section \<open>The work callback\<close>

record ('d, 'p) uow_world = "('d, 'p) world" +
  session :: "uow_session option"
  active :: bool
  workCompleted :: bool
  workError :: "js_error option"

text \<open>
  The steps of a callback: it reads and writes the database and the aggregates in memory,
  uses the identity map, and enrolls what its repositories wrote.
\<close>

datatype ('m, 'r) uow_work =
    UDone 'r
  | UFail js_error
  | UStep "'m \<Rightarrow> 'm" "'m \<Rightarrow> ('m, 'r) uow_work"
  | UGet nat string "(js_error, object_ref option) res \<Rightarrow> ('m, 'r) uow_work"
  | UIsDeleted nat string "(js_error, bool) res \<Rightarrow> ('m, 'r) uow_work"
  | USet nat string object_ref "(js_error, unit) res \<Rightarrow> ('m, 'r) uow_work"
  | UDelete nat string "(js_error, unit) res \<Rightarrow> ('m, 'r) uow_work"
  | USaved object_ref "(js_error, commit_token) res \<Rightarrow> ('m, 'r) uow_work"
  | UDeleted object_ref "(js_error, commit_token) res \<Rightarrow> ('m, 'r) uow_work"

type_synonym ('d, 'p) memory = "'d \<times> (nat, 'p aggregate) jmap"

definition current :: "('d, 'p) uow_world \<Rightarrow> uow_session" where
  "current w = (case session w of Some s \<Rightarrow> s | None \<Rightarrow> new_session)"

definition on_session :: "(uow_session \<Rightarrow> uow_session) \<Rightarrow> ('d, 'p) uow_world \<Rightarrow> ('d, 'p) uow_world" where
  "on_session f w = w\<lparr>session := Some (f (current w))\<rparr>"

definition memory_step :: "(('d, 'p) memory \<Rightarrow> ('d, 'p) memory) \<Rightarrow> ('d, 'p) uow_world \<Rightarrow> ('d, 'p) uow_world" where
  "memory_step u w = (let (d, h) = u (db w, heap w) in w\<lparr>db := d, heap := h\<rparr>)"

definition map_access :: "uow_session \<Rightarrow> (identity_map \<Rightarrow> 'a) \<Rightarrow> (js_error, 'a) res" where
  "map_access s f = rbind (assertOpen ''session.identityMap'' s) (\<lambda>_. Inr (f (ss_identityMap s)))"

definition session_set :: "(nat, 'p aggregate) jmap \<Rightarrow> nat \<Rightarrow> string \<Rightarrow> object_ref \<Rightarrow> uow_session
    \<Rightarrow> (js_error, unit) res \<times> uow_session" where
  "session_set h t i r s = (case map_access s (im_set h t i r) of
     Inl e \<Rightarrow> (Inl e, s) | Inr (x, m) \<Rightarrow> (x, s\<lparr>ss_identityMap := m\<rparr>))"

definition session_delete :: "nat \<Rightarrow> string \<Rightarrow> uow_session \<Rightarrow> (js_error, unit) res \<times> uow_session" where
  "session_delete t i s = (case map_access s (im_delete t i) of
     Inl e \<Rightarrow> (Inl e, s) | Inr m \<Rightarrow> (Inr (), s\<lparr>ss_identityMap := m\<rparr>))"

text \<open>The callback as work of a commit, with what follows it as the continuation.\<close>

type_synonym ('d, 'p, 'r) commit_work = "(('d, 'p) uow_world, 'r) work"

primrec session_work :: "object_info \<Rightarrow> (('d, 'p) memory, 'r) uow_work
    \<Rightarrow> ((js_error, 'r) res \<Rightarrow> ('d, 'p, 'r) commit_work) \<Rightarrow> ('d, 'p, 'r) commit_work" where
  "session_work oi (UDone r) K = K (Inr r)"
| "session_work oi (UFail e) K = K (Inl e)"
| "session_work oi (UStep u k) K = Step (memory_step u) (\<lambda>w. session_work oi (k (db w, heap w)) K)"
| "session_work oi (UGet t i k) K = Step id (\<lambda>w. session_work oi (k (map_access (current w) (im_get t i))) K)"
| "session_work oi (UIsDeleted t i k) K =
     Step id (\<lambda>w. session_work oi (k (map_access (current w) (im_isDeleted t i))) K)"
| "session_work oi (USet t i r k) K = Step id (\<lambda>w.
     Step (on_session (\<lambda>_. snd (session_set (heap w) t i r (current w))))
       (\<lambda>_. session_work oi (k (fst (session_set (heap w) t i r (current w)))) K))"
| "session_work oi (UDelete t i k) K = Step id (\<lambda>w.
     Step (on_session (\<lambda>_. snd (session_delete t i (current w))))
       (\<lambda>_. session_work oi (k (fst (session_delete t i (current w)))) K))"
| "session_work oi (USaved r k) K = Step id (\<lambda>w.
     Step (on_session (\<lambda>_. snd (enrollSaved_guard oi (heap w) r (current w)))) (\<lambda>_.
       case fst (enrollSaved_guard oi (heap w) r (current w)) of
         Inl e \<Rightarrow> session_work oi (k (Inl e)) K
       | Inr _ \<Rightarrow> (case r of
           Lookalike n \<Rightarrow> session_work oi (k (Inl commit_error)) K
         | Kit n \<Rightarrow> EnrollSaved n (\<lambda>x. case x of
             Inl e \<Rightarrow> session_work oi (k (Inl e)) K
           | Inr tok \<Rightarrow> Step (on_session (note_token tok)) (\<lambda>_. session_work oi (k (Inr tok)) K)))))"
| "session_work oi (UDeleted r k) K = Step id (\<lambda>w.
     case assertOpen ''session.enrollDeleted'' (current w) of
       Inl e \<Rightarrow> session_work oi (k (Inl e)) K
     | Inr _ \<Rightarrow> (case r of
         Lookalike n \<Rightarrow> session_work oi (k (Inl commit_error)) K
       | Kit n \<Rightarrow> EnrollDeleted n (\<lambda>x. case x of
           Inl e \<Rightarrow> session_work oi (k (Inl e)) K
         | Inr tok \<Rightarrow> Step (on_session (note_deleted oi (heap w) r tok)) (\<lambda>_. session_work oi (k (Inr tok)) K))))"

section \<open>The run\<close>

record ('d, 'p) uow_deps =
  ud_commit :: "('d, 'p) commit_deps"
  ud_objects :: object_info
  ud_buildRepositories :: "('d, 'p) memory \<Rightarrow> js_error option"

definition start_attempt :: "('d, 'p) uow_world \<Rightarrow> ('d, 'p) uow_world" where
  "start_attempt w = w\<lparr>session := Some new_session, workCompleted := False, workError := None\<rparr>"

definition callback_threw :: "js_error \<Rightarrow> ('d, 'p) uow_world \<Rightarrow> ('d, 'p) uow_world" where
  "callback_threw e w = w\<lparr>workError := Some e\<rparr>"

definition finish_work :: "object_info \<Rightarrow> (js_error, 'r) res \<Rightarrow> ('d, 'p, 'r) commit_work" where
  "finish_work oi x = (case x of
     Inl e \<Rightarrow> Step (callback_threw e) (\<lambda>_. Fail e)
   | Inr r \<Rightarrow> Step id (\<lambda>w. case assertAllChangesEnrolled oi (heap w) (current w) of
       Inl e \<Rightarrow> Step (callback_threw e) (\<lambda>_. Fail e)
     | Inr _ \<Rightarrow> Step (\<lambda>w. on_session ss_close (w\<lparr>workCompleted := True\<rparr>))
         (\<lambda>w'. Done r (Some (ss_commitTokens (current w'))))))"

definition uow_callback :: "('d, 'p) uow_deps \<Rightarrow> (('d, 'p) memory, 'r) uow_work \<Rightarrow> ('d, 'p, 'r) commit_work" where
  "uow_callback deps fn = Step start_attempt (\<lambda>w.
     case ud_buildRepositories deps (db w, heap w) of
       Some e \<Rightarrow> Fail e
     | None \<Rightarrow> session_work (ud_objects deps) fn (finish_work (ud_objects deps)))"

fun is_harvest_error :: "js_error \<Rightarrow> bool" where
  "is_harvest_error (KitError (EventHarvestError _) _) = True"
| "is_harvest_error _ = False"

definition findHarvestErrorInChain :: "js_error \<Rightarrow> js_error option" where
  "findHarvestErrorInChain e = List.find is_harvest_error (causes e)"

definition causeChainContains :: "js_error \<Rightarrow> js_error \<Rightarrow> bool" where
  "causeChainContains e target \<longleftrightarrow> target \<in> set (tl (causes e))"

definition classifyRunError :: "js_error \<Rightarrow> js_error option \<Rightarrow> bool \<Rightarrow> js_error" where
  "classifyRunError e work_error completed = (case work_error of
     Some we \<Rightarrow> if e = we \<or> causeChainContains e we then e else RollbackError we e
   | None \<Rightarrow> if completed then (case findHarvestErrorInChain e of
         Some he \<Rightarrow> he | None \<Rightarrow> KitError CommitError (Some e))
       else e)"

definition settle_run :: "('d, 'p) uow_world \<Rightarrow> ('d, 'p) uow_world" where
  "settle_run w = w\<lparr>session := map_option ss_close (session w), active := False\<rparr>"

definition uow_run :: "('d, 'p) uow_deps
    \<Rightarrow> ((('d, 'p) uow_world \<Rightarrow> ('p, 'r) body_result \<times> ('d, 'p) uow_world)
        \<Rightarrow> ('d, 'p) uow_world \<Rightarrow> ('p, 'r) body_result \<times> ('d, 'p) uow_world)
    \<Rightarrow> (('d, 'p) memory, 'r) uow_work \<Rightarrow> ('d, 'p) uow_world \<Rightarrow> (js_error, 'r) res \<times> ('d, 'p) uow_world" where
  "uow_run deps transactional fn w =
     (case cd_aborted (ud_commit deps) of Some e \<Rightarrow> (Inl e, w)
      | None \<Rightarrow>
        if active w then (Inl (kit NestedUnitOfWorkError), w)
        else case withCommit (ud_commit deps) transactional (uow_callback deps fn)
            (w\<lparr>active := True, session := None, workCompleted := False, workError := None\<rparr>) of
          (Inr r, w') \<Rightarrow> (Inr r, settle_run w')
        | (Inl e, w') \<Rightarrow> (Inl (classifyRunError e (workError w') (workCompleted w')), settle_run w'))"

section \<open>The callback inside the commit\<close>

text \<open>The callback alone: what it answers, with nothing after it.\<close>

definition plain :: "(js_error, 'r) res \<Rightarrow> ('d, 'p, 'r) commit_work" where
  "plain x = (case x of Inl e \<Rightarrow> Fail e | Inr r \<Rightarrow> Done r None)"

lemma plain_simps [simp]:
  "run_work (plain (Inl e)) ts w = (Inl e, ts, w)"
  "run_work (plain (Inr r)) ts w = (Inr (r, None), ts, w)"
  by (simp_all add: plain_def)

definition run_callback :: "object_info \<Rightarrow> (('d, 'p) memory, 'r) uow_work \<Rightarrow> token_scope \<Rightarrow> ('d, 'p) uow_world
    \<Rightarrow> (js_error, 'r) res \<times> token_scope \<times> ('d, 'p) uow_world" where
  "run_callback oi u ts w = (case run_work (session_work oi u plain) ts w of
     (Inl e, ts', w') \<Rightarrow> (Inl e, ts', w') | (Inr (r, _), ts', w') \<Rightarrow> (Inr r, ts', w'))"

lemma run_callback_simps:
  "run_callback oi (UDone x) ts w = (Inr x, ts, w)"
  "run_callback oi (UFail e) ts w = (Inl e, ts, w)"
  "run_callback oi (UStep u k) ts w = run_callback oi (k (db (memory_step u w), heap (memory_step u w))) ts (memory_step u w)"
  "run_callback oi (UGet t i g) ts w = run_callback oi (g (map_access (current w) (im_get t i))) ts w"
  "run_callback oi (UIsDeleted t i b) ts w = run_callback oi (b (map_access (current w) (im_isDeleted t i))) ts w"
  "run_callback oi (USet t i r c) ts w = run_callback oi (c (fst (session_set (heap w) t i r (current w)))) ts
     (on_session (\<lambda>_. snd (session_set (heap w) t i r (current w))) w)"
  "run_callback oi (UDelete t i c) ts w = run_callback oi (c (fst (session_delete t i (current w)))) ts
     (on_session (\<lambda>_. snd (session_delete t i (current w))) w)"
  by (simp_all add: run_callback_def)

lemma heap_on_session [simp]: "heap (on_session f w) = heap w" "db (on_session f w) = db w"
  "current (on_session f w) = f (current w)"
  by (simp_all add: on_session_def current_def)

definition after_guard :: "object_info \<Rightarrow> object_ref \<Rightarrow> ('d, 'p) uow_world \<Rightarrow> ('d, 'p) uow_world" where
  "after_guard oi r w = on_session (\<lambda>_. snd (enrollSaved_guard oi (heap w) r (current w))) w"

lemma heap_after_guard [simp]: "heap (after_guard oi r w) = heap w"
  by (simp add: after_guard_def)

lemma run_callback_USaved:
  "run_callback oi (USaved r k) ts w = (let w1 = after_guard oi r w in
     case fst (enrollSaved_guard oi (heap w) r (current w)) of
       Inl e \<Rightarrow> run_callback oi (k (Inl e)) ts w1
     | Inr _ \<Rightarrow> (case r of
         Lookalike n \<Rightarrow> run_callback oi (k (Inl commit_error)) ts w1
       | Kit n \<Rightarrow> (case enroll (heap w) n False ts of
           (Inl e, ts') \<Rightarrow> run_callback oi (k (Inl e)) ts' w1
         | (Inr tok, ts') \<Rightarrow> run_callback oi (k (Inr tok)) ts' (on_session (note_token tok) w1))))"
  by (auto simp: run_callback_def Let_def after_guard_def split: sum.split object_ref.split prod.split)

lemma run_callback_UDeleted:
  "run_callback oi (UDeleted r k) ts w = (case assertOpen ''session.enrollDeleted'' (current w) of
       Inl e \<Rightarrow> run_callback oi (k (Inl e)) ts w
     | Inr _ \<Rightarrow> (case r of
         Lookalike n \<Rightarrow> run_callback oi (k (Inl commit_error)) ts w
       | Kit n \<Rightarrow> (case enroll (heap w) n True ts of
           (Inl e, ts') \<Rightarrow> run_callback oi (k (Inl e)) ts' w
         | (Inr tok, ts') \<Rightarrow> run_callback oi (k (Inr tok)) ts' (on_session (note_deleted oi (heap w) r tok) w))))"
  by (auto simp: run_callback_def Let_def split: sum.split object_ref.split prod.split)

text \<open>What follows the callback runs where the callback ended.\<close>

lemma run_session_work:
  "run_work (session_work oi u K) ts w = (case run_callback oi u ts w of (x, ts', w') \<Rightarrow> run_work (K x) ts' w')"
proof (induction u arbitrary: ts w)
  case (USaved r k)
  then show ?case
    by (auto simp: run_callback_USaved Let_def after_guard_def rangeI split: sum.split object_ref.split prod.split)
next
  case (UDeleted r k)
  then show ?case
    by (auto simp: run_callback_UDeleted Let_def rangeI split: sum.split object_ref.split prod.split)
qed (simp_all add: run_callback_simps rangeI)

text \<open>One call of \<open>enrollSaved\<close> and of \<open>enrollDeleted\<close>, through the session and the commit.\<close>

definition saved_step :: "object_info \<Rightarrow> object_ref \<Rightarrow> token_scope \<Rightarrow> ('d, 'p) uow_world
    \<Rightarrow> (js_error, commit_token) res \<times> token_scope \<times> ('d, 'p) uow_world" where
  "saved_step oi r ts w = (let w1 = after_guard oi r w in
     case fst (enrollSaved_guard oi (heap w) r (current w)) of
       Inl e \<Rightarrow> (Inl e, ts, w1)
     | Inr _ \<Rightarrow> (case r of
         Lookalike n \<Rightarrow> (Inl commit_error, ts, w1)
       | Kit n \<Rightarrow> (case enroll (heap w) n False ts of
           (Inl e, ts') \<Rightarrow> (Inl e, ts', w1)
         | (Inr tok, ts') \<Rightarrow> (Inr tok, ts', on_session (note_token tok) w1))))"

definition deleted_step :: "object_info \<Rightarrow> object_ref \<Rightarrow> token_scope \<Rightarrow> ('d, 'p) uow_world
    \<Rightarrow> (js_error, commit_token) res \<times> token_scope \<times> ('d, 'p) uow_world" where
  "deleted_step oi r ts w = (case assertOpen ''session.enrollDeleted'' (current w) of
       Inl e \<Rightarrow> (Inl e, ts, w)
     | Inr _ \<Rightarrow> (case r of
         Lookalike n \<Rightarrow> (Inl commit_error, ts, w)
       | Kit n \<Rightarrow> (case enroll (heap w) n True ts of
           (Inl e, ts') \<Rightarrow> (Inl e, ts', w)
         | (Inr tok, ts') \<Rightarrow> (Inr tok, ts', on_session (note_deleted oi (heap w) r tok) w))))"

lemma run_callback_enroll:
  "run_callback oi (USaved r k) ts w = (case saved_step oi r ts w of (x, ts', w') \<Rightarrow> run_callback oi (k x) ts' w')"
  "run_callback oi (UDeleted r k) ts w = (case deleted_step oi r ts w of (x, ts', w') \<Rightarrow> run_callback oi (k x) ts' w')"
  by (auto simp: run_callback_USaved run_callback_UDeleted saved_step_def deleted_step_def Let_def
      split: sum.split object_ref.split prod.split)

text \<open>What every step of a callback keeps, the callback keeps.\<close>

lemma run_callback_keeps:
  assumes "run_callback oi u ts w = (x, ts', w')" "I ts w"
    and step: "\<And>u ts w. I ts w \<Longrightarrow> I ts (memory_step u w)"
    and set: "\<And>t i r ts w. I ts w \<Longrightarrow> I ts (on_session (\<lambda>_. snd (session_set (heap w) t i r (current w))) w)"
    and del: "\<And>t i ts w. I ts w \<Longrightarrow> I ts (on_session (\<lambda>_. snd (session_delete t i (current w))) w)"
    and saved: "\<And>r ts w x ts' w'. I ts w \<Longrightarrow> saved_step oi r ts w = (x, ts', w') \<Longrightarrow> I ts' w'"
    and deleted: "\<And>r ts w x ts' w'. I ts w \<Longrightarrow> deleted_step oi r ts w = (x, ts', w') \<Longrightarrow> I ts' w'"
  shows "I ts' w'"
  using assms(1,2)
proof (induction u arbitrary: ts w)
  case (USaved r k)
  obtain x1 ts1 w1 where s: "saved_step oi r ts w = (x1, ts1, w1)" by (metis prod_cases3)
  from USaved.IH[OF rangeI _ saved[OF USaved.prems(2) s]] USaved.prems(1) s show ?case by (simp add: run_callback_enroll)
next
  case (UDeleted r k)
  obtain x1 ts1 w1 where s: "deleted_step oi r ts w = (x1, ts1, w1)" by (metis prod_cases3)
  from UDeleted.IH[OF rangeI _ deleted[OF UDeleted.prems(2) s]] UDeleted.prems(1) s show ?case by (simp add: run_callback_enroll)
next
  case (UStep u k)
  from UStep.IH[OF rangeI _ step[OF UStep.prems(2)]] UStep.prems(1) show ?case by (simp add: run_callback_simps)
next
  case (USet t i r k)
  from USet.IH[OF rangeI _ set[OF USet.prems(2)]] USet.prems(1) show ?case by (simp add: run_callback_simps)
next
  case (UDelete t i k)
  from UDelete.IH[OF rangeI _ del[OF UDelete.prems(2)]] UDelete.prems(1) show ?case by (simp add: run_callback_simps)
next
  case (UGet t i k)
  from UGet.IH[OF rangeI _ UGet.prems(2)] UGet.prems(1) show ?case by (simp add: run_callback_simps)
next
  case (UIsDeleted t i k)
  from UIsDeleted.IH[OF rangeI _ UIsDeleted.prems(2)] UIsDeleted.prems(1) show ?case by (simp add: run_callback_simps)
qed (auto simp: run_callback_simps)

text \<open>The session enrolls nothing the commit does not hold, and the scope stays open.\<close>

definition enrolled_held :: "token_scope \<Rightarrow> ('d, 'p) uow_world \<Rightarrow> bool" where
  "enrolled_held ts w \<longleftrightarrow> ts_open ts
    \<and> (\<forall>n. Kit n \<in> set (ss_enrolled (current w)) \<union> set (ss_deleted (current w)) \<longrightarrow> n \<in> set (enrolled_refs ts))"

lemma enroll_holds:
  assumes "enroll h r d ts = (x, ts')" "ts_open ts"
  shows "ts_open ts'" "set (enrolled_refs ts) \<subseteq> set (enrolled_refs ts')"
    and "jhas h r \<or> x = Inr t \<Longrightarrow> r \<in> set (enrolled_refs ts')"
proof -
  have upd: "set (map cr_aggregate (cs[i := (cs ! i)\<lparr>cr_deleted := True\<rparr>])) = set (map cr_aggregate cs)"
    if "i < length cs" for cs :: "commit_record list" and i
  proof -
    have "map cr_aggregate (cs[i := (cs ! i)\<lparr>cr_deleted := True\<rparr>]) = map cr_aggregate cs"
      using that by (intro nth_equalityI) (auto simp: nth_list_update split: if_splits)
    then show ?thesis by (rule arg_cong)
  qed
  show "ts_open ts'"
    using assms by (auto simp: enroll_def Let_def split: option.splits if_splits)
  have "ts_records ts' = ts_records ts \<or> (\<exists>i < length (ts_records ts).
      ts_records ts' = (ts_records ts)[i := (ts_records ts ! i)\<lparr>cr_deleted := True\<rparr>])
    \<or> ts_records ts' = ts_records ts @ [\<lparr>cr_aggregate = r, cr_deleted = d\<rparr>]"
    using assms by (auto simp: enroll_def Let_def dest: token_of_Some split: option.splits if_splits)
  then show sub: "set (enrolled_refs ts) \<subseteq> set (enrolled_refs ts')" using upd by (elim disjE exE conjE) auto
  show "r \<in> set (enrolled_refs ts')" if "jhas h r \<or> x = Inr t"
  proof (cases "token_of r (ts_records ts)")
    case None
    with assms that show ?thesis by (auto simp: enroll_def split: if_splits)
  next
    case (Some i)
    then have "token_of r (ts_records ts) \<noteq> None" by simp
    then have "r \<in> set (enrolled_refs ts)" by (simp add: token_of_None)
    with sub show ?thesis by blast
  qed
qed

lemma enrolled_held_same:
  assumes "enrolled_held ts w" "ss_enrolled (current w') = ss_enrolled (current w)" "ss_deleted (current w') = ss_deleted (current w)"
  shows "enrolled_held ts w'"
  using assms by (simp add: enrolled_held_def)

lemma enrolled_held_grow:
  assumes "enrolled_held ts w" "ts_open ts'" "set (enrolled_refs ts) \<subseteq> set (enrolled_refs ts')"
    and "set (ss_enrolled (current w')) \<union> set (ss_deleted (current w'))
      \<subseteq> insert r (set (ss_enrolled (current w)) \<union> set (ss_deleted (current w)))"
    and "\<And>n. r = Kit n \<Longrightarrow> n \<in> set (enrolled_refs ts')"
  shows "enrolled_held ts' w'"
  using assms unfolding enrolled_held_def by blast

lemma session_ops_enrolled [simp]:
  "ss_enrolled (snd (session_set h t i r s)) = ss_enrolled s" "ss_deleted (snd (session_set h t i r s)) = ss_deleted s"
  "ss_enrolled (snd (session_delete t i s)) = ss_enrolled s" "ss_deleted (snd (session_delete t i s)) = ss_deleted s"
  "ss_enrolled (note_token tok s) = ss_enrolled s" "ss_deleted (note_token tok s) = ss_deleted s"
  by (simp_all add: session_set_def session_delete_def note_token_def split: sum.split prod.split)

lemma note_deleted_enrolled [simp]:
  "set (ss_enrolled (note_deleted oi h r tok s)) = insert r (set (ss_enrolled s))"
  "set (ss_deleted (note_deleted oi h r tok s)) = insert r (set (ss_deleted s))"
  by (simp_all add: note_deleted_def)

lemma current_memory_step [simp]: "current (memory_step u w) = current w"
  by (simp add: memory_step_def current_def case_prod_unfold Let_def)

lemma guard_enrolled:
  assumes "fst (enrollSaved_guard oi h r s) = x"
  shows "ss_deleted (snd (enrollSaved_guard oi h r s)) = ss_deleted s"
    and "x = Inl e \<Longrightarrow> snd (enrollSaved_guard oi h r s) = s"
    and "x = Inr u \<Longrightarrow> set (ss_enrolled (snd (enrollSaved_guard oi h r s))) = insert r (set (ss_enrolled s))
      \<and> object_key oi h r \<noteq> None"
  using assms by (auto simp: enrollSaved_guard_def rbind_Inl_iff split: sum.splits option.splits)

lemma saved_step_held:
  assumes "enrolled_held ts w" "saved_step oi r ts w = (x, ts', w')"
  shows "enrolled_held ts' w'"
proof -
  let ?g = "enrollSaved_guard oi (heap w) r (current w)"
  have cur: "current (after_guard oi r w) = snd ?g" by (simp add: after_guard_def)
  show ?thesis
  proof (cases "fst ?g")
    case (Inl e)
    with assms have "ts' = ts" "current w' = current w"
      using guard_enrolled(2)[OF Inl] cur by (auto simp: saved_step_def Let_def)
    with assms(1) show ?thesis by (simp add: enrolled_held_def)
  next
    case (Inr u)
    note g = guard_enrolled(1)[OF Inr] guard_enrolled(3)[OF Inr refl]
    show ?thesis
    proof (cases r)
      case (Lookalike n)
      with assms Inr have "ts' = ts" "current w' = snd ?g" using cur by (auto simp: saved_step_def Let_def)
      with assms(1) g Lookalike show ?thesis by (auto simp: enrolled_held_def)
    next
      case (Kit n)
      obtain y where e: "enroll (heap w) n False ts = (y, ts')"
        and w': "w' = after_guard oi r w \<or> (\<exists>tok. w' = on_session (note_token tok) (after_guard oi r w))"
        using assms(2) Inr Kit by (auto simp: saved_step_def Let_def split: prod.splits sum.splits)
      have "ts_open ts" using assms(1) by (simp add: enrolled_held_def)
      note h = enroll_holds[OF e this]
      have "jhas (heap w) n" using g(2) Kit by auto
      with h(3) have "n \<in> set (enrolled_refs ts')" by blast
      moreover from w' have "ss_enrolled (current w') = ss_enrolled (snd ?g) \<and> ss_deleted (current w') = ss_deleted (snd ?g)"
        by (elim disjE exE) (simp_all add: cur)
      then have "set (ss_enrolled (current w')) \<union> set (ss_deleted (current w'))
          = insert r (set (ss_enrolled (current w)) \<union> set (ss_deleted (current w)))"
        by (simp add: g)
      ultimately show ?thesis using Kit by (intro enrolled_held_grow[OF assms(1) h(1,2), of w' r]) simp_all
    qed
  qed
qed

lemma deleted_step_held:
  assumes "enrolled_held ts w" "deleted_step oi r ts w = (x, ts', w')"
  shows "enrolled_held ts' w'"
proof (cases "\<exists>n y. r = Kit n \<and> enroll (heap w) n True ts = (y, ts') \<and> assertOpen ''session.enrollDeleted'' (current w) = Inr ()")
  case False
  then have "ts' = ts \<and> w' = w"
    using assms(2) by (auto simp: deleted_step_def split: sum.splits object_ref.splits prod.splits)
  with assms(1) show ?thesis by simp
next
  case True
  then obtain n y where r: "r = Kit n" and e: "enroll (heap w) n True ts = (y, ts')"
    and o: "assertOpen ''session.enrollDeleted'' (current w) = Inr ()" by blast
  have "ts_open ts" using assms(1) by (simp add: enrolled_held_def)
  note h = enroll_holds[OF e this]
  show ?thesis
  proof (cases y)
    case (Inl err)
    with assms(2) r e o have "w' = w" by (simp add: deleted_step_def)
    with assms(1) h(1,2) show ?thesis unfolding enrolled_held_def by blast
  next
    case (Inr tok)
    with assms(2) r e o have w': "w' = on_session (note_deleted oi (heap w) r tok) w" by (simp add: deleted_step_def)
    have "n \<in> set (enrolled_refs ts')" using h(3)[where t = tok] Inr by blast
    with enrolled_held_grow[OF assms(1) h(1,2), of w' r] r w' show ?thesis by auto
  qed
qed

lemma callback_held:
  assumes "run_callback oi u ts w = (x, ts', w')" "enrolled_held ts w"
  shows "enrolled_held ts' w'"
  by (rule run_callback_keeps[where I = enrolled_held, OF assms])
    (auto intro: enrolled_held_same saved_step_held deleted_step_held)

section \<open>What a unit of work guarantees\<close>

lemma current_more [simp]: "current (w\<lparr>workCompleted := b\<rparr>) = current w" "current (w\<lparr>db := d\<rparr>) = current w"
  "current (start_attempt w) = new_session"
  by (simp_all add: current_def start_attempt_def)

lemma uow_callback_Inr:
  assumes "run_work (uow_callback deps fn) ts w = (Inr (r, toks), ts', w1)"
  shows "\<exists>wc. run_callback (ud_objects deps) fn ts (start_attempt w) = (Inr r, ts', wc)
    \<and> assertAllChangesEnrolled (ud_objects deps) (heap wc) (current wc) = Inr ()
    \<and> w1 = on_session ss_close (wc\<lparr>workCompleted := True\<rparr>)"
proof -
  obtain x ts1 wc where cb: "run_callback (ud_objects deps) fn ts (start_attempt w) = (x, ts1, wc)"
    by (metis prod_cases3)
  have f: "run_work (finish_work (ud_objects deps) x) ts1 wc = (Inr (r, toks), ts', w1)"
    using assms cb by (simp add: uow_callback_def run_session_work split: option.splits)
  then obtain y where x: "x = Inr y" by (cases x) (simp_all add: finish_work_def)
  with f have "assertAllChangesEnrolled (ud_objects deps) (heap wc) (current wc) = Inr ()"
    by (cases "assertAllChangesEnrolled (ud_objects deps) (heap wc) (current wc)") (simp_all add: finish_work_def)
  with f x cb show ?thesis by (simp add: finish_work_def)
qed

lemma uow_run_Inr:
  assumes "uow_run deps transactional fn w = (Inr r, w')"
  shows "\<exists>w''. withCommit (ud_commit deps) transactional (uow_callback deps fn)
      (w\<lparr>active := True, session := None, workCompleted := False, workError := None\<rparr>) = (Inr r, w'') \<and> w' = settle_run w''"
  using assms by (auto simp: uow_run_def split: option.splits if_splits prod.splits sum.splits)

text \<open>The aggregates the callback left with events it did not register them with.\<close>

definition changed_in :: "('d, 'p) uow_world \<Rightarrow> nat \<Rightarrow> bool" where
  "changed_in w n \<longleftrightarrow> Kit n \<in> set (im_instancesWithNewPendingEvents (heap w) (ss_identityMap (current w)))"


lemma causes_self: "e \<in> set (causes e)"
  by (cases e rule: causes.cases) auto

lemma causeChain_causes: "e = we \<or> causeChainContains e we \<Longrightarrow> we \<in> set (causes e)"
  using causes_self[of e] by (cases "causes e") (auto simp: causeChainContains_def)


text \<open>A key whose aggregate was deleted in this session, and one with a live instance.\<close>

definition tombstoned :: "nat \<Rightarrow> string \<Rightarrow> uow_session \<Rightarrow> bool" where
  "tombstoned t i s \<longleftrightarrow> im_isDeleted t i (ss_identityMap s) \<and> im_get t i (ss_identityMap s) = None \<and> \<not> ss_closed s"

definition held_or_gone :: "nat \<Rightarrow> string \<Rightarrow> object_ref \<Rightarrow> uow_session \<Rightarrow> bool" where
  "held_or_gone t i r s \<longleftrightarrow> tombstoned t i s \<or> im_get t i (ss_identityMap s) = Some r \<and> \<not> ss_closed s"

lemma im_register_simps [simp]: "im_stores (im_register h r m) = im_stores m" "im_deleted (im_register h r m) = im_deleted m"
  by (simp_all add: im_register_def split: option.split)

lemma im_set_cases:
  assumes "im_set h t i r m = (x, m')"
  obtains "m' = m" "x \<noteq> Inr ()" | "x = Inr ()" "\<not> im_isDeleted t i m" "im_deleted m' = im_deleted m"
    "im_stores m' = jset t (jset i r (im_store_of t m)) (im_stores m)" "im_get t i m \<in> {None, Some r}"
  using assms by (auto simp: im_set_def Let_def im_get_def im_store_of_def split: if_splits option.splits)

lemma im_get_set: "im_stores m' = jset t (jset i r (im_store_of t m)) (im_stores m)
    \<Longrightarrow> im_get t' i' m' = (if t' = t \<and> i' = i then Some r else im_get t' i' m)"
  by (auto simp: im_get_def im_store_of_def split: option.splits)

lemma im_delete_simps:
  "im_get t' i' (im_delete t i m) = (if t' = t \<and> i' = i then None else im_get t' i' m)"
  "im_isDeleted t' i' (im_delete t i m) \<longleftrightarrow> t' = t \<and> i' = i \<or> im_isDeleted t' i' m"
  by (auto simp: im_get_def im_delete_def im_isDeleted_def split: option.splits)

lemma held_or_gone_same:
  assumes "ss_identityMap s' = ss_identityMap s" "ss_closed s' = ss_closed s"
  shows "held_or_gone t i r s' = held_or_gone t i r s" "tombstoned t i s' = tombstoned t i s"
  using assms by (simp_all add: held_or_gone_def tombstoned_def)

lemma set_keeps:
  assumes "P = held_or_gone t i r \<or> P = tombstoned t i" "P s"
  shows "P (snd (session_set h t' i' r' s))"
proof -
  let ?m = "ss_identityMap s"
  obtain x m' where m': "im_set h t' i' r' ?m = (x, m')" by force
  have cl: "\<not> ss_closed s" using assms by (auto simp: held_or_gone_def tombstoned_def)
  then have s': "snd (session_set h t' i' r' s) = s\<lparr>ss_identityMap := m'\<rparr>"
    using m' by (simp add: session_set_def map_access_def assertOpen_def)
  from m' show ?thesis
  proof (cases rule: im_set_cases)
    case 1
    then have "ss_identityMap (s\<lparr>ss_identityMap := m'\<rparr>) = ?m" by simp
    with held_or_gone_same[of "s\<lparr>ss_identityMap := m'\<rparr>" s] assms show ?thesis by (auto simp: s')
  next
    case 2
    note g = im_get_set[OF 2(4)]
    have "im_isDeleted t i m' = im_isDeleted t i ?m" using 2(3) by (simp add: im_isDeleted_def)
    with g 2(2,5) cl assms show ?thesis by (auto simp: s' held_or_gone_def tombstoned_def)
  qed
qed

lemma delete_keeps:
  assumes "P = held_or_gone t i r \<or> P = tombstoned t i" "P s"
  shows "P (s\<lparr>ss_identityMap := im_delete t' i' (ss_identityMap s)\<rparr>)"
  using assms by (auto simp: held_or_gone_def tombstoned_def im_delete_simps)

lemma guard_session: "ss_identityMap (snd (enrollSaved_guard oi h r s)) = ss_identityMap s"
    "ss_closed (snd (enrollSaved_guard oi h r s)) = ss_closed s"
  by (simp_all add: enrollSaved_guard_def split: sum.split)

lemma enroll_steps_keep:
  assumes P: "P = held_or_gone t i r \<or> P = tombstoned t i" and "P (current w)"
  shows "saved_step oi r' ts w = (x, ts', w') \<Longrightarrow> P (current w')"
    and "deleted_step oi r' ts w = (x, ts', w') \<Longrightarrow> P (current w')"
proof -
  have same: "P s' = P s" if "ss_identityMap s' = ss_identityMap s" "ss_closed s' = ss_closed s" for s s'
    using P held_or_gone_same[OF that] by auto
  show "P (current w')" if "saved_step oi r' ts w = (x, ts', w')"
  proof -
    have "ss_identityMap (current w') = ss_identityMap (current w) \<and> ss_closed (current w') = ss_closed (current w)"
      using that by (auto simp: saved_step_def Let_def after_guard_def note_token_def guard_session
          split: sum.splits object_ref.splits prod.splits)
    with same assms(2) show ?thesis by blast
  qed
  show "P (current w')" if "deleted_step oi r' ts w = (x, ts', w')"
  proof -
    let ?s = "current w"
    have "current w' = ?s \<or> (\<exists>tok. current w' = note_deleted oi (heap w) r' tok ?s)"
      using that by (auto simp: deleted_step_def split: sum.splits object_ref.splits prod.splits)
    then show ?thesis
    proof (elim disjE exE)
      fix tok assume c: "current w' = note_deleted oi (heap w) r' tok ?s"
      show ?thesis
      proof (cases "object_key oi (heap w) r'")
        case None
        with c same[of "current w'" ?s] assms(2) show ?thesis by (simp add: note_deleted_def note_token_def)
      next
        case (Some k)
        obtain t' i' where k: "k = (t', i')" by force
        with delete_keeps[OF assms, of t' i'] c Some
          same[of "current w'" "?s\<lparr>ss_identityMap := im_delete t' i' (ss_identityMap ?s)\<rparr>"]
        show ?thesis by (simp add: note_deleted_def note_token_def)
      qed
    qed (simp add: assms(2))
  qed
qed

lemma session_delete_keeps:
  assumes "P = held_or_gone t i r \<or> P = tombstoned t i" "P s"
  shows "P (snd (session_delete t' i' s))"
proof -
  have "\<not> ss_closed s" using assms by (auto simp: held_or_gone_def tombstoned_def)
  with delete_keeps[OF assms] show ?thesis by (simp add: session_delete_def map_access_def assertOpen_def)
qed

lemma callback_keeps_key:
  assumes "P = held_or_gone t i r \<or> P = tombstoned t i"
    and "run_callback oi u ts w = (x, ts', w')" "P (current w)"
  shows "P (current w')"
  by (rule run_callback_keeps[where I = "\<lambda>ts w. P (current w)", OF assms(2,3)])
    (auto intro: set_keeps[OF assms(1)] session_delete_keeps[OF assms(1)] enroll_steps_keep[OF assms(1)])

text \<open>
  An aggregate deleted in a unit of work stays deleted in it, whatever the callback does
  afterwards: its identity is looked up as absent, registering an instance under it throws,
  and saving any object of that identity throws \<open>AggregateDeletedError\<close>.
\<close>

theorem deleted_stays_deleted:
  assumes "deleted_step oi r ts w = (Inr tok, ts1, w1)" "object_key oi (heap w) r = Some (t, i)"
    and "run_callback oi u ts1 w1 = (x, ts2, w2)"
  shows "map_access (current w2) (im_get t i) = Inr None
    \<and> fst (session_set h t i r' (current w2)) = Inl (kit (AggregateDeletedError i))
    \<and> (object_key oi h r'' = Some (t, i) \<longrightarrow>
        enrollSaved_guard oi h r'' (current w2) = (Inl (kit (AggregateDeletedError i)), current w2))"
proof -
  have op: "assertOpen ''session.enrollDeleted'' (current w) = Inr ()" and c: "current w1 = note_deleted oi (heap w) r tok (current w)"
    using assms(1) by (auto simp: deleted_step_def split: sum.splits object_ref.splits prod.splits)
  then have "tombstoned t i (current w1)"
    using assms(2) by (simp add: tombstoned_def note_deleted_def note_token_def im_delete_simps assertOpen_def)
  from callback_keeps_key[OF disjI2[OF refl] assms(3) this] have "tombstoned t i (current w2)" .
  then show ?thesis
    by (auto simp: tombstoned_def map_access_def assertOpen_def session_set_def im_set_def enrollSaved_guard_def)
qed

text \<open>
  A unit of work has one instance per identity: once an instance is registered, every
  later lookup in the same unit answers this instance, until the identity is deleted, and a
  different instance is never taken.
\<close>

theorem one_instance_per_unit:
  assumes "session_set h t i r (current w) = (Inr (), s1)"
    and "run_callback oi u ts (on_session (\<lambda>_. s1) w) = (x, ts2, w2)"
  shows "map_access (current w2) (im_get t i) \<in> {Inr (Some r), Inr None}
    \<and> (map_access (current w2) (im_get t i) = Inr None \<longrightarrow> map_access (current w2) (im_isDeleted t i) = Inr True)
    \<and> (r' \<noteq> r \<longrightarrow> fst (session_set h' t i r' (current w2)) \<noteq> Inr ())"
proof -
  obtain m where m: "im_set h t i r (ss_identityMap (current w)) = (Inr (), m)" "s1 = (current w)\<lparr>ss_identityMap := m\<rparr>"
    "\<not> ss_closed (current w)"
    using assms(1) by (auto simp: session_set_def map_access_def assertOpen_def guard_res_def split: sum.splits prod.splits if_splits)
  from m(1) have "im_get t i m = Some r" by (cases rule: im_set_cases) (simp_all add: im_get_set)
  then have "held_or_gone t i r (current (on_session (\<lambda>_. s1) w))" using m(2,3) by (simp add: held_or_gone_def)
  from callback_keeps_key[OF disjI1[OF refl] assms(2) this] have "held_or_gone t i r (current w2)" .
  then show ?thesis
    by (auto simp: held_or_gone_def tombstoned_def map_access_def assertOpen_def session_set_def im_set_def Let_def
        im_store_of_def im_get_def split: option.splits prod.splits)
qed

section \<open>Concrete inputs\<close>

type_synonym ex_memory = "(unit candidate list, unit) memory"

definition ex_start :: "(unit candidate list, unit) uow_world" where
  "ex_start = \<lparr>db = [], heap = [(0, ex_counter 0)], scopes = 0, log = [], session = None, active = False,
     workCompleted = False, workError = None\<rparr>"

definition ex_uow :: "(unit candidate list, unit) uow_deps" where
  "ex_uow = \<lparr>ud_commit = ex_deps, ud_objects = \<lparr>class_of = \<lambda>_. 0, lookalike_id = \<lambda>_. ''x''\<rparr>,
     ud_buildRepositories = \<lambda>_. None\<rparr>"

definition ex_change :: "ex_memory \<Rightarrow> ex_memory" where
  "ex_change m = (case m of (d, h) \<Rightarrow> (d, jset 0 ((ex_counter 0)\<lparr>version := 1, pendingEvents := [ex_stored]\<rparr>) h))"

definition ex_uow_work :: "(ex_memory, nat) uow_work \<Rightarrow> (ex_memory, nat) uow_work" where
  "ex_uow_work rest = USet 0 ''a'' (Kit 0) (\<lambda>_. UStep ex_change (\<lambda>_. rest))"

definition ex_save :: "(ex_memory, nat) uow_work" where
  "ex_save = USaved (Kit 0) (\<lambda>x. case x of Inl e \<Rightarrow> UFail e | Inr _ \<Rightarrow> UDone 7)"

abbreviation ex_transaction :: "((unit candidate list, unit) uow_world \<Rightarrow> (unit, nat) body_result \<times> (unit candidate list, unit) uow_world)
    \<Rightarrow> (unit candidate list, unit) uow_world \<Rightarrow> (unit, nat) body_result \<times> (unit candidate list, unit) uow_world" where
  "ex_transaction \<equiv> atomic_scope (\<lambda>_. None)"

definition ex_saved :: "(unit candidate list, unit) uow_world" where
  "ex_saved = snd (uow_run ex_uow ex_transaction (ex_uow_work ex_save) ex_start)"



definition ex_open :: "(unit candidate list, unit) uow_world" where
  "ex_open = start_attempt ex_start"

theorem deleted_stays_witness:
  "fst (session_set (heap ex_open) 0 ''a'' (Kit 0)
     (current (snd (snd (deleted_step (ud_objects ex_uow) (Kit 0) (new_token_scope 0) ex_open)))))
   = Inl (kit (AggregateDeletedError ''a''))"
proof -
  let ?d = "deleted_step (ud_objects ex_uow) (Kit 0) (new_token_scope 0) ex_open"
  have d: "?d = (Inr (Token 0 0), fst (snd ?d), snd (snd ?d))" by code_simp
  have k: "object_key (ud_objects ex_uow) (heap ex_open) (Kit 0) = Some (0, ''a'')" by code_simp
  have r: "run_callback (ud_objects ex_uow) (UDone ()) (fst (snd ?d)) (snd (snd ?d)) = (Inr (), fst (snd ?d), snd (snd ?d))"
    by (rule run_callback_simps)
  from deleted_stays_deleted[OF d k r] show ?thesis by blast
qed

theorem one_instance_witness:
  "fst (session_set (heap ex_open) 0 ''a'' (Lookalike 3) (snd (session_set (heap ex_open) 0 ''a'' (Kit 0) (current ex_open))))
   \<noteq> Inr ()"
proof -
  let ?s = "session_set (heap ex_open) 0 ''a'' (Kit 0) (current ex_open)"
  have s: "?s = (Inr (), snd ?s)" by code_simp
  have r: "run_callback (ud_objects ex_uow) (UDone ()) (new_token_scope 0) (on_session (\<lambda>_. snd ?s) ex_open)
    = (Inr (), new_token_scope 0, on_session (\<lambda>_. snd ?s) ex_open)" by (rule run_callback_simps)
  from one_instance_per_unit[OF s r] show ?thesis by (simp only: heap_on_session) blast
qed

end
