(* ===== verification/Deadline_Store.thy ===== *)
theory Deadline_Store
  imports Domain_Events "HOL-Library.Product_Lexorder"
begin

text \<open>
  The in-memory deadline store (src/deadlines/in-memory-deadline-store.ts) behind the port of
  src/deadlines/deadline-store.ts. A date is its time in milliseconds, \<open>None\<close> an invalid
  one. Payloads are copied by \<open>structuredClone\<close>, which may refuse them.
\<close>

section \<open>State\<close>

record stored_deadline =
  deliveryId :: string
  dl_scope :: string
  dl_key :: string
  dueAt :: "int option"
  dl_payload :: ev_data
  dl_attempts :: nat
  dl_sequence :: nat
  dl_lastError :: "js_error option"

record deadline_store =
  dl_pending :: "(string, stored_deadline) jmap"
  dl_dead :: "(string, stored_deadline) jmap"
  dl_maxAttempts :: nat
  dl_maxRecords :: "nat option"
  nextSequence :: nat

definition new_deadline_store :: "js_num option \<Rightarrow> js_num option \<Rightarrow> (js_error, deadline_store) res" where
  "new_deadline_store max_attempts max_records =
     rbind (assertPositiveInteger (case max_attempts of Some n \<Rightarrow> n | None \<Rightarrow> Num 5)) (\<lambda>m.
     rbind (opt_limit max_records) (\<lambda>r.
     Inr \<lparr>dl_pending = [], dl_dead = [], dl_maxAttempts = m, dl_maxRecords = r, nextSequence = 0\<rparr>))"

section \<open>Operations\<close>

definition address :: "string \<Rightarrow> string \<Rightarrow> string" where
  "address scope k = scope @ CHR 0x00 # k"

definition delivery_id :: "nat \<Rightarrow> string" where
  "delivery_id n = ''deadline-'' @ nat_str n"

definition schedule :: "string \<Rightarrow> string \<Rightarrow> int option \<Rightarrow> ev_data \<Rightarrow> deadline_store
    \<Rightarrow> (js_error, unit) res \<times> deadline_store" where
  "schedule scope k due pl s =
     (let a = address scope k; held = length (dl_pending s) + length (dl_dead s)
      in if \<not> jhas (dl_pending s) a \<and> (case dl_maxRecords s of Some n \<Rightarrow> n \<le> held | None \<Rightarrow> False)
         then (Inl (kit (InMemoryCapacityExceededError ''InMemoryDeadlineStore'' ''records''
                (the (dl_maxRecords s)) held 1)), s)
         else let q = nextSequence s; s1 = s\<lparr>nextSequence := q + 1\<rparr>
           in if \<not> cloneable pl then (Inl (PlainError ''DataCloneError'' None), s1)
              else (Inr (), s1\<lparr>dl_pending := jset a \<lparr>deliveryId = delivery_id q, dl_scope = scope, dl_key = k,
                 dueAt = due, dl_payload = pl, dl_attempts = 0, dl_sequence = q, dl_lastError = None\<rparr>
                 (dl_pending s1)\<rparr>))"

definition cancel :: "string \<Rightarrow> string \<Rightarrow> deadline_store \<Rightarrow> deadline_store" where
  "cancel scope k s = s\<lparr>dl_pending := jdel (address scope k) (dl_pending s)\<rparr>"

definition is_due :: "int option \<Rightarrow> stored_deadline \<Rightarrow> bool" where
  "is_due now d \<longleftrightarrow> (case (dueAt d, now) of (Some t, Some n) \<Rightarrow> t \<le> n | _ \<Rightarrow> False)"

definition due_order :: "stored_deadline \<Rightarrow> int \<times> nat" where
  "due_order d = (the (dueAt d), dl_sequence d)"

definition due :: "int option \<Rightarrow> js_num \<Rightarrow> deadline_store \<Rightarrow> (js_error, stored_deadline list) res" where
  "due now limit s = (case limit of
     Num q \<Rightarrow>
       if of_int \<lfloor>q\<rfloor> \<noteq> q \<or> q < 0 then Inl (PlainError ''Error'' None)
       else if q = 0 then Inr []
       else Inr (take (nat \<lfloor>q\<rfloor>) (sort_key due_order (filter (is_due now) (jvals (dl_pending s)))))
   | _ \<Rightarrow> Inl (PlainError ''Error'' None))"

definition find_delivery :: "string \<Rightarrow> (string, stored_deadline) jmap \<Rightarrow> (string \<times> stored_deadline) option" where
  "find_delivery i m = List.find (\<lambda>(a, d). deliveryId d = i) m"

definition deliver_one :: "string \<Rightarrow> deadline_store \<Rightarrow> deadline_store" where
  "deliver_one i s = s\<lparr>dl_pending := (case find_delivery i (dl_pending s) of
       Some (a, d) \<Rightarrow> jdel a (dl_pending s) | None \<Rightarrow> dl_pending s),
     dl_dead := jdel i (dl_dead s)\<rparr>"

definition markDelivered :: "string list \<Rightarrow> deadline_store \<Rightarrow> deadline_store" where
  "markDelivered is s = fold deliver_one is s"

definition markFailed :: "string \<Rightarrow> js_error option \<Rightarrow> deadline_store
    \<Rightarrow> stored_deadline option \<times> deadline_store" where
  "markFailed i err s = (case find_delivery i (dl_pending s) of
     None \<Rightarrow> (None, s)
   | Some (a, d) \<Rightarrow>
       let d' = d\<lparr>dl_attempts := dl_attempts d + 1,
                  dl_lastError := (case err of Some e \<Rightarrow> Some e | None \<Rightarrow> dl_lastError d)\<rparr>
       in if dl_maxAttempts s \<le> dl_attempts d'
          then (Some d', s\<lparr>dl_pending := jdel a (dl_pending s), dl_dead := jset (deliveryId d') d' (dl_dead s)\<rparr>)
          else (None, s\<lparr>dl_pending := jset a d' (dl_pending s)\<rparr>))"

definition deadLetters :: "deadline_store \<Rightarrow> stored_deadline list" where
  "deadLetters s = sort_key dl_sequence (jvals (dl_dead s))"

section \<open>The invariant\<close>

definition well_numbered :: "deadline_store \<Rightarrow> stored_deadline \<Rightarrow> bool" where
  "well_numbered s d \<longleftrightarrow> deliveryId d = delivery_id (dl_sequence d) \<and> dl_sequence d < nextSequence s"

definition pending_ok :: "deadline_store \<Rightarrow> bool" where
  "pending_ok s \<longleftrightarrow> jok (dl_pending s) \<and> (\<forall>a d. jget (dl_pending s) a = Some d \<longrightarrow>
     a = address (dl_scope d) (dl_key d) \<and> well_numbered s d \<and> dl_attempts d < dl_maxAttempts s \<and>
     jget (dl_dead s) (deliveryId d) = None \<and>
     (\<forall>b. (\<exists>e. jget (dl_pending s) b = Some e \<and> deliveryId e = deliveryId d) \<longrightarrow> b = a))"

definition dead_ok :: "deadline_store \<Rightarrow> bool" where
  "dead_ok s \<longleftrightarrow> jok (dl_dead s) \<and> (\<forall>i d. jget (dl_dead s) i = Some d \<longrightarrow>
     i = deliveryId d \<and> well_numbered s d \<and> dl_maxAttempts s \<le> dl_attempts d)"

definition within_limit :: "deadline_store \<Rightarrow> bool" where
  "within_limit s \<longleftrightarrow> (case dl_maxRecords s of
     Some n \<Rightarrow> length (dl_pending s) + length (dl_dead s) \<le> n | None \<Rightarrow> True)"

definition deadlines_ok :: "deadline_store \<Rightarrow> bool" where
  "deadlines_ok s \<longleftrightarrow> 0 < dl_maxAttempts s \<and> pending_ok s \<and> dead_ok s \<and> within_limit s"

lemma pendingD:
  assumes "pending_ok s" "jget (dl_pending s) a = Some d"
  shows "a = address (dl_scope d) (dl_key d)" "well_numbered s d" "dl_attempts d < dl_maxAttempts s"
    "jget (dl_dead s) (deliveryId d) = None" "jget (dl_pending s) b = Some e \<Longrightarrow> deliveryId e = deliveryId d \<Longrightarrow> b = a"
  using assms unfolding pending_ok_def by blast+

lemma pendingI:
  assumes "jok (dl_pending s)"
    and "\<And>a d. jget (dl_pending s) a = Some d \<Longrightarrow> a = address (dl_scope d) (dl_key d) \<and> well_numbered s d
      \<and> dl_attempts d < dl_maxAttempts s \<and> jget (dl_dead s) (deliveryId d) = None"
    and "\<And>a b d e. jget (dl_pending s) a = Some d \<Longrightarrow> jget (dl_pending s) b = Some e \<Longrightarrow> deliveryId e = deliveryId d \<Longrightarrow> b = a"
  shows "pending_ok s"
  using assms unfolding pending_ok_def by blast

lemma delivery_id_inj [simp]: "delivery_id n = delivery_id m \<longleftrightarrow> n = m"
  by (simp add: delivery_id_def nat_str_inj)

lemma find_delivery_Some:
  assumes "pending_ok s"
  shows "find_delivery i (dl_pending s) = Some (a, d) \<longleftrightarrow> jget (dl_pending s) a = Some d \<and> deliveryId d = i"
proof
  assume "find_delivery i (dl_pending s) = Some (a, d)"
  then have m: "(a, d) \<in> set (dl_pending s)" and i: "deliveryId d = i"
    by (auto simp: find_delivery_def dest: find_SomeD)
  from jget_of_mem[OF _ m] assms i show "jget (dl_pending s) a = Some d \<and> deliveryId d = i" by (simp add: pending_ok_def)
next
  assume a: "jget (dl_pending s) a = Some d \<and> deliveryId d = i"
  then have "find_delivery i (dl_pending s) \<noteq> None"
    by (auto simp: find_delivery_def find_None_iff dest!: map_of_SomeD)
  then obtain b e where f: "find_delivery i (dl_pending s) = Some (b, e)" by auto
  then have m: "(b, e) \<in> set (dl_pending s)" and i: "deliveryId e = i"
    by (auto simp: find_delivery_def dest: find_SomeD)
  have "jget (dl_pending s) b = Some e" using jget_of_mem[OF _ m] assms by (simp add: pending_ok_def)
  moreover from this a i assms have "b = a" unfolding pending_ok_def by blast
  ultimately show "find_delivery i (dl_pending s) = Some (a, d)" using f a by simp
qed

lemma find_delivery_None:
  assumes "pending_ok s"
  shows "find_delivery i (dl_pending s) = None \<longleftrightarrow> (\<forall>a d. jget (dl_pending s) a = Some d \<longrightarrow> deliveryId d \<noteq> i)"
  using find_delivery_Some[OF assms] by (metis option.exhaust prod.exhaust option.distinct(1))

text \<open>What the operations do to the entry of an address.\<close>

lemma schedule_cases:
  assumes "schedule scope k t pl s = (r, s')"
  obtains "s' = s" "r \<noteq> Inr ()" | "s' = s\<lparr>nextSequence := nextSequence s + 1\<rparr>" "r \<noteq> Inr ()"
  | d where "r = Inr ()" "s' = s\<lparr>nextSequence := nextSequence s + 1, dl_pending := jset (address scope k) d (dl_pending s)\<rparr>"
      "d = \<lparr>deliveryId = delivery_id (nextSequence s), dl_scope = scope, dl_key = k, dueAt = t, dl_payload = pl,
        dl_attempts = 0, dl_sequence = nextSequence s, dl_lastError = None\<rparr>"
      "jhas (dl_pending s) (address scope k) \<or>
        (case dl_maxRecords s of Some n \<Rightarrow> length (dl_pending s) + length (dl_dead s) < n | None \<Rightarrow> True)"
  using assms by (auto simp: schedule_def Let_def not_le split: if_splits option.splits)

lemma well_numbered_simps [simp]:
  "well_numbered (s\<lparr>dl_pending := p\<rparr>) d = well_numbered s d"
  "well_numbered (s\<lparr>dl_dead := p\<rparr>) d = well_numbered s d"
  "well_numbered s d \<Longrightarrow> well_numbered (s\<lparr>nextSequence := Suc (nextSequence s)\<rparr>) d"
  by (simp_all add: well_numbered_def)

lemma well_numbered_new: "deliveryId d = delivery_id (nextSequence s) \<Longrightarrow> dl_sequence d = nextSequence s
    \<Longrightarrow> well_numbered (s\<lparr>nextSequence := Suc (nextSequence s)\<rparr>) d"
  by (simp add: well_numbered_def)

lemma schedule_ok:
  assumes "deadlines_ok s" "schedule scope k t pl s = (r, s')"
  shows "deadlines_ok s'"
  using assms(2)
proof (cases rule: schedule_cases)
  case 1
  with assms(1) show ?thesis by simp
next
  case 2
  with assms(1) show ?thesis
    by (auto simp: deadlines_ok_def pending_ok_def dead_ok_def within_limit_def split: option.split)
next
  case (3 d)
  let ?a = "address scope k"
  have new: "deliveryId e \<noteq> delivery_id (nextSequence s)" if "jget (dl_pending s) b = Some e" for b e
  proof -
    have "well_numbered s e" using assms(1) that unfolding deadlines_ok_def pending_ok_def by blast
    then show ?thesis by (simp add: well_numbered_def)
  qed
  have dead: "jget (dl_dead s) (delivery_id (nextSequence s)) = None"
  proof (cases "jget (dl_dead s) (delivery_id (nextSequence s))")
    case (Some e)
    then have "well_numbered s e" "deliveryId e = delivery_id (nextSequence s)"
      using assms(1) unfolding deadlines_ok_def dead_ok_def by metis+
    then show ?thesis by (auto simp: well_numbered_def)
  qed
  have "pending_ok s'"
  proof (rule pendingI)
    have pok: "pending_ok s" using assms(1) by (simp add: deadlines_ok_def)
    then show "jok (dl_pending s')" by (simp add: 3(2) pending_ok_def)
    have "0 < dl_maxAttempts s" using assms(1) by (simp add: deadlines_ok_def)
    then show "b = address (dl_scope e) (dl_key e) \<and> well_numbered s' e \<and> dl_attempts e < dl_maxAttempts s'
        \<and> jget (dl_dead s') (deliveryId e) = None" if "jget (dl_pending s') b = Some e" for b e
    proof (cases "b = ?a")
      case True
      with that have "e = d" by (simp add: 3(2))
      with True dead \<open>0 < dl_maxAttempts s\<close> show ?thesis by (simp add: 3(2,3) well_numbered_new)
    next
      case False
      with that have "jget (dl_pending s) b = Some e" by (simp add: 3(2))
      from pendingD(1-4)[OF pok this] show ?thesis by (simp add: 3(2))
    qed
    show "b = c" if "jget (dl_pending s') c = Some e" "jget (dl_pending s') b = Some f" "deliveryId f = deliveryId e" for b c e f
    proof -
      have d: "jget (dl_pending s') x = Some g \<Longrightarrow> x \<noteq> ?a \<Longrightarrow> jget (dl_pending s) x = Some g"
        "jget (dl_pending s') ?a = Some g \<Longrightarrow> deliveryId g = delivery_id (nextSequence s)" for x g
        by (auto simp: 3(2,3))
      from that d new pendingD(5)[OF pok] show ?thesis by (metis (no_types))
    qed
  qed
  moreover have "dead_ok s'" using assms(1) 3(2) by (auto simp: deadlines_ok_def dead_ok_def)
  moreover have "within_limit s'"
    using assms(1) 3(2,4) by (auto simp: deadlines_ok_def within_limit_def length_jset split: option.splits)
  ultimately show ?thesis using assms(1) 3(2) by (simp add: deadlines_ok_def)
qed

lemma remove_ok:
  assumes "deadlines_ok s" "\<And>b. jget p b \<in> {None, jget (dl_pending s) b}" "\<And>i. jget q i \<in> {None, jget (dl_dead s) i}"
    and "jok p" "jok q" "length p \<le> length (dl_pending s)" "length q \<le> length (dl_dead s)"
  shows "deadlines_ok (s\<lparr>dl_pending := p, dl_dead := q\<rparr>)"
proof -
  have p: "jget p b = Some d \<Longrightarrow> jget (dl_pending s) b = Some d" for b d using assms(2)[of b] by auto
  have q: "jget q b = Some d \<Longrightarrow> jget (dl_dead s) b = Some d" for b d using assms(3)[of b] by auto
  have q': "jget (dl_dead s) b = None \<Longrightarrow> jget q b = None" for b using assms(3)[of b] by auto
  let ?s = "s\<lparr>dl_pending := p, dl_dead := q\<rparr>"
  have "pending_ok ?s"
    unfolding pending_ok_def
  proof (intro conjI allI impI)
    show "jok (dl_pending ?s)" using assms(4) by simp
  next
    fix a d assume "jget (dl_pending ?s) a = Some d"
    then have d: "jget (dl_pending s) a = Some d" using p by simp
    show "a = address (dl_scope d) (dl_key d)" "dl_attempts d < dl_maxAttempts ?s"
      using assms(1) d unfolding deadlines_ok_def pending_ok_def by simp_all
    show "well_numbered ?s d" using assms(1) d unfolding deadlines_ok_def pending_ok_def by simp
    have "jget (dl_dead s) (deliveryId d) = None" using assms(1) d unfolding deadlines_ok_def pending_ok_def by blast
    then show "jget (dl_dead ?s) (deliveryId d) = None" using q' by simp
    fix b assume "\<exists>e. jget (dl_pending ?s) b = Some e \<and> deliveryId e = deliveryId d"
    with p d assms(1) show "b = a" unfolding deadlines_ok_def pending_ok_def by auto
  qed
  moreover have "dead_ok ?s"
    unfolding dead_ok_def
  proof (intro conjI allI impI)
    show "jok (dl_dead ?s)" using assms(5) by simp
  next
    fix i d assume "jget (dl_dead ?s) i = Some d"
    then have d: "jget (dl_dead s) i = Some d" using q by simp
    show "i = deliveryId d" "dl_maxAttempts ?s \<le> dl_attempts d" "well_numbered ?s d"
      using assms(1) d unfolding deadlines_ok_def dead_ok_def by simp_all
  qed
  moreover have "within_limit ?s"
    using assms(1,6,7) by (auto simp: within_limit_def deadlines_ok_def split: option.splits)
  ultimately show ?thesis using assms(1) by (simp add: deadlines_ok_def)
qed

lemma remove_both_ok:
  assumes "deadlines_ok s"
  shows "deadlines_ok (s\<lparr>dl_pending := jdel a (dl_pending s), dl_dead := jdel i (dl_dead s)\<rparr>)"
    and "deadlines_ok (s\<lparr>dl_pending := dl_pending s, dl_dead := jdel i (dl_dead s)\<rparr>)"
    and "deadlines_ok (s\<lparr>dl_pending := jdel a (dl_pending s), dl_dead := dl_dead s\<rparr>)"
proof -
  have ok: "jok (dl_pending s)" "jok (dl_dead s)"
    using assms by (simp_all add: deadlines_ok_def pending_ok_def dead_ok_def)
  show "deadlines_ok (s\<lparr>dl_pending := jdel a (dl_pending s), dl_dead := jdel i (dl_dead s)\<rparr>)"
    by (rule remove_ok[OF assms]) (simp_all add: ok length_jdel_le)
  show "deadlines_ok (s\<lparr>dl_pending := dl_pending s, dl_dead := jdel i (dl_dead s)\<rparr>)"
    by (rule remove_ok[OF assms]) (simp_all add: ok length_jdel_le)
  show "deadlines_ok (s\<lparr>dl_pending := jdel a (dl_pending s), dl_dead := dl_dead s\<rparr>)"
    by (rule remove_ok[OF assms]) (simp_all add: ok length_jdel_le)
qed

lemma cancel_ok:
  assumes "deadlines_ok s"
  shows "deadlines_ok (cancel scope k s)"
proof -
  have "cancel scope k s = s\<lparr>dl_pending := jdel (address scope k) (dl_pending s), dl_dead := dl_dead s\<rparr>"
    by (simp add: cancel_def)
  then show ?thesis by (simp only: remove_both_ok(3)[OF assms])
qed

lemma deliver_one_ok:
  assumes "deadlines_ok s"
  shows "deadlines_ok (deliver_one i s)"
proof (cases "find_delivery i (dl_pending s)")
  case None
  then have "deliver_one i s = s\<lparr>dl_pending := dl_pending s, dl_dead := jdel i (dl_dead s)\<rparr>" by (simp add: deliver_one_def)
  then show ?thesis by (simp only: remove_both_ok(2)[OF assms])
next
  case (Some p)
  then have "deliver_one i s = s\<lparr>dl_pending := jdel (fst p) (dl_pending s), dl_dead := jdel i (dl_dead s)\<rparr>"
    by (simp add: deliver_one_def case_prod_unfold)
  then show ?thesis by (simp only: remove_both_ok(1)[OF assms])
qed

lemma markDelivered_ok: "deadlines_ok s \<Longrightarrow> deadlines_ok (markDelivered is s)"
  unfolding markDelivered_def by (induction "is" arbitrary: s) (simp_all add: deliver_one_ok)

lemma deadline_failed_ok:
  assumes "deadlines_ok s"
  shows "deadlines_ok (snd (markFailed i err s))"
proof (cases "find_delivery i (dl_pending s)")
  case None
  with assms show ?thesis by (simp add: markFailed_def)
next
  case (Some p)
  obtain a d where p: "p = (a, d)" by force
  have pok: "pending_ok s" and dok: "dead_ok s" and lim: "within_limit s" and pos: "0 < dl_maxAttempts s"
    using assms by (simp_all add: deadlines_ok_def)
  have d: "jget (dl_pending s) a = Some d" "deliveryId d = i"
    using Some p find_delivery_Some[OF pok] by auto
  let ?d = "d\<lparr>dl_attempts := dl_attempts d + 1, dl_lastError := (case err of Some e \<Rightarrow> Some e | None \<Rightarrow> dl_lastError d)\<rparr>"
  have w: "well_numbered s ?d" "a = address (dl_scope d) (dl_key d)" "jget (dl_dead s) i = None"
    "\<And>b e. jget (dl_pending s) b = Some e \<Longrightarrow> deliveryId e = i \<Longrightarrow> b = a"
    using pendingD[OF pok d(1)] d(2) by (auto simp: well_numbered_def)
  show ?thesis
  proof (cases "dl_maxAttempts s \<le> dl_attempts d + 1")
    case True
    let ?s = "s\<lparr>dl_pending := jdel a (dl_pending s), dl_dead := jset i ?d (dl_dead s)\<rparr>"
    have "pending_ok ?s"
      using pok w(4) pendingD[OF pok] by (intro pendingI) (auto simp: pending_ok_def d(2) split: if_splits)
    moreover have "dead_ok ?s" using dok d(2) w(1) True unfolding dead_ok_def by auto
    moreover have "length (jdel a (dl_pending s)) + length (jset i ?d (dl_dead s)) = length (dl_pending s) + length (dl_dead s)"
    proof -
      have "dl_pending s \<noteq> []" using d(1) by auto
      then have "0 < length (dl_pending s)" by simp
      then show ?thesis using pok d(1) w(3) by (simp add: pending_ok_def length_jdel length_jset)
    qed
    then have "within_limit ?s" using lim by (auto simp: within_limit_def split: option.splits)
    ultimately show ?thesis using True Some p pos d(2) by (simp add: markFailed_def Let_def deadlines_ok_def)
  next
    case False
    let ?s = "s\<lparr>dl_pending := jset a ?d (dl_pending s)\<rparr>"
    have "pending_ok ?s"
      using pok w False pendingD[OF pok] d(2) by (intro pendingI) (auto simp: pending_ok_def split: if_splits)
    moreover have "dead_ok ?s" using dok unfolding dead_ok_def by simp
    moreover have "within_limit ?s" using lim d(1) by (auto simp: within_limit_def length_jset split: option.splits)
    ultimately show ?thesis using False Some p pos by (simp add: markFailed_def Let_def deadlines_ok_def)
  qed
qed

lemma new_deadline_store_ok: "new_deadline_store ma mr = Inr s \<Longrightarrow> deadlines_ok s"
  by (auto simp: new_deadline_store_def deadlines_ok_def pending_ok_def dead_ok_def within_limit_def
      assertPositiveInteger_def split: option.splits if_splits)

section \<open>Properties\<close>

datatype deadline_op =
    Schedule string string "int option" ev_data
  | Cancel string string
  | Delivered "string list"
  | Failed string "js_error option"

fun run_deadline_op :: "deadline_op \<Rightarrow> deadline_store \<Rightarrow> deadline_store" where
  "run_deadline_op (Schedule scope k t pl) s = snd (schedule scope k t pl s)"
| "run_deadline_op (Cancel scope k) s = cancel scope k s"
| "run_deadline_op (Delivered is) s = markDelivered is s"
| "run_deadline_op (Failed i e) s = snd (markFailed i e s)"

lemma run_deadline_op_ok: "deadlines_ok s \<Longrightarrow> deadlines_ok (run_deadline_op op s)"
  by (cases op) (auto simp: cancel_ok markDelivered_ok deadline_failed_ok intro: schedule_ok[OF _ prod.collapse[symmetric]])

lemma run_deadline_ops_ok: "deadlines_ok s \<Longrightarrow> deadlines_ok (fold run_deadline_op ops s)"
  by (induction ops arbitrary: s) (simp_all add: run_deadline_op_ok)

text \<open>
  Whatever is scheduled, cancelled, delivered or failed, in whatever order: there is one
  pending deadline per address, each pending or dead record is a numbered incarnation of its
  own whose delivery id no other record has, no deadline is both pending and dead, pending
  ones have delivery attempts left, and pending and dead records together respect the
  configured capacity.
\<close>

theorem deadline_store_invariant:
  assumes "new_deadline_store max_attempts max_records = Inr s"
  shows "deadlines_ok (fold run_deadline_op ops s)"
  by (rule run_deadline_ops_ok[OF new_deadline_store_ok[OF assms]])

text \<open>What is due, and which deadline comes first.\<close>

abbreviation due_in :: "int option \<Rightarrow> deadline_store \<Rightarrow> stored_deadline list" where
  "due_in now s \<equiv> filter (is_due now) (jvals (dl_pending s))"

lemma due_Num: "due now (Num (of_nat n)) s = Inr (take n (sort_key due_order (due_in now s)))"
  by (simp add: due_def)

lemma distinct_delivery:
  assumes "deadlines_ok s"
  shows "distinct (map deliveryId (jvals (dl_pending s)))"
proof -
  have pok: "pending_ok s" using assms by (simp add: deadlines_ok_def)
  then have d: "distinct (map fst (dl_pending s))" by (simp add: pending_ok_def jok_def)
  have "inj_on (\<lambda>p. deliveryId (snd p)) (set (dl_pending s))"
  proof (rule inj_onI)
    fix p q assume m: "p \<in> set (dl_pending s)" "q \<in> set (dl_pending s)" "deliveryId (snd p) = deliveryId (snd q)"
    then have "jget (dl_pending s) (fst p) = Some (snd p)" "jget (dl_pending s) (fst q) = Some (snd q)"
      using d by (auto simp: map_of_eq_Some_iff)
    with pendingD(5)[OF pok this(2) this(1)] m(3) show "p = q" by (auto intro: prod_eqI)
  qed
  with d have "distinct (map (\<lambda>p. deliveryId (snd p)) (dl_pending s))" by (simp add: distinct_map)
  then show ?thesis by (simp add: comp_def)
qed

lemma due_is_earliest:
  assumes "deadlines_ok s" and "due now (Num (of_nat n)) s = Inr ds"
  shows "sorted (map due_order ds) \<and> distinct (map deliveryId ds) \<and> set ds \<subseteq> set (due_in now s)
    \<and> length ds = min n (length (due_in now s))
    \<and> (\<forall>d \<in> set ds. \<forall>e \<in> set (due_in now s) - set ds. due_order d \<le> due_order e)"
proof -
  let ?all = "sort_key due_order (due_in now s)"
  have ds: "ds = take n ?all" using assms(2) by (simp add: due_Num)
  have "distinct (map deliveryId (due_in now s))" by (rule distinct_map_filter[OF distinct_delivery[OF assms(1)]])
  then have "distinct (map deliveryId ?all)" by (simp add: distinct_map)
  then have dist: "distinct (map deliveryId ds)" unfolding ds by (metis distinct_take take_map)
  have sorted: "sorted (map due_order ?all)" by simp
  then have "sorted (map due_order ds)" unfolding ds by (metis sorted_wrt_take take_map)
  moreover have "set ds \<subseteq> set (due_in now s)" unfolding ds using set_take_subset[of n ?all] by simp
  moreover have "length ds = min n (length (due_in now s))" by (simp add: ds min.commute)
  moreover have "due_order d \<le> due_order e" if "d \<in> set ds" "e \<in> set (due_in now s) - set ds" for d e
  proof -
    have "set ?all = set (take n ?all) \<union> set (drop n ?all)" by (metis append_take_drop_id set_append)
    then have "e \<in> set (drop n ?all)" using that(2) ds by auto
    moreover have "sorted (map due_order (take n ?all) @ map due_order (drop n ?all))"
      using sorted by (metis append_take_drop_id map_append)
    ultimately show ?thesis using that(1) ds by (auto simp: sorted_append)
  qed
  ultimately show ?thesis using dist by blast
qed

text \<open>
  A poll answers the due deadlines earliest first: at most \<open>limit\<close> of them and all when
  they fit, each pending and due, none twice, ordered by due date and then by scheduling
  order, and whatever is left out comes after everything answered.
\<close>

theorem due_is_earliest_first:
  assumes "deadlines_ok s" and "due now (Num (of_nat n)) s = Inr ds"
  shows "sorted (map due_order ds) \<and> distinct (map deliveryId ds) \<and> set ds \<subseteq> set (due_in now s)
    \<and> length ds = min n (length (due_in now s))
    \<and> (\<forall>d \<in> set ds. \<forall>e \<in> set (due_in now s) - set ds. due_order d \<le> due_order e)"
  by (rule due_is_earliest[OF assms])


definition given_before :: "deadline_store \<Rightarrow> string \<Rightarrow> bool" where
  "given_before s i \<longleftrightarrow> (\<exists>n < nextSequence s. i = delivery_id n)"

fun stale_op :: "deadline_store \<Rightarrow> deadline_op \<Rightarrow> bool" where
  "stale_op s (Delivered is) \<longleftrightarrow> (\<forall>i \<in> set is. given_before s i)"
| "stale_op s (Failed i e) \<longleftrightarrow> given_before s i"
| "stale_op s _ \<longleftrightarrow> False"

lemma deliver_other:
  assumes "deadlines_ok s" "jget (dl_pending s) a = Some d" "deliveryId d \<noteq> i"
  shows "jget (dl_pending (deliver_one i s)) a = Some d"
proof (cases "find_delivery i (dl_pending s)")
  case None
  with assms show ?thesis by (simp add: deliver_one_def)
next
  case (Some p)
  obtain b e where p: "p = (b, e)" by force
  have "pending_ok s" using assms(1) by (simp add: deadlines_ok_def)
  from find_delivery_Some[OF this] Some p have "jget (dl_pending s) b = Some e" "deliveryId e = i" by auto
  with assms have "b \<noteq> a" by auto
  with assms(2) Some p show ?thesis by (simp add: deliver_one_def)
qed

lemma markDelivered_other:
  assumes "deadlines_ok s" "jget (dl_pending s) a = Some d" "deliveryId d \<notin> set is"
  shows "jget (dl_pending (markDelivered is s)) a = Some d"
  using assms unfolding markDelivered_def
  by (induction "is" arbitrary: s) (simp_all add: deliver_other deliver_one_ok)

lemma markFailed_other:
  assumes "deadlines_ok s" "jget (dl_pending s) a = Some d" "deliveryId d \<noteq> i"
  shows "jget (dl_pending (snd (markFailed i err s))) a = Some d"
proof (cases "find_delivery i (dl_pending s)")
  case None
  with assms show ?thesis by (simp add: markFailed_def)
next
  case (Some p)
  obtain b e where p: "p = (b, e)" by force
  have "pending_ok s" using assms(1) by (simp add: deadlines_ok_def)
  from find_delivery_Some[OF this] Some p have "jget (dl_pending s) b = Some e" "deliveryId e = i" by auto
  with assms have "b \<noteq> a" by auto
  with assms(2) Some p show ?thesis by (simp add: markFailed_def Let_def)
qed

text \<open>
  Acknowledging or failing an incarnation that was replaced never consumes its successor:
  after a deadline is scheduled, marking delivery ids that were given out before as delivered
  or failed leaves the new incarnation pending exactly as it was scheduled.
\<close>

theorem stale_acknowledgement_fenced:
  assumes "deadlines_ok s" and "schedule scope k t pl s = (Inr (), s1)"
    and "\<forall>op \<in> set ops. stale_op s op"
  shows "jget (dl_pending (fold run_deadline_op ops s1)) (address scope k) =
    Some \<lparr>deliveryId = delivery_id (nextSequence s), dl_scope = scope, dl_key = k, dueAt = t, dl_payload = pl,
      dl_attempts = 0, dl_sequence = nextSequence s, dl_lastError = None\<rparr>"
proof -
  obtain d where d: "jget (dl_pending s1) (address scope k) = Some d" "deliveryId d = delivery_id (nextSequence s)"
    and eq: "d = \<lparr>deliveryId = delivery_id (nextSequence s), dl_scope = scope, dl_key = k, dueAt = t, dl_payload = pl,
      dl_attempts = 0, dl_sequence = nextSequence s, dl_lastError = None\<rparr>"
    using assms(2) by (cases rule: schedule_cases) auto
  have "deadlines_ok u \<Longrightarrow> jget (dl_pending u) (address scope k) = Some d
      \<Longrightarrow> jget (dl_pending (fold run_deadline_op ops u)) (address scope k) = Some d" for u
    using assms(3)
  proof (induction ops arbitrary: u)
    case (Cons op ops)
    have "jget (dl_pending (run_deadline_op op u)) (address scope k) = Some d"
      using Cons.prems d(2) by (cases op)
        (auto simp: given_before_def intro!: markDelivered_other markFailed_other)
    with Cons.IH[OF run_deadline_op_ok[OF Cons.prems(1)]] Cons.prems(3) show ?case by simp
  qed simp
  from this[OF schedule_ok[OF assms(1,2)] d(1)] show ?thesis by (simp add: eq)
qed

text \<open>Scopes without the separator have distinct addresses for distinct deadlines.\<close>

lemma address_inj:
  assumes "CHR 0x00 \<notin> set s1" "CHR 0x00 \<notin> set s2"
  shows "address s1 k1 = address s2 k2 \<longleftrightarrow> s1 = s2 \<and> k1 = k2"
proof
  assume a: "address s1 k1 = address s2 k2"
  then have "takeWhile (\<lambda>c. c \<noteq> CHR 0x00) (address s1 k1) = takeWhile (\<lambda>c. c \<noteq> CHR 0x00) (address s2 k2)" by simp
  moreover have "takeWhile (\<lambda>c. c \<noteq> CHR 0x00) (address s k) = s" if "CHR 0x00 \<notin> set s" for s k
  proof -
    from that have "\<forall>c \<in> set s. c \<noteq> CHR 0x00" by metis
    then show ?thesis by (simp add: address_def takeWhile_tail)
  qed
  ultimately have "s1 = s2" using assms by metis
  with a show "s1 = s2 \<and> k1 = k2" by (simp add: address_def)
qed simp

text \<open>
  A scope that contains the separator character shares its address with another deadline:
  the part behind the separator may as well belong to the key, and scheduling that other
  deadline is accepted and drops the first one, which is neither delivered nor reported.
\<close>

theorem separator_in_scope_collides:
  assumes "deadlines_ok s" and "schedule (x @ CHR 0x00 # y) k t pl s = (Inr (), s1)" and "cloneable pl'"
  shows "fst (schedule x (y @ CHR 0x00 # k) t' pl' s1) = Inr ()
    \<and> (\<forall>d \<in> set (jvals (dl_pending (snd (schedule x (y @ CHR 0x00 # k) t' pl' s1)))).
        deliveryId d \<noteq> delivery_id (nextSequence s))"
proof -
  have same: "address (x @ CHR 0x00 # y) k = address x (y @ CHR 0x00 # k)" by (simp add: address_def)
  obtain d where d: "jget (dl_pending s1) (address x (y @ CHR 0x00 # k)) = Some d" "deliveryId d = delivery_id (nextSequence s)"
    "nextSequence s1 = nextSequence s + 1"
    using assms(2) by (cases rule: schedule_cases) (auto simp: same)
  obtain r s2 where s2: "schedule x (y @ CHR 0x00 # k) t' pl' s1 = (r, s2)" by force
  have r: "r = Inr ()" using s2 d(1) assms(3) by (auto simp: schedule_def Let_def split: if_splits)
  have ok1: "deadlines_ok s1" by (rule schedule_ok[OF assms(1,2)])
  then have pok: "pending_ok s1" by (simp add: deadlines_ok_def)
  have "deliveryId e \<noteq> delivery_id (nextSequence s)" if m: "e \<in> set (jvals (dl_pending s2))" for e
  proof -
    have "jok (dl_pending s2)" using schedule_ok[OF ok1 s2] by (simp add: deadlines_ok_def pending_ok_def)
    then obtain b where b: "jget (dl_pending s2) b = Some e" using m jget_of_mem by fastforce
    show ?thesis
      using s2
    proof (cases rule: schedule_cases)
      case (3 f)
      show ?thesis
      proof (cases "b = address x (y @ CHR 0x00 # k)")
        case True
        with b 3 d(3) show ?thesis by auto
      next
        case False
        with b 3(2) have "jget (dl_pending s1) b = Some e" by simp
        with pendingD(5)[OF pok d(1) this] d(2) False show ?thesis by auto
      qed
    qed (use r in simp_all)
  qed
  with r s2 show ?thesis by simp
qed

section \<open>Concrete inputs\<close>

definition ex_deadlines :: deadline_store where
  "ex_deadlines = \<lparr>dl_pending = [], dl_dead = [], dl_maxAttempts = 2, dl_maxRecords = Some 3, nextSequence = 0\<rparr>"

definition ex_scheduled :: deadline_store where
  "ex_scheduled = snd (schedule ''hold'' ''2'' (Some 10) ENull (snd (schedule ''hold'' ''1'' (Some 20) ENull ex_deadlines)))"

lemma ex_new: "new_deadline_store (Some (Num 2)) (Some (Num 3)) = Inr ex_deadlines"
  by (simp add: new_deadline_store_def ex_deadlines_def opt_limit_def assertPositiveInteger_def
      assertPositiveSafeInteger_def max_safe_integer_def)

lemma ex_scheduled_ok: "deadlines_ok ex_scheduled"
  using run_deadline_ops_ok[OF new_deadline_store_ok[OF ex_new],
      of "[Schedule ''hold'' ''1'' (Some 20) ENull, Schedule ''hold'' ''2'' (Some 10) ENull]"]
  by (simp add: ex_scheduled_def)

theorem deadline_store_invariant_witness:
  "deadlines_ok (fold run_deadline_op [Schedule ''hold'' ''1'' (Some 20) ENull, Failed (delivery_id 0) None] ex_deadlines)"
  by (rule deadline_store_invariant[OF ex_new])

theorem due_is_earliest_witness: "case due (Some 30) (Num 1) ex_scheduled of
    Inr ds \<Rightarrow> map dl_key ds = [''2''] \<and> length ds = 1 | Inl e \<Rightarrow> False"
proof -
  have d: "due (Some 30) (Num (of_nat 1)) ex_scheduled = Inr (take 1 (sort_key due_order (due_in (Some 30) ex_scheduled)))"
    by (rule due_Num)
  have k: "map dl_key (take 1 (sort_key due_order (due_in (Some 30) ex_scheduled))) = [''2'']"
    "length (due_in (Some 30) ex_scheduled) = 2" by code_simp+
  from due_is_earliest_first[OF ex_scheduled_ok d] k d show ?thesis by simp
qed

theorem stale_acknowledgement_witness:
  "jhas (dl_pending (markDelivered [delivery_id 0] (snd (schedule ''hold'' ''1'' (Some 40) ENull ex_scheduled)))) (address ''hold'' ''1'')"
proof -
  have s: "schedule ''hold'' ''1'' (Some 40) ENull ex_scheduled = (Inr (), snd (schedule ''hold'' ''1'' (Some 40) ENull ex_scheduled))"
    by code_simp
  have "given_before ex_scheduled (delivery_id 0)" "nextSequence ex_scheduled = 2"
    by (auto simp: given_before_def ex_scheduled_def schedule_def ex_deadlines_def Let_def)
  then have "\<forall>op \<in> set [Delivered [delivery_id 0]]. stale_op ex_scheduled op" by simp
  from stale_acknowledgement_fenced[OF ex_scheduled_ok s this] show ?thesis by simp
qed

theorem separator_in_scope_witness:
  "map dl_scope (jvals (dl_pending (snd (schedule ''a'' [CHR ''b'', CHR 0x00, CHR ''c''] (Some 1) ENull
     (snd (schedule [CHR ''a'', CHR 0x00, CHR ''b''] ''c'' (Some 1) ENull ex_deadlines)))))) = [''a'']"
proof -
  let ?s1 = "schedule (''a'' @ CHR 0x00 # ''b'') ''c'' (Some 1) ENull ex_deadlines"
  have s1: "?s1 = (Inr (), snd ?s1)" by code_simp
  have "cloneable ENull" by simp
  from separator_in_scope_collides[OF new_deadline_store_ok[OF ex_new] s1 this, of "Some 1"]
  have "delivery_id 0 \<notin> set (map deliveryId (jvals (dl_pending (snd (schedule ''a'' (''b'' @ CHR 0x00 # ''c'') (Some 1) ENull (snd ?s1))))))"
    by (auto simp: ex_deadlines_def)
  moreover have "map (\<lambda>d. (dl_scope d, deliveryId d)) (jvals (dl_pending (snd (schedule ''a'' (''b'' @ CHR 0x00 # ''c'') (Some 1) ENull (snd ?s1)))))
    = [(''a'', delivery_id 1)]" by code_simp
  ultimately show ?thesis by (auto simp: map_eq_Cons_conv)
qed

end
