(* ===== verification/Deadline_Processor.thy ===== *)
theory Deadline_Processor
  imports Dispatcher Deadline_Store
begin

text \<open>
  The deadline processor (src/deadlines/deadline-processor.ts) and the poll loop it shares with
  the outbox dispatcher (src/utils/poll-loop.ts). The environment is the dispatcher's, with a
  handler that may fail and may itself change the store, and a clock. The processor works on
  any deadline store; what it relies on is a locale, which the in-memory store interprets.
\<close>

section \<open>Ports and environment\<close>

record 'o deadline_port =
  dp_due :: "int option \<Rightarrow> nat \<Rightarrow> 'o \<Rightarrow> (js_error, stored_deadline list) res"
  dp_delivered :: "string list \<Rightarrow> 'o \<Rightarrow> 'o"
  dp_failed :: "string \<Rightarrow> js_error option \<Rightarrow> 'o \<Rightarrow> stored_deadline option \<times> 'o"

record 'o deadline_env = "unit environment" +
  handle :: "nat \<Rightarrow> stored_deadline \<Rightarrow> 'o \<Rightarrow> js_error option \<times> 'o"
  clock :: "nat \<Rightarrow> int option"

definition processor_now :: "'o deadline_env \<Rightarrow> 'o dispatcher \<Rightarrow> (js_error, int) res" where
  "processor_now env d = (case clock env (tick d) of Some t \<Rightarrow> Inr t | None \<Rightarrow> Inl typeError)"

section \<open>One pass\<close>

definition poll_due :: "'o deadline_port \<Rightarrow> 'o deadline_env \<Rightarrow> nat \<Rightarrow> 'o dispatcher
    \<Rightarrow> (js_error, stored_deadline list) res \<times> 'o dispatcher" where
  "poll_due P env batchSize d =
     (case bounded_storage env True (\<lambda>x. (rbind (processor_now env d) (\<lambda>t. dp_due P (Some t) batchSize x), x)) d of
        (Inl e, d') \<Rightarrow> (Inl e, d') | (Inr r, d') \<Rightarrow> (r, d'))"

definition fail_delivery :: "'o deadline_port \<Rightarrow> 'o deadline_env \<Rightarrow> stored_deadline \<Rightarrow> js_error
    \<Rightarrow> 'o dispatcher \<Rightarrow> 'o dispatcher" where
  "fail_delivery P env r e d =
     (let as = assessDeliveryFailure (classifyFailure env) e;
          d1 = report_to (OnDeliveryError e (deliveryId r) (Some as)) d
      in if as_kind as = Transient then d1
         else (case bounded_storage env True (dp_failed P (deliveryId r) (Some e)) d1 of
           (Inr (Some dl), d2) \<Rightarrow> report_to (OnDeadLetter (deliveryId dl)) d2
         | (Inr None, d2) \<Rightarrow> d2
         | (Inl markError, d2) \<Rightarrow> if aborted env d2 then d2
             else report_to (OnDeliveryError markError (deliveryId r) None) d2))"

text \<open>The loop over a batch: the delivered ids, and whether a handler failed.\<close>

fun deliver_loop :: "'o deadline_port \<Rightarrow> 'o deadline_env \<Rightarrow> stored_deadline list \<Rightarrow> 'o dispatcher
    \<Rightarrow> string list \<times> bool \<times> 'o dispatcher" where
  "deliver_loop P env [] d = ([], False, d)"
| "deliver_loop P env (r # rs) d =
     (if aborted env d then ([], False, d)
      else case handle env (tick d) r (box d) of
        (None, x) \<Rightarrow> (let (ids, f, d') = deliver_loop P env rs
             (step_clock (d\<lparr>box := x, published := published d @ [deliveryId r]\<rparr>))
           in (deliveryId r # ids, f, d'))
      | (Some e, x) \<Rightarrow> (let d1 = step_clock (d\<lparr>box := x\<rparr>)
           in if aborted env d1 then ([], False, d1)
              else let (ids, f, d') = deliver_loop P env rs (fail_delivery P env r e d1) in (ids, True, d')))"

definition ack_deadlines :: "'o deadline_port \<Rightarrow> 'o deadline_env \<Rightarrow> string list \<Rightarrow> 'o dispatcher \<Rightarrow> bool \<times> 'o dispatcher" where
  "ack_deadlines P env delivered d =
     (if delivered = [] then (True, d)
      else case bounded_storage env (\<not> aborted env d) (\<lambda>x. ((), dp_delivered P delivered x)) d of
        (Inr _, d') \<Rightarrow> (True, d')
      | (Inl e, d') \<Rightarrow> (False, if aborted env d' then d'
          else fold (\<lambda>i. report_to (OnDeliveryError e i None)) delivered d'))"

fun deadline_pass :: "'o deadline_port \<Rightarrow> 'o deadline_env \<Rightarrow> nat \<Rightarrow> nat \<Rightarrow> 'o dispatcher
    \<Rightarrow> (pass_outcome \<times> 'o dispatcher) option" where
  "deadline_pass P env batchSize 0 d = None"
| "deadline_pass P env batchSize (Suc fuel) d =
     (if aborted env d then Some (Stopped, d)
      else case poll_due P env batchSize d of
        (Inl e, d1) \<Rightarrow> Some (Stopped, if aborted env d1 then d1
          else report_to (OnPollError e) (d1\<lparr>consecutiveFailures := consecutiveFailures d1 + 1\<rparr>))
      | (Inr batch, d1) \<Rightarrow>
          if batch = [] then Some (Drained, d1\<lparr>consecutiveFailures := 0\<rparr>)
          else (let (delivered, handlerFailed, d2) = deliver_loop P env batch d1;
                    (acked, d3) = ack_deadlines P env delivered d2
                in if handlerFailed \<or> \<not> acked
                   then Some (Stopped, d3\<lparr>consecutiveFailures := consecutiveFailures d3 + 1\<rparr>)
                   else let d4 = d3\<lparr>consecutiveFailures := 0\<rparr>
                     in if aborted env d4 then Some (Stopped, d4) else deadline_pass P env batchSize fuel d4))"

section \<open>The poll loop\<close>

record poll_config =
  pollIntervalMs :: rat
  pl_baseDelayMs :: rat
  pl_maxDelayMs :: rat
  pl_random :: "(js_error, js_num) res"

text \<open>
  \<open>run\<close> up to a number of rounds, over any pass: the sleeps it took, and the state. Passes do
  not overlap here, so \<open>drainOnce\<close> is the pass itself.
\<close>

fun poll_rounds :: "('o dispatcher \<Rightarrow> (pass_outcome \<times> 'o dispatcher) option) \<Rightarrow> ('o dispatcher \<Rightarrow> bool) \<Rightarrow> poll_config
    \<Rightarrow> nat \<Rightarrow> 'o dispatcher \<Rightarrow> (js_num list \<times> 'o dispatcher) option" where
  "poll_rounds one_pass stop cfg 0 d = Some ([], d)"
| "poll_rounds one_pass stop cfg (Suc rounds) d =
     (if stop d then Some ([], d)
      else case one_pass d of None \<Rightarrow> None
      | Some (out, d') \<Rightarrow>
          if stop d' then Some ([], d')
          else (case poll_rounds one_pass stop cfg rounds d' of None \<Rightarrow> None
            | Some (sleeps, d'') \<Rightarrow> Some ((case out of Drained \<Rightarrow> Num (pollIntervalMs cfg)
                | Stopped \<Rightarrow> currentBackoff (pl_baseDelayMs cfg) (pl_maxDelayMs cfg)
                    (neutralJitterSource (pl_random cfg)) d') # sleeps, d'')))"

definition deadline_run :: "'o deadline_port \<Rightarrow> 'o deadline_env \<Rightarrow> poll_config \<Rightarrow> nat \<Rightarrow> nat \<Rightarrow> nat \<Rightarrow> 'o dispatcher
    \<Rightarrow> (js_num list \<times> 'o dispatcher) option" where
  "deadline_run P env cfg batchSize fuel rounds d =
     poll_rounds (deadline_pass P env batchSize fuel) (aborted env) cfg rounds d"

text \<open>
  A healthy environment: nobody aborts, storage calls complete, the clock is at \<open>t0\<close> or
  later, and a handler that fails does not fail transiently.
\<close>

definition healthy :: "int \<Rightarrow> 'o deadline_env \<Rightarrow> bool" where
  "healthy t0 env \<longleftrightarrow> abort_time env = None \<and> (\<forall>n. storage env n = Completed)
    \<and> (\<forall>n. \<exists>t \<ge> t0. clock env n = Some t) \<and> (\<forall>n r x. snd (handle env n r x) = x)
    \<and> (\<forall>n r x e. fst (handle env n r x) = Some e \<longrightarrow> as_kind (assessDeliveryFailure (classifyFailure env) e) \<noteq> Transient)"

section \<open>The contract of a deadline store\<close>

text \<open>
  \<open>ids\<close> are the pending incarnations, \<open>left\<close> the delivery attempts they have left, \<open>due_at\<close>
  their due dates, \<open>gone\<close> the dead-lettered ones.
\<close>

locale deadline_laws =
  fixes P :: "'o deadline_port"
    and ids :: "'o \<Rightarrow> string list"
    and left :: "'o \<Rightarrow> string \<Rightarrow> nat"
    and due_at :: "'o \<Rightarrow> string \<Rightarrow> int option"
    and gone :: "'o \<Rightarrow> string \<Rightarrow> bool"
    and ok :: "'o \<Rightarrow> bool"
  assumes due_some: "ok x \<Longrightarrow> 0 < n \<Longrightarrow> \<exists>ds. dp_due P (Some t) n x = Inr ds \<and> distinct (map deliveryId ds)
      \<and> deliveryId ` set ds \<subseteq> set (ids x) \<and> (ds = [] \<longrightarrow> (\<forall>i \<in> set (ids x). \<forall>u. due_at x i = Some u \<longrightarrow> t < u))"
    and ids_ok: "ok x \<Longrightarrow> distinct (ids x) \<and> (\<forall>i \<in> set (ids x). 0 < left x i)"
    and ack_ids: "ok x \<Longrightarrow> ids (dp_delivered P is x) = filter (\<lambda>i. i \<notin> set is) (ids x)"
    and ack_view: "ok x \<Longrightarrow> i \<in> set (ids x) \<Longrightarrow> i \<notin> set is
      \<Longrightarrow> left (dp_delivered P is x) i = left x i \<and> due_at (dp_delivered P is x) i = due_at x i"
    and ack_gone: "ok x \<Longrightarrow> gone (dp_delivered P is x) i \<longleftrightarrow> gone x i \<and> i \<notin> set is"
    and ack_ok: "ok x \<Longrightarrow> ok (dp_delivered P is x)"
    and fail_absent: "ok x \<Longrightarrow> i \<notin> set (ids x) \<Longrightarrow> snd (dp_failed P i e x) = x"
    and fail_ids: "ok x \<Longrightarrow> i \<in> set (ids x) \<Longrightarrow>
      ids (snd (dp_failed P i e x)) = (if left x i = 1 then filter (\<lambda>j. j \<noteq> i) (ids x) else ids x)"
    and fail_view: "ok x \<Longrightarrow> j \<in> set (ids (snd (dp_failed P i e x)))
      \<Longrightarrow> left (snd (dp_failed P i e x)) j = (if j = i then left x j - 1 else left x j)
        \<and> due_at (snd (dp_failed P i e x)) j = due_at x j"
    and fail_gone: "ok x \<Longrightarrow> i \<in> set (ids x) \<Longrightarrow>
      gone (snd (dp_failed P i e x)) j \<longleftrightarrow> gone x j \<or> j = i \<and> left x i = 1"
    and fail_ok: "ok x \<Longrightarrow> ok (snd (dp_failed P i e x))"
begin

definition held :: "'o \<Rightarrow> string \<Rightarrow> bool" where
  "held x i \<longleftrightarrow> i \<in> set (ids x) \<or> gone x i"

definition budget :: "'o \<Rightarrow> nat" where
  "budget x = sum_list (map (left x) (ids x))"

text \<open>Nothing new is pending, and what is keeps its date.\<close>

definition shrinks :: "'o \<Rightarrow> 'o \<Rightarrow> bool" where
  "shrinks x y \<longleftrightarrow> set (ids y) \<subseteq> set (ids x) \<and> (\<forall>i \<in> set (ids y). due_at y i = due_at x i)"

lemma shrinks_refl [simp]: "shrinks x x"
  by (simp add: shrinks_def)

lemma shrinks_trans: "shrinks x y \<Longrightarrow> shrinks y z \<Longrightarrow> shrinks x z"
  unfolding shrinks_def by (metis subset_trans subsetD)

lemma ack_effect:
  assumes "ok x"
  shows "shrinks x (dp_delivered P is x)"
    and "held (dp_delivered P is x) i \<longleftrightarrow> held x i \<and> i \<notin> set is"
    and "budget (dp_delivered P is x) \<le> budget x"
    and "set is \<inter> set (ids x) \<noteq> {} \<Longrightarrow> budget (dp_delivered P is x) < budget x"
proof -
  show "shrinks x (dp_delivered P is x)" using assms by (simp add: shrinks_def ack_ids ack_view)
  show "held (dp_delivered P is x) i \<longleftrightarrow> held x i \<and> i \<notin> set is"
    using assms by (auto simp: held_def ack_ids ack_gone)
  have "map (left (dp_delivered P is x)) (filter (\<lambda>i. i \<notin> set is) (ids x)) = map (left x) (filter (\<lambda>i. i \<notin> set is) (ids x))"
    using assms ack_view by (intro map_cong) auto
  then have b: "budget (dp_delivered P is x) = sum_list (map (left x) (filter (\<lambda>i. i \<notin> set is) (ids x)))"
    unfolding budget_def ack_ids[OF assms] by (rule arg_cong)
  have "sum_list (map f is') = sum_list (map f (filter (\<lambda>i. i \<notin> set is) is'))
      + sum_list (map f (filter (\<lambda>i. i \<in> set is) is'))" for f :: "string \<Rightarrow> nat" and is'
    by (induction is') auto
  note split = this[of "left x" "ids x"]
  show "budget (dp_delivered P is x) \<le> budget x" unfolding b by (simp add: budget_def split)
  assume "set is \<inter> set (ids x) \<noteq> {}"
  then obtain i where i: "i \<in> set is" "i \<in> set (ids x)" by blast
  then have "left x i \<le> sum_list (map (left x) (filter (\<lambda>i. i \<in> set is) (ids x)))"
    by (intro member_le_sum_list) auto
  moreover have "0 < left x i" using ids_ok[OF assms] i by blast
  ultimately show "budget (dp_delivered P is x) < budget x" unfolding b by (simp add: budget_def split)
qed

lemma fail_effect:
  assumes "ok x"
  shows "shrinks x (snd (dp_failed P i e x))"
    and "held x j \<Longrightarrow> held (snd (dp_failed P i e x)) j"
    and "budget (snd (dp_failed P i e x)) \<le> budget x"
    and "i \<in> set (ids x) \<Longrightarrow> budget (snd (dp_failed P i e x)) < budget x"
proof -
  let ?y = "snd (dp_failed P i e x)"
  have lt: "budget ?y < budget x" and sh: "shrinks x ?y" and hd: "held x j \<Longrightarrow> held ?y j" if i: "i \<in> set (ids x)" for j
  proof -
    show "shrinks x ?y" using assms i by (auto simp: shrinks_def fail_view fail_ids)
    show "held x j \<Longrightarrow> held ?y j" using assms i by (auto simp: held_def fail_ids fail_gone)
    have pos: "0 < left x i" and dist: "distinct (ids x)" using ids_ok[OF assms] i by auto
    have sum: "budget x = left x i + sum_list (map (left x) (remove1 i (ids x)))"
      unfolding budget_def using i by (rule sum_list_map_remove1)
    have rem: "remove1 i (ids x) = filter (\<lambda>j. j \<noteq> i) (ids x)"
      by (simp only: distinct_remove1_removeAll[OF dist] removeAll_filter_not_eq)
        (rule filter_cong, auto)
    show "budget ?y < budget x"
    proof (cases "left x i = 1")
      case True
      then have y: "ids ?y = filter (\<lambda>j. j \<noteq> i) (ids x)" using assms i by (simp add: fail_ids)
      have "left ?y j = left x j" if "j \<in> set (ids ?y)" for j
        using fail_view[OF assms that] that y by auto
      then have "map (left ?y) (ids ?y) = map (left x) (filter (\<lambda>j. j \<noteq> i) (ids x))"
        using y by (intro map_cong) auto
      then show ?thesis using sum rem pos by (simp add: budget_def)
    next
      case False
      then have y: "ids ?y = ids x" using assms i by (simp add: fail_ids)
      have "budget ?y = left ?y i + sum_list (map (left ?y) (remove1 i (ids x)))"
        unfolding budget_def y using i by (rule sum_list_map_remove1)
      moreover have "left ?y j = left x j" if "j \<in> set (remove1 i (ids x))" for j
        using fail_view[OF assms, of j i e] that y rem by auto
      then have "map (left ?y) (remove1 i (ids x)) = map (left x) (remove1 i (ids x))" by (intro map_cong) auto
      moreover have "left ?y i = left x i - 1" using fail_view[OF assms, of i i e] y i by simp
      ultimately show ?thesis using sum pos by simp
    qed
  qed
  have "\<not> i \<in> set (ids x) \<Longrightarrow> ?y = x" using fail_absent[OF assms] by simp
  with lt sh hd show "shrinks x ?y" "held x j \<Longrightarrow> held ?y j" "budget ?y \<le> budget x"
    "i \<in> set (ids x) \<Longrightarrow> budget ?y < budget x"
    by (metis shrinks_refl, metis, metis less_imp_le order_refl, blast)
qed

text \<open>A step that loses no deadline: each is still held or was handed to a handler that returned.\<close>

definition safe :: "'o dispatcher \<Rightarrow> 'o dispatcher \<Rightarrow> bool" where
  "safe d d' \<longleftrightarrow> ok (box d') \<and> shrinks (box d) (box d') \<and> budget (box d') \<le> budget (box d)
    \<and> (\<exists>is. published d' = published d @ is)
    \<and> (\<forall>i. held (box d) i \<longrightarrow> held (box d') i \<or> i \<in> set (published d'))"

lemma safe_refl: "ok (box d) \<Longrightarrow> safe d d"
  by (simp add: safe_def)

lemma safe_trans:
  assumes "safe d1 d2" "safe d2 d3"
  shows "safe d1 d3"
proof -
  from assms obtain zs ys where "published d2 = published d1 @ zs" "published d3 = published d2 @ ys"
    unfolding safe_def by blast
  then have p: "published d3 = published d1 @ zs @ ys" "set (published d2) \<subseteq> set (published d3)" by auto
  with assms shrinks_trans show ?thesis unfolding safe_def by (blast intro: le_trans)
qed

lemma safe_same: "ok (box d) \<Longrightarrow> box d' = box d \<Longrightarrow> published d' = published d @ is \<Longrightarrow> safe d d'"
  by (auto simp: safe_def)

lemma poll_due_safe:
  assumes "ok (box d)" "poll_due P env n d = (r, d')"
  shows "safe d d'" "box d' = box d"
proof -
  obtain r0 d0 where b: "bounded_storage env True (\<lambda>x. (rbind (processor_now env d) (\<lambda>t. dp_due P (Some t) n x), x)) d = (r0, d0)"
    by force
  then have "d' = d0" using assms(2) by (auto simp: poll_due_def split: sum.splits)
  moreover have "box d0 = box d" "published d0 = published d"
    using b by (auto simp: bounded_storage_def split: if_splits storage_outcome.splits)
  ultimately show "box d' = box d" "safe d d'" using assms(1) safe_same[of d d' "[]"] by auto
qed

lemma fail_delivery_safe:
  assumes "ok (box d)"
  shows "safe d (fail_delivery P env r e d)"
proof -
  let ?d' = "fail_delivery P env r e d"
  have b: "box ?d' = box d \<or> box ?d' = snd (dp_failed P (deliveryId r) (Some e) (box d))"
    and pub: "published ?d' = published d @ []"
    by (auto simp: fail_delivery_def Let_def bounded_storage_def case_prod_unfold
        split: sum.split option.split if_splits storage_outcome.split)
  from b show ?thesis
  proof
    assume "box ?d' = box d"
    from safe_same[OF assms this pub] show ?thesis .
  next
    assume "box ?d' = snd (dp_failed P (deliveryId r) (Some e) (box d))"
    with pub assms fail_effect[OF assms] show ?thesis by (auto simp: safe_def fail_ok)
  qed
qed

lemma deliver_loop_safe:
  assumes "\<And>n r x. snd (handle env n r x) = x" "ok (box d)" "deliver_loop P env batch d = (is, f, d')"
  shows "safe d d' \<and> set is \<subseteq> set (published d')"
  using assms(2,3)
proof (induction batch arbitrary: d "is" f d')
  case Nil
  then show ?case by (simp add: safe_refl)
next
  case (Cons r rs)
  show ?case
  proof (cases "aborted env d")
    case True
    with Cons.prems show ?thesis by (simp add: safe_refl)
  next
    case na: False
    obtain y x where h: "handle env (tick d) r (box d) = (y, x)" by force
    with assms(1)[of "tick d" r "box d"] have x: "x = box d" by simp
    show ?thesis
    proof (cases y)
      case None
      let ?d1 = "step_clock (d\<lparr>box := x, published := published d @ [deliveryId r]\<rparr>)"
      obtain is' where l: "deliver_loop P env rs ?d1 = (is', f, d')" "is = deliveryId r # is'"
        using Cons.prems(2) na h None by (auto split: prod.splits)
      have s1: "safe d ?d1" using Cons.prems(1) x by (intro safe_same[of d ?d1 "[deliveryId r]"]) simp_all
      have "ok (box ?d1)" using Cons.prems(1) x by simp
      from Cons.IH[OF this l(1)] have ih: "safe ?d1 d'" "set is' \<subseteq> set (published d')" by auto
      then have "deliveryId r \<in> set (published d')" unfolding safe_def by auto
      with safe_trans[OF s1 ih(1)] ih(2) l(2) show ?thesis by simp
    next
      case (Some e)
      let ?d1 = "step_clock (d\<lparr>box := x\<rparr>)"
      have s1: "safe d ?d1" and ok1: "ok (box ?d1)" using Cons.prems(1) x by (auto intro!: safe_same[of _ _ "[]"])
      show ?thesis
      proof (cases "aborted env ?d1")
        case True
        with Cons.prems(2) na h Some s1 show ?thesis by (simp add: Let_def)
      next
        case False
        let ?d2 = "fail_delivery P env r e ?d1"
        have s2: "safe ?d1 ?d2" by (rule fail_delivery_safe[OF ok1])
        obtain f' where l: "deliver_loop P env rs ?d2 = (is, f', d')"
          using Cons.prems(2) na h Some False by (auto simp: Let_def split: prod.splits)
        have "ok (box ?d2)" using s2 by (simp add: safe_def)
        from Cons.IH[OF this l] safe_trans[OF s1 safe_trans[OF s2]] show ?thesis by blast
      qed
    qed
  qed
qed

lemma ack_deadlines_safe:
  assumes "ok (box d)" "set is \<subseteq> set (published d)" "ack_deadlines P env is d = (acked, d')"
  shows "safe d d'"
proof -
  have pub: "published d' = published d @ []" and b: "box d' = box d \<or> box d' = dp_delivered P is (box d)"
    using assms(3) by (auto simp: ack_deadlines_def bounded_storage_def Let_def
        split: if_splits sum.splits storage_outcome.splits)
  from b show ?thesis
  proof
    assume "box d' = box d"
    from safe_same[OF assms(1) this pub] show ?thesis .
  next
    assume "box d' = dp_delivered P is (box d)"
    with pub assms(1,2) ack_effect[OF assms(1)] show ?thesis by (auto simp: safe_def ack_ok)
  qed
qed

lemma safe_consecutive [simp]: "safe d (d'\<lparr>consecutiveFailures := c\<rparr>) = safe d d'"
  "safe (d\<lparr>consecutiveFailures := c\<rparr>) d' = safe d d'"
  by (simp_all add: safe_def)

lemma safe_report: "safe d d' \<Longrightarrow> safe d (report_to r d')"
  by (simp add: safe_def)

lemma deadline_pass_safe:
  assumes "\<And>n r x. snd (handle env n r x) = x" "ok (box d)" "deadline_pass P env n fuel d = Some (out, d')"
  shows "safe d d'"
  using assms(2,3)
proof (induction fuel arbitrary: d)
  case (Suc fuel)
  show ?case
  proof (cases "aborted env d")
    case True
    with Suc.prems show ?thesis by (simp add: safe_refl)
  next
    case na: False
    obtain r d1 where pd: "poll_due P env n d = (r, d1)" by force
    note s1 = poll_due_safe[OF Suc.prems(1) pd]
    have ok1: "ok (box d1)" using s1 Suc.prems(1) by simp
    show ?thesis
    proof (cases r)
      case (Inl e)
      with Suc.prems(2) na pd s1(1) show ?thesis by (auto intro: safe_report split: if_splits)
    next
      case (Inr batch)
      show ?thesis
      proof (cases "batch = []")
        case True
        with Suc.prems(2) na pd s1(1) Inr show ?thesis by auto
      next
        case False
        obtain "is" f d2 where l: "deliver_loop P env batch d1 = (is, f, d2)" by (metis prod_cases3)
        obtain acked d3 where a: "ack_deadlines P env is d2 = (acked, d3)" by force
        note s2 = deliver_loop_safe[OF assms(1) ok1 l]
        have ok2: "ok (box d2)" using s2 by (simp add: safe_def)
        have s3: "safe d2 d3" using ack_deadlines_safe[OF ok2 _ a] s2 by blast
        have s: "safe d d3" using safe_trans[OF s1(1) safe_trans[OF conjunct1[OF s2] s3]] .
        have ok3: "ok (box (d3\<lparr>consecutiveFailures := 0\<rparr>))" using s by (simp add: safe_def)
        from Suc.prems(2) na pd Inr False l a have "d' = d3\<lparr>consecutiveFailures := consecutiveFailures d3 + 1\<rparr>
            \<or> d' = d3\<lparr>consecutiveFailures := 0\<rparr> \<or> deadline_pass P env n fuel (d3\<lparr>consecutiveFailures := 0\<rparr>) = Some (out, d')"
          by (auto simp: Let_def split: if_splits)
        then show ?thesis using s Suc.IH[OF ok3] safe_trans[OF s] by auto
      qed
    qed
  qed
qed simp

definition none_due :: "int \<Rightarrow> 'o \<Rightarrow> bool" where
  "none_due t x \<longleftrightarrow> (\<forall>i \<in> set (ids x). \<forall>u. due_at x i = Some u \<longrightarrow> t < u)"

lemma none_due_shrinks: "none_due t x \<Longrightarrow> shrinks x y \<Longrightarrow> none_due t y"
  unfolding none_due_def shrinks_def by (metis subsetD)

lemma healthy_quiet: "healthy t0 env \<Longrightarrow> \<not> aborted env d" "healthy t0 env \<Longrightarrow> snd (handle env n r x) = x"
  by (simp_all add: healthy_def aborted_def)

lemma fail_delivery_healthy:
  assumes "healthy t0 env" "as_kind (assessDeliveryFailure (classifyFailure env) e) \<noteq> Transient"
  shows "box (fail_delivery P env r e d) = snd (dp_failed P (deliveryId r) (Some e) (box d))"
  using assms by (auto simp: fail_delivery_def Let_def bounded_storage_def healthy_def aborted_def case_prod_unfold split: option.split)

lemma deliver_loop_progress:
  assumes "healthy t0 env" "ok (box d)" "deliver_loop P env batch d = (is, f, d')"
    and "deliveryId ` set batch \<subseteq> set (ids (box d))"
  shows "if f then budget (box d') < budget (box d) else box d' = box d \<and> is = map deliveryId batch"
  using assms(2-4)
proof (induction batch arbitrary: d "is" f d')
  case (Cons r rs)
  obtain y x where h: "handle env (tick d) r (box d) = (y, x)" by force
  then have x: "x = box d" using healthy_quiet(2)[OF assms(1), of "tick d" r "box d"] by simp
  have na: "\<not> aborted env d" for d :: "'o dispatcher" by (rule healthy_quiet(1)[OF assms(1)])
  show ?case
  proof (cases y)
    case None
    let ?d1 = "step_clock (d\<lparr>box := x, published := published d @ [deliveryId r]\<rparr>)"
    obtain is' where l: "deliver_loop P env rs ?d1 = (is', f, d')" "is = deliveryId r # is'"
      using Cons.prems(2) na h None by (auto split: prod.splits)
    have "ok (box ?d1)" "deliveryId ` set rs \<subseteq> set (ids (box ?d1))" using Cons.prems(1,3) x by auto
    from Cons.IH[OF this(1) l(1) this(2)] l(2) x show ?thesis by (auto split: if_splits)
  next
    case (Some e)
    let ?d1 = "step_clock (d\<lparr>box := x\<rparr>)" and ?d2 = "fail_delivery P env r e (step_clock (d\<lparr>box := x\<rparr>))"
    have ok1: "ok (box ?d1)" using Cons.prems(1) x by simp
    obtain f' where l: "deliver_loop P env rs ?d2 = (is, f', d')" "f = True"
      using Cons.prems(2) na h Some by (auto simp: Let_def split: prod.splits)
    have "as_kind (assessDeliveryFailure (classifyFailure env) e) \<noteq> Transient"
      using assms(1) h Some unfolding healthy_def by (metis fst_conv)
    from fail_delivery_healthy[OF assms(1) this, of r ?d1]
    have "budget (box ?d2) < budget (box d)" using fail_effect(4)[OF Cons.prems(1), of "deliveryId r"] Cons.prems(3) x by simp
    moreover have "ok (box ?d2)" using fail_delivery_safe[OF ok1] by (simp add: safe_def)
    from deliver_loop_safe[OF healthy_quiet(2)[OF assms(1)] this l(1)] have "budget (box d') \<le> budget (box ?d2)"
      by (simp add: safe_def)
    ultimately show ?thesis using l(2) by simp
  qed
qed simp

lemma ack_deadlines_healthy:
  assumes "healthy t0 env" "ack_deadlines P env is d = (acked, d')"
  shows "acked \<and> box d' = (if is = [] then box d else dp_delivered P is (box d))"
  using assms by (auto simp: ack_deadlines_def bounded_storage_def healthy_def aborted_def split: if_splits)

lemma poll_due_healthy:
  assumes "healthy t0 env" "ok (box d)" "0 < n"
  obtains batch t d' where "poll_due P env n d = (Inr batch, d')" "t0 \<le> t" "deliveryId ` set batch \<subseteq> set (ids (box d))"
    "batch = [] \<Longrightarrow> none_due t (box d)"
proof -
  obtain t where t: "t0 \<le> t" "clock env (tick d) = Some t" using assms(1) unfolding healthy_def by blast
  obtain ds where ds: "dp_due P (Some t) n (box d) = Inr ds" "deliveryId ` set ds \<subseteq> set (ids (box d))"
    "ds = [] \<Longrightarrow> none_due t (box d)"
    using due_some[OF assms(2,3), of t] by (auto simp: none_due_def)
  have "\<exists>d'. poll_due P env n d = (Inr ds, d')"
    using assms(1) t(2) ds(1) by (auto simp: poll_due_def bounded_storage_def healthy_def aborted_def processor_now_def)
  with that t(1) ds(2,3) show thesis by blast
qed

lemma deadline_pass_healthy:
  assumes "healthy t0 env" "0 < n" "ok (box d)" "budget (box d) < fuel"
  shows "\<exists>out d'. deadline_pass P env n fuel d = Some (out, d') \<and>
    (if out = Drained then none_due t0 (box d') else budget (box d') < budget (box d))"
  using assms(3,4)
proof (induction fuel arbitrary: d)
  case (Suc fuel)
  have na: "\<not> aborted env d" for d :: "'o dispatcher" by (rule healthy_quiet(1)[OF assms(1)])
  obtain batch t d1 where pd: "poll_due P env n d = (Inr batch, d1)" "t0 \<le> t"
    and bt: "deliveryId ` set batch \<subseteq> set (ids (box d))" and nd: "batch = [] \<Longrightarrow> none_due t (box d)"
    using poll_due_healthy[OF assms(1) Suc.prems(1) assms(2)] by metis
  have b1: "box d1 = box d" by (rule poll_due_safe[OF Suc.prems(1) pd(1)])
  show ?case
  proof (cases "batch = []")
    case True
    have "none_due t0 (box d)" using nd[OF True] pd(2) unfolding none_due_def by fastforce
    with True na pd b1 show ?thesis by simp
  next
    case False
    obtain "is" f d2 where l: "deliver_loop P env batch d1 = (is, f, d2)" by (metis prod_cases3)
    obtain acked d3 where a: "ack_deadlines P env is d2 = (acked, d3)" by force
    have ok1: "ok (box d1)" using Suc.prems(1) b1 by simp
    note pr = deliver_loop_progress[OF assms(1) ok1 l, unfolded b1, OF bt]
    have s2: "safe d1 d2" "set is \<subseteq> set (published d2)"
      using deliver_loop_safe[OF healthy_quiet(2)[OF assms(1)] ok1 l] by auto
    then have ok2: "ok (box d2)" by (simp add: safe_def)
    note ah = ack_deadlines_healthy[OF assms(1) a]
    have s3: "safe d2 d3" by (rule ack_deadlines_safe[OF ok2 s2(2) a])
    have lt: "budget (box d3) < budget (box d)"
    proof (cases f)
      case True
      with pr s3 show ?thesis by (simp add: safe_def)
    next
      case nf: False
      with pr False have "is \<noteq> []" "box d2 = box d" and "set is \<inter> set (ids (box d)) \<noteq> {}" using bt by (auto simp: neq_Nil_conv)
      with ack_effect(4)[OF Suc.prems(1), of "is"] ah show ?thesis by simp
    qed
    show ?thesis
    proof (cases f)
      case True
      with na pd False l a lt show ?thesis by (simp add: Let_def)
    next
      case nf: False
      let ?d4 = "d3\<lparr>consecutiveFailures := 0\<rparr>"
      have step: "deadline_pass P env n (Suc fuel) d = deadline_pass P env n fuel ?d4"
        using na pd False l a nf ah by (simp add: Let_def)
      have "ok (box ?d4)" "budget (box ?d4) < fuel" using s3 lt Suc.prems(2) by (simp_all add: safe_def)
      from Suc.IH[OF this] lt show ?thesis unfolding step by (auto split: if_splits intro: less_trans)
    qed
  qed
qed simp

lemma deadline_run_healthy:
  assumes "healthy t0 env" "0 < n" "ok (box d)" "budget (box d) < fuel" "budget (box d) < rounds"
  shows "\<exists>sleeps d'. deadline_run P env cfg n fuel rounds d = Some (sleeps, d') \<and> safe d d' \<and> none_due t0 (box d')"
proof -
  let ?p = "deadline_pass P env n fuel" and ?stop = "aborted env"
  have na: "\<not> aborted env d" for d :: "'o dispatcher" by (rule healthy_quiet(1)[OF assms(1)])
  have "\<exists>sleeps d'. poll_rounds ?p ?stop cfg k d = Some (sleeps, d') \<and> safe d d'
      \<and> (none_due t0 (box d) \<or> budget (box d) < k \<longrightarrow> none_due t0 (box d'))"
    if "ok (box d)" "budget (box d) < fuel" for k d
    using that
  proof (induction k arbitrary: d)
    case 0
    then show ?case by (simp add: safe_refl)
  next
    case (Suc k)
    obtain out d1 where p: "?p d = Some (out, d1)"
      and o: "if out = Drained then none_due t0 (box d1) else budget (box d1) < budget (box d)"
      using deadline_pass_healthy[OF assms(1,2) Suc.prems] by blast
    have s: "safe d d1" by (rule deadline_pass_safe[OF healthy_quiet(2)[OF assms(1)] Suc.prems(1) p])
    then have d1: "ok (box d1)" "budget (box d1) < fuel" using Suc.prems(2) by (simp_all add: safe_def)
    from Suc.IH[OF d1] obtain sl d2 where r: "poll_rounds ?p ?stop cfg k d1 = Some (sl, d2)" "safe d1 d2"
      and nd: "none_due t0 (box d1) \<or> budget (box d1) < k \<Longrightarrow> none_due t0 (box d2)" by blast
    have "none_due t0 (box d2)" if "none_due t0 (box d) \<or> budget (box d) < Suc k"
    proof (rule nd)
      show "none_due t0 (box d1) \<or> budget (box d1) < k"
        using that o none_due_shrinks[of t0 "box d" "box d1"] s unfolding safe_def by (auto split: if_splits)
    qed
    moreover have "\<exists>sleeps. poll_rounds ?p ?stop cfg (Suc k) d = Some (sleeps, d2)"
      by (simp add: na[of d] na[of d1] p r(1))
    ultimately show ?case using safe_trans[OF s r(2)] by blast
  qed
  from this[OF assms(3,4), of rounds] assms(5) show ?thesis unfolding deadline_run_def by blast
qed

end

section \<open>The in-memory store as a port\<close>

definition memory_deadlines :: "deadline_store deadline_port" where
  "memory_deadlines = \<lparr>dp_due = \<lambda>now n s. due now (Num (of_nat n)) s,
     dp_delivered = Deadline_Store.markDelivered, dp_failed = Deadline_Store.markFailed\<rparr>"

definition pending_ids :: "deadline_store \<Rightarrow> string list" where
  "pending_ids s = map deliveryId (jvals (dl_pending s))"

definition attempts_left :: "deadline_store \<Rightarrow> string \<Rightarrow> nat" where
  "attempts_left s i = (case find_delivery i (dl_pending s) of
     Some (a, d) \<Rightarrow> dl_maxAttempts s - dl_attempts d | None \<Rightarrow> 0)"

definition due_date :: "deadline_store \<Rightarrow> string \<Rightarrow> int option" where
  "due_date s i = (case find_delivery i (dl_pending s) of Some (a, d) \<Rightarrow> dueAt d | None \<Rightarrow> None)"

definition dead_lettered :: "deadline_store \<Rightarrow> string \<Rightarrow> bool" where
  "dead_lettered s i \<longleftrightarrow> jhas (dl_dead s) i"

lemma deadlines_parts: "deadlines_ok s \<Longrightarrow> pending_ok s" "deadlines_ok s \<Longrightarrow> dead_ok s" "deadlines_ok s \<Longrightarrow> 0 < dl_maxAttempts s"
  by (simp_all add: deadlines_ok_def)

lemma pending_ids_iff: "i \<in> set (pending_ids s) \<longleftrightarrow> (\<exists>p. find_delivery i (dl_pending s) = Some p)"
proof -
  have "find_delivery i (dl_pending s) = None \<longleftrightarrow> i \<notin> set (pending_ids s)"
    by (force simp: find_delivery_def find_None_iff pending_ids_def)
  then show ?thesis by (cases "find_delivery i (dl_pending s)") auto
qed

lemma find_delivery_mem: "pending_ok s \<Longrightarrow> p \<in> set (dl_pending s) \<Longrightarrow> find_delivery (deliveryId (snd p)) (dl_pending s) = Some p"
  using find_delivery_Some[of s "deliveryId (snd p)" "fst p" "snd p"] jget_of_mem[of "dl_pending s" "fst p" "snd p"]
  by (simp add: pending_ok_def)

lemma jdel_ids:
  assumes "pending_ok s" "jget (dl_pending s) a = Some d"
  shows "map deliveryId (jvals (jdel a (dl_pending s))) = filter (\<lambda>j. j \<noteq> deliveryId d) (pending_ids s)"
proof -
  have "a \<noteq> fst p \<longleftrightarrow> deliveryId (snd p) \<noteq> deliveryId d" if "p \<in> set (dl_pending s)" for p
  proof -
    have "jget (dl_pending s) (fst p) = Some (snd p)"
      using that assms(1) jget_of_mem[of "dl_pending s" "fst p" "snd p"] by (simp add: pending_ok_def)
    then show ?thesis using pendingD(5)[OF assms, of "fst p" "snd p"] assms(2) by auto
  qed
  then have "filter (\<lambda>p. a \<noteq> fst p) (dl_pending s) = filter (\<lambda>p. deliveryId (snd p) \<noteq> deliveryId d) (dl_pending s)"
    by (intro filter_cong) auto
  then show ?thesis by (simp add: AList.delete_eq case_prod_unfold filter_map comp_def pending_ids_def)
qed

lemma jset_ids: "jget m a = Some (d :: stored_deadline) \<Longrightarrow> deliveryId d' = deliveryId d \<Longrightarrow> map deliveryId (jvals (jset a d' m)) = map deliveryId (jvals m)"
  by (induction m) (auto split: if_splits)

lemma find_delivery_cong:
  assumes "pending_ok s" "pending_ok s'"
    and "\<And>b e. deliveryId e = j \<Longrightarrow> jget (dl_pending s') b = Some e \<longleftrightarrow> jget (dl_pending s) b = Some e"
  shows "find_delivery j (dl_pending s') = find_delivery j (dl_pending s)"
proof -
  have "find_delivery j (dl_pending s') = Some p \<longleftrightarrow> find_delivery j (dl_pending s) = Some p" for p
    using find_delivery_Some[OF assms(1), of j "fst p" "snd p"] find_delivery_Some[OF assms(2), of j "fst p" "snd p"]
      assms(3)[of "snd p" "fst p"] by auto
  then show ?thesis by (metis option.exhaust)
qed

lemma deliver_one_view:
  assumes "deadlines_ok s"
  shows "pending_ids (deliver_one i s) = filter (\<lambda>j. j \<noteq> i) (pending_ids s)"
    and "j \<noteq> i \<Longrightarrow> find_delivery j (dl_pending (deliver_one i s)) = find_delivery j (dl_pending s)"
    and "dead_lettered (deliver_one i s) j \<longleftrightarrow> dead_lettered s j \<and> j \<noteq> i"
    and "dl_maxAttempts (deliver_one i s) = dl_maxAttempts s"
proof -
  note ok = deadlines_parts(1)[OF assms] deadlines_parts(1)[OF deliver_one_ok[OF assms, of i]]
  show "pending_ids (deliver_one i s) = filter (\<lambda>j. j \<noteq> i) (pending_ids s)"
  proof (cases "find_delivery i (dl_pending s)")
    case None
    then have "i \<notin> set (pending_ids s)" by (simp add: pending_ids_iff)
    then have "filter (\<lambda>j. j \<noteq> i) (pending_ids s) = pending_ids s" by (intro filter_True) auto
    with None show ?thesis by (simp add: deliver_one_def pending_ids_def)
  next
    case (Some p)
    obtain a d where p: "p = (a, d)" by force
    with Some find_delivery_Some[OF ok(1)] have d: "jget (dl_pending s) a = Some d" "deliveryId d = i" by auto
    from jdel_ids[OF ok(1) d(1)] d(2) Some p show ?thesis
      by (simp add: deliver_one_def pending_ids_def[of "_\<lparr>dl_pending := _, dl_dead := _\<rparr>"])
  qed
  show "find_delivery j (dl_pending (deliver_one i s)) = find_delivery j (dl_pending s)" if "j \<noteq> i"
  proof (rule find_delivery_cong[OF ok])
    fix b and e :: stored_deadline assume e: "deliveryId e = j"
    then show "jget (dl_pending (deliver_one i s)) b = Some e \<longleftrightarrow> jget (dl_pending s) b = Some e"
      using deliver_other[OF assms, of b e i] that by (auto simp: deliver_one_def split: option.splits if_splits)
  qed
qed (simp_all add: deliver_one_def dead_lettered_def)

lemma markDelivered_view:
  assumes "deadlines_ok s"
  shows "pending_ids (Deadline_Store.markDelivered is s) = filter (\<lambda>j. j \<notin> set is) (pending_ids s)
    \<and> (\<forall>j. j \<notin> set is \<longrightarrow> find_delivery j (dl_pending (Deadline_Store.markDelivered is s)) = find_delivery j (dl_pending s))
    \<and> (\<forall>j. dead_lettered (Deadline_Store.markDelivered is s) j \<longleftrightarrow> dead_lettered s j \<and> j \<notin> set is)
    \<and> dl_maxAttempts (Deadline_Store.markDelivered is s) = dl_maxAttempts s"
  using assms unfolding Deadline_Store.markDelivered_def
proof (induction "is" arbitrary: s)
  case (Cons i "is")
  from Cons.IH[OF deliver_one_ok[OF Cons.prems]] show ?case
    by (auto simp: deliver_one_view[OF Cons.prems] intro: filter_cong)
qed simp

lemma markFailed_view:
  assumes "deadlines_ok s" "find_delivery i (dl_pending s) = Some (a, d)"
  shows "pending_ids (snd (Deadline_Store.markFailed i e s)) =
      (if attempts_left s i = 1 then filter (\<lambda>j. j \<noteq> i) (pending_ids s) else pending_ids s)"
    and "j \<noteq> i \<Longrightarrow> find_delivery j (dl_pending (snd (Deadline_Store.markFailed i e s))) = find_delivery j (dl_pending s)"
    and "attempts_left s i \<noteq> 1 \<Longrightarrow> \<exists>d'. find_delivery i (dl_pending (snd (Deadline_Store.markFailed i e s))) = Some (a, d')
      \<and> dl_attempts d' = dl_attempts d + 1 \<and> dueAt d' = dueAt d"
    and "dead_lettered (snd (Deadline_Store.markFailed i e s)) j \<longleftrightarrow> dead_lettered s j \<or> j = i \<and> attempts_left s i = 1"
    and "dl_maxAttempts (snd (Deadline_Store.markFailed i e s)) = dl_maxAttempts s"
proof -
  let ?s = "snd (Deadline_Store.markFailed i e s)"
  let ?d = "d\<lparr>dl_attempts := dl_attempts d + 1, dl_lastError := (case e of Some x \<Rightarrow> Some x | None \<Rightarrow> dl_lastError d)\<rparr>"
  note ok = deadlines_parts(1)[OF assms(1)] deadlines_parts(1)[OF deadline_failed_ok[OF assms(1), of i e]]
  from find_delivery_Some[OF ok(1)] assms(2) have d: "jget (dl_pending s) a = Some d" "deliveryId d = i" by auto
  have att: "dl_attempts d < dl_maxAttempts s" "jget (dl_dead s) i = None" using pendingD[OF ok(1) d(1)] d(2) by auto
  then have last: "attempts_left s i = 1 \<longleftrightarrow> dl_maxAttempts s \<le> dl_attempts d + 1"
    using assms(2) by (auto simp: attempts_left_def)
  have new: "?s = (if attempts_left s i = 1 then s\<lparr>dl_pending := jdel a (dl_pending s), dl_dead := jset i ?d (dl_dead s)\<rparr>
      else s\<lparr>dl_pending := jset a ?d (dl_pending s)\<rparr>)"
    using assms(2) d(2) last by (simp add: Deadline_Store.markFailed_def Let_def)
  show "pending_ids ?s = (if attempts_left s i = 1 then filter (\<lambda>j. j \<noteq> i) (pending_ids s) else pending_ids s)"
    using jdel_ids[OF ok(1) d(1)] jset_ids[OF d(1), of ?d] d(2) unfolding new by (simp add: pending_ids_def)
  show "find_delivery j (dl_pending ?s) = find_delivery j (dl_pending s)" if "j \<noteq> i"
  proof (rule find_delivery_cong[OF ok])
    fix b and x :: stored_deadline assume x: "deliveryId x = j"
    then show "jget (dl_pending ?s) b = Some x \<longleftrightarrow> jget (dl_pending s) b = Some x"
      using that d unfolding new by (auto split: if_splits)
  qed
  show "\<exists>d'. find_delivery i (dl_pending ?s) = Some (a, d') \<and> dl_attempts d' = dl_attempts d + 1 \<and> dueAt d' = dueAt d"
    if "attempts_left s i \<noteq> 1"
    using find_delivery_Some[OF ok(2), of i a ?d] that d(2) by (auto simp: new)
  show "dead_lettered ?s j \<longleftrightarrow> dead_lettered s j \<or> j = i \<and> attempts_left s i = 1"
    unfolding new by (auto simp: dead_lettered_def)
  show "dl_maxAttempts ?s = dl_maxAttempts s" unfolding new by simp
qed

lemma attempts_left_pos:
  assumes "deadlines_ok s" "i \<in> set (pending_ids s)"
  shows "0 < attempts_left s i"
proof -
  obtain a d where f: "find_delivery i (dl_pending s) = Some (a, d)" using assms(2) by (auto simp: pending_ids_iff)
  note ok = deadlines_parts(1)[OF assms(1)]
  from f find_delivery_Some[OF ok] have "jget (dl_pending s) a = Some d" by simp
  from pendingD(3)[OF ok this] f show ?thesis by (simp add: attempts_left_def)
qed

lemma due_none_left:
  assumes "deadlines_ok s" "due_in (Some t) s = []" "i \<in> set (pending_ids s)" "due_date s i = Some u"
  shows "t < u"
proof -
  obtain a d where f: "find_delivery i (dl_pending s) = Some (a, d)" using assms(3) by (auto simp: pending_ids_iff)
  then have "d \<in> set (jvals (dl_pending s))" by (force simp: find_delivery_def dest: find_SomeD)
  with assms(2) have "\<not> is_due (Some t) d" by (auto simp: filter_empty_conv)
  with f assms(4) show ?thesis by (simp add: is_due_def due_date_def)
qed

interpretation memory: deadline_laws memory_deadlines pending_ids attempts_left due_date dead_lettered deadlines_ok
proof
  fix x n t assume ok: "deadlines_ok x" and n: "0 < (n :: nat)"
  let ?ds = "take n (sort_key due_order (due_in (Some t) x))"
  have due: "dp_due memory_deadlines (Some t) n x = Inr ?ds" by (simp add: memory_deadlines_def due_Num)
  note spec = due_is_earliest[OF ok due_Num[of "Some t" n x]]
  have "deliveryId ` set ?ds \<subseteq> set (pending_ids x)" using spec by (fastforce simp: pending_ids_def)
  moreover have "\<forall>i \<in> set (pending_ids x). \<forall>u. due_date x i = Some u \<longrightarrow> t < u" if "?ds = []"
  proof -
    from that n have "due_in (Some t) x = []" by (cases "due_in (Some t) x") (auto simp: take_eq_Nil)
    with due_none_left[OF ok] show ?thesis by blast
  qed
  ultimately show "\<exists>ds. dp_due memory_deadlines (Some t) n x = Inr ds \<and> distinct (map deliveryId ds)
      \<and> deliveryId ` set ds \<subseteq> set (pending_ids x)
      \<and> (ds = [] \<longrightarrow> (\<forall>i \<in> set (pending_ids x). \<forall>u. due_date x i = Some u \<longrightarrow> t < u))"
    using due spec by blast
next
  fix x assume ok: "deadlines_ok x"
  show "distinct (pending_ids x) \<and> (\<forall>i \<in> set (pending_ids x). 0 < attempts_left x i)"
    using distinct_delivery[OF ok] attempts_left_pos[OF ok] by (simp add: pending_ids_def)
next
  fix x "is" assume ok: "deadlines_ok x"
  note v = markDelivered_view[OF ok, of "is"]
  show "pending_ids (dp_delivered memory_deadlines is x) = filter (\<lambda>i. i \<notin> set is) (pending_ids x)"
    using v by (simp add: memory_deadlines_def)
  show "deadlines_ok (dp_delivered memory_deadlines is x)" using ok by (simp add: memory_deadlines_def markDelivered_ok)
  show "dead_lettered (dp_delivered memory_deadlines is x) i \<longleftrightarrow> dead_lettered x i \<and> i \<notin> set is" for i
    using v by (simp add: memory_deadlines_def)
  show "attempts_left (dp_delivered memory_deadlines is x) i = attempts_left x i
      \<and> due_date (dp_delivered memory_deadlines is x) i = due_date x i" if "i \<notin> set is" for i
    using v that by (simp add: memory_deadlines_def attempts_left_def due_date_def split: option.split)
next
  fix x i e assume ok: "deadlines_ok x" and "i \<notin> set (pending_ids x)"
  then have "find_delivery i (dl_pending x) = None"
    by (cases "find_delivery i (dl_pending x)") (auto simp: pending_ids_iff)
  then show "snd (dp_failed memory_deadlines i e x) = x" by (simp add: memory_deadlines_def Deadline_Store.markFailed_def)
next
  fix x i e assume ok: "deadlines_ok x" and i: "i \<in> set (pending_ids x)"
  then obtain a d where f: "find_delivery i (dl_pending x) = Some (a, d)" by (auto simp: pending_ids_iff)
  note v = markFailed_view[OF ok f, where e = e]
  show "pending_ids (snd (dp_failed memory_deadlines i e x)) =
      (if attempts_left x i = 1 then filter (\<lambda>j. j \<noteq> i) (pending_ids x) else pending_ids x)"
    using v(1) by (simp add: memory_deadlines_def)
  show "dead_lettered (snd (dp_failed memory_deadlines i e x)) j \<longleftrightarrow> dead_lettered x j \<or> j = i \<and> attempts_left x i = 1" for j
    using v(4) by (simp add: memory_deadlines_def)
next
  fix x i e j assume ok: "deadlines_ok x" and j: "j \<in> set (pending_ids (snd (dp_failed memory_deadlines i e x)))"
  show "attempts_left (snd (dp_failed memory_deadlines i e x)) j = (if j = i then attempts_left x j - 1 else attempts_left x j)
      \<and> due_date (snd (dp_failed memory_deadlines i e x)) j = due_date x j"
  proof (cases "find_delivery i (dl_pending x)")
    case None
    then have x: "snd (dp_failed memory_deadlines i e x) = x" by (simp add: memory_deadlines_def Deadline_Store.markFailed_def)
    with j None have "j \<noteq> i" by (auto simp: pending_ids_iff)
    with x show ?thesis by simp
  next
    case (Some p)
    obtain a d where p: "p = (a, d)" by force
    note v = markFailed_view[OF ok Some[unfolded p], where e = e]
    show ?thesis
    proof (cases "j = i")
      case False
      with v(2,5) show ?thesis by (simp add: memory_deadlines_def attempts_left_def due_date_def split: option.split)
    next
      case True
      with j v(1) have "attempts_left x i \<noteq> 1" by (auto simp: memory_deadlines_def)
      from v(3)[OF this] obtain d' where
        "find_delivery i (dl_pending (snd (Deadline_Store.markFailed i e x))) = Some (a, d')"
        "dl_attempts d' = dl_attempts d + 1" "dueAt d' = dueAt d" by blast
      with True v(5) Some p show ?thesis by (simp add: memory_deadlines_def attempts_left_def due_date_def)
    qed
  qed
next
  fix x i e assume "deadlines_ok x"
  then show "deadlines_ok (snd (dp_failed memory_deadlines i e x))" by (simp add: memory_deadlines_def deadline_failed_ok)
qed

section \<open>Properties\<close>

definition total_attempts_left :: "deadline_store \<Rightarrow> nat" where
  "total_attempts_left s = sum_list (map (attempts_left s) (pending_ids s))"


text \<open>
  C25. Every due deadline is settled: when nobody aborts, storage calls complete, the clock is
  at \<open>t0\<close> or later and no handler fails transiently, then after as many rounds of the poll
  loop as there are delivery attempts left, plus one, no deadline that was due at \<open>t0\<close> is
  pending any more: each was handed to a handler that returned or is dead-lettered.
\<close>

theorem due_deadlines_are_settled:
  assumes "healthy t0 env" and "deadlines_ok (box d)" and "0 < n"
    and "total_attempts_left (box d) < fuel" and "total_attempts_left (box d) < rounds"
  shows "\<exists>sleeps d'. deadline_run memory_deadlines env cfg n fuel rounds d = Some (sleeps, d')
    \<and> (\<forall>i \<in> set (pending_ids (box d')). \<forall>u. due_date (box d') i = Some u \<longrightarrow> t0 < u)
    \<and> (\<forall>i \<in> set (pending_ids (box d)). \<forall>u. due_date (box d) i = Some u \<and> u \<le> t0 \<longrightarrow>
        dead_lettered (box d') i \<or> i \<in> set (published d'))"
proof -
  have "memory.budget (box d) < fuel" "memory.budget (box d) < rounds"
    using assms(4,5) by (simp_all add: memory.budget_def total_attempts_left_def)
  from memory.deadline_run_healthy[OF assms(1,3,2) this]
  obtain sleeps d' where run: "deadline_run memory_deadlines env cfg n fuel rounds d = Some (sleeps, d')"
    and s: "memory.safe d d'" and none: "memory.none_due t0 (box d')" by blast
  have "dead_lettered (box d') i \<or> i \<in> set (published d')"
    if "i \<in> set (pending_ids (box d))" "due_date (box d) i = Some u" "u \<le> t0" for i u
  proof -
    have "i \<notin> set (pending_ids (box d'))"
      using s none that(2,3) unfolding memory.safe_def memory.shrinks_def memory.none_due_def by fastforce
    with s that(1) show ?thesis unfolding memory.safe_def memory.held_def by blast
  qed
  with run none show ?thesis unfolding memory.none_due_def by blast
qed

definition ex_deadline_env :: "deadline_store deadline_env" where
  "ex_deadline_env = \<lparr>abort_time = None, sink_publish = (\<lambda>t r. None), storage = (\<lambda>t. Completed), classifyFailure = None,
     handle = (\<lambda>n r x. (if dl_key r = ''1'' then Some (UserError DOMAIN False 0) else None, x)), clock = (\<lambda>t. Some 30)\<rparr>"

definition ex_processor :: "deadline_store dispatcher" where
  "ex_processor = \<lparr>box = ex_scheduled, tick = 0, consecutiveFailures = 0, published = [], reports = []\<rparr>"


theorem due_deadlines_witness:
  "\<exists>sleeps d'. deadline_run memory_deadlines ex_deadline_env \<lparr>pollIntervalMs = 250, pl_baseDelayMs = 50, pl_maxDelayMs = 5000,
     pl_random = Inr (Num 0)\<rparr> 5 9 9 ex_processor = Some (sleeps, d') \<and> (\<forall>i \<in> set (pending_ids (box d')). \<forall>u. due_date (box d') i = Some u \<longrightarrow> 30 < u)"
proof -
  have h: "healthy 30 ex_deadline_env"
    by (auto simp: healthy_def ex_deadline_env_def assessDeliveryFailure_def classifyDeliveryFailure_def split: if_splits)
  have ok: "deadlines_ok (box ex_processor)" by (simp add: ex_processor_def ex_scheduled_ok)
  have "total_attempts_left (box ex_processor) < 9" by code_simp
  from due_deadlines_are_settled[OF h ok _ this this, of 5] show ?thesis by (simp only: zero_less_numeral) blast
qed

end
