(* ===== verification/Js_Heap.thy ===== *)
theory Js_Heap
  imports Js_Objects Errors
begin

text \<open>
  The object graph the value utilities work on: objects by reference, with internal slots,
  prototype links, property descriptors and functions, and the brand checks of
  src/utils/array/is-built-in.ts over it. A getter's answer is the value of its property;
  the accessors and methods of built-in prototypes are not shadowed by own properties. Graphs
  may share and be cyclic, prototype chains too.
\<close>

section \<open>Values and objects\<close>

datatype jval =
    JUndef | JNull | JBool bool | JNum js_num | JBig int | JStr string | JSym nat | JFun nat | JObj nat

datatype jkey = PStr string | PSym nat

abbreviation toStringTag :: jkey where
  "toStringTag \<equiv> PSym 0"

record jprop =
  pr_value :: jval
  pr_accessor :: bool
  pr_writable :: bool
  pr_enumerable :: bool
  pr_configurable :: bool

text \<open>
  The internal slots. An array has its length, a typed array its element size and elements,
  a box the primitive it wraps; buffers, promises and weak collections are opaque.
\<close>

datatype jslot =
    Ordinary | ArraySlot nat | DateSlot js_num | RegExpSlot string string nat
  | MapSlot "(jval \<times> jval) list" | SetSlot "jval list" | WeakMapSlot | WeakSetSlot | PromiseSlot | ErrorSlot
  | BufferSlot | SharedBufferSlot | DataViewSlot "nat list" | TypedArraySlot nat "jval list" | BoxSlot jval

text \<open>Own properties in the order of \<open>Reflect.ownKeys\<close>; an array's \<open>length\<close> is in its slot.\<close>

record jobj =
  slot :: jslot
  prototype :: "nat option"
  props :: "(jkey \<times> jprop) list"
  extensible :: bool

record jfun =
  fn_source :: "string option"
  fn_name :: "string option"
  fn_prototype :: "jval option"

record jheap =
  objects :: "(nat, jobj) jmap"
  funs :: "(nat, jfun) jmap"
  intrinsic_sources :: "(string \<times> string) list"

definition obj_at :: "jheap \<Rightarrow> nat \<Rightarrow> jobj" where
  "obj_at h r = (case jget (objects h) r of Some x \<Rightarrow> x
     | None \<Rightarrow> \<lparr>slot = Ordinary, prototype = None, props = [], extensible = True\<rparr>)"

definition own_prop :: "jheap \<Rightarrow> nat \<Rightarrow> jkey \<Rightarrow> jprop option" where
  "own_prop h r k = map_of (props (obj_at h r)) k"

definition own_value :: "jheap \<Rightarrow> nat \<Rightarrow> jkey \<Rightarrow> jval" where
  "own_value h r k = (case own_prop h r k of Some p \<Rightarrow> pr_value p | None \<Rightarrow> JUndef)"

text \<open>\<open>===\<close>, and SameValueZero.\<close>

definition strict_equal :: "jval \<Rightarrow> jval \<Rightarrow> bool" where
  "strict_equal a b \<longleftrightarrow> a = b \<and> a \<noteq> JNum NaN"

definition sameValueZero :: "jval \<Rightarrow> jval \<Rightarrow> bool" where
  "sameValueZero a b \<longleftrightarrow> strict_equal a b \<or> (a = JNum NaN \<and> b = JNum NaN)"

lemma sameValueZero_eq [simp]: "sameValueZero a b \<longleftrightarrow> a = b"
  by (auto simp: sameValueZero_def strict_equal_def)

definition isPrimitiveValue :: "jval \<Rightarrow> bool" where
  "isPrimitiveValue v \<longleftrightarrow> (case v of JObj _ \<Rightarrow> False | JFun _ \<Rightarrow> False | _ \<Rightarrow> True)"

section \<open>Prototype chains\<close>

text \<open>The objects from one along its prototypes, each once.\<close>

function proto_chain :: "jheap \<Rightarrow> nat list \<Rightarrow> nat \<Rightarrow> nat list" where
  "proto_chain h visited r =
     (if r \<in> set visited \<or> r \<notin> set (jkeys (objects h)) then []
      else r # (case prototype (obj_at h r) of None \<Rightarrow> [] | Some p \<Rightarrow> proto_chain h (r # visited) p))"
  by pat_completeness auto
termination
proof (relation "measure (\<lambda>(h, visited, r). card (set (jkeys (objects h)) - set visited))")
  fix h visited r p
  assume "\<not> (r \<in> set visited \<or> r \<notin> set (jkeys (objects h)))"
  then have "set (jkeys (objects h)) - set (r # visited) \<subset> set (jkeys (objects h)) - set visited" by auto
  then show "((h, r # visited, p), h, visited, r) \<in> measure (\<lambda>(h, visited, r). card (set (jkeys (objects h)) - set visited))"
    by (simp add: psubset_card_mono)
qed simp

declare proto_chain.simps [simp del]

definition prototypes :: "jheap \<Rightarrow> nat \<Rightarrow> nat list" where
  "prototypes h r = (case prototype (obj_at h r) of None \<Rightarrow> [] | Some p \<Rightarrow> proto_chain h [] p)"

definition findPropertyDescriptor :: "jheap \<Rightarrow> nat \<Rightarrow> jkey \<Rightarrow> jprop option" where
  "findPropertyDescriptor h r k = (case filter (\<lambda>p. own_prop h p k \<noteq> None) (proto_chain h [] r) of
     [] \<Rightarrow> None | p # _ \<Rightarrow> own_prop h p k)"

definition get_value :: "jheap \<Rightarrow> nat \<Rightarrow> jkey \<Rightarrow> jval" where
  "get_value h r k = (case findPropertyDescriptor h r k of Some p \<Rightarrow> pr_value p | None \<Rightarrow> JUndef)"

text \<open>\<open>Object.prototype.toString.call\<close>: the tag property when it is a string, else by the slots.\<close>

fun slot_tag :: "jslot \<Rightarrow> string" where
  "slot_tag (ArraySlot _) = ''Array''"
| "slot_tag ErrorSlot = ''Error''"
| "slot_tag (DateSlot _) = ''Date''"
| "slot_tag (RegExpSlot _ _ _) = ''RegExp''"
| "slot_tag (BoxSlot (JBool _)) = ''Boolean''"
| "slot_tag (BoxSlot (JNum _)) = ''Number''"
| "slot_tag (BoxSlot (JStr _)) = ''String''"
| "slot_tag _ = ''Object''"

definition bracketed :: "string \<Rightarrow> string" where
  "bracketed s = ''[object '' @ s @ '']''"

definition objToString :: "jheap \<Rightarrow> nat \<Rightarrow> string" where
  "objToString h r = bracketed (case get_value h r toStringTag of JStr s \<Rightarrow> s | _ \<Rightarrow> slot_tag (slot (obj_at h r)))"

fun isView :: "jslot \<Rightarrow> bool" where
  "isView (DataViewSlot _) = True"
| "isView (TypedArraySlot _ _) = True"
| "isView _ = False"

section \<open>Brands\<close>

definition BUILT_IN_TAGS :: "string list" where
  "BUILT_IN_TAGS = map bracketed [''Date'', ''RegExp'', ''Map'', ''Set'', ''WeakMap'', ''WeakSet'', ''Promise'',
     ''Error'', ''Boolean'', ''Number'', ''String'', ''BigInt'', ''ArrayBuffer'', ''SharedArrayBuffer'', ''DataView'']"

definition REFERENCE_COMPARED_TAGS :: "string list" where
  "REFERENCE_COMPARED_TAGS = map bracketed [''Error'', ''ArrayBuffer'', ''SharedArrayBuffer'', ''Promise'', ''WeakMap'', ''WeakSet'']"

definition OPAQUE_EXOTIC_TAGS :: "string list" where
  "OPAQUE_EXOTIC_TAGS = map bracketed [''Symbol'', ''Generator'', ''AsyncGenerator'', ''WeakRef'', ''FinalizationRegistry'']"

definition isOpaqueExoticTag :: "string \<Rightarrow> bool" where
  "isOpaqueExoticTag tag \<longleftrightarrow> tag \<in> set OPAQUE_EXOTIC_TAGS"

definition ERROR_INTRINSIC_NAMES :: "string list" where
  "ERROR_INTRINSIC_NAMES = [''Error'', ''EvalError'', ''RangeError'', ''ReferenceError'', ''SyntaxError'', ''TypeError'',
     ''URIError'', ''AggregateError'']"

definition isIntrinsicConstructorPrototype :: "jheap \<Rightarrow> nat \<Rightarrow> string option \<Rightarrow> bool" where
  "isIntrinsicConstructorPrototype h p expectedName =
     (case own_prop h p (PStr ''constructor'') of
        None \<Rightarrow> False
      | Some d \<Rightarrow> (case pr_value d of
          JFun f \<Rightarrow> (case Option.bind (jget (funs h) f) fn_source of
              None \<Rightarrow> False
            | Some candidateSource \<Rightarrow>
                let candidateName = Option.bind (jget (funs h) f) fn_name;
                    expectedSource = Option.bind expectedName (map_of (intrinsic_sources h));
                    intrinsicName = (case expectedName of Some n \<Rightarrow> Some n | None \<Rightarrow> candidateName)
                in \<not> pr_accessor d \<and>
                   (case expectedSource of Some s \<Rightarrow> candidateSource = s
                    | None \<Rightarrow> candidateSource \<in> set (map snd (intrinsic_sources h))) \<and>
                   candidateName = intrinsicName \<and>
                   Option.bind intrinsicName (map_of (intrinsic_sources h)) = Some candidateSource \<and>
                   Option.bind (jget (funs h) f) fn_prototype = Some (JObj p))
        | _ \<Rightarrow> False))"

fun intrinsic_walk :: "jheap \<Rightarrow> string option \<Rightarrow> nat list \<Rightarrow> bool" where
  "intrinsic_walk h expectedName [] = False"
| "intrinsic_walk h expectedName (p # ps) =
     (if own_prop h p (PStr ''constructor'') \<noteq> None then isIntrinsicConstructorPrototype h p expectedName
      else if map fst (props (obj_at h p)) \<noteq> [toStringTag] then False
      else intrinsic_walk h expectedName ps)"

definition hasIntrinsicPrototypeChain :: "jheap \<Rightarrow> nat \<Rightarrow> string option \<Rightarrow> bool" where
  "hasIntrinsicPrototypeChain h r expectedName = intrinsic_walk h expectedName (prototypes h r)"

definition hasNativePrototype :: "jheap \<Rightarrow> nat \<Rightarrow> string \<Rightarrow> bool" where
  "hasNativePrototype h r expectedName =
     list_ex (\<lambda>p. isIntrinsicConstructorPrototype h p (Some expectedName)) (prototypes h r)"

fun slot_brand :: "jslot \<Rightarrow> string" where
  "slot_brand (DateSlot _) = ''Date''"
| "slot_brand (RegExpSlot _ _ _) = ''RegExp''"
| "slot_brand (MapSlot _) = ''Map''"
| "slot_brand (SetSlot _) = ''Set''"
| "slot_brand WeakMapSlot = ''WeakMap''"
| "slot_brand WeakSetSlot = ''WeakSet''"
| "slot_brand (DataViewSlot _) = ''DataView''"
| "slot_brand BufferSlot = ''ArrayBuffer''"
| "slot_brand SharedBufferSlot = ''SharedArrayBuffer''"
| "slot_brand (BoxSlot (JBool _)) = ''Boolean''"
| "slot_brand (BoxSlot (JNum _)) = ''Number''"
| "slot_brand (BoxSlot (JStr _)) = ''String''"
| "slot_brand (BoxSlot (JBig _)) = ''BigInt''"
| "slot_brand _ = []"

definition PROBED_BRANDS :: "string list" where
  "PROBED_BRANDS = [''Date'', ''RegExp'', ''Map'', ''Set'', ''WeakMap'', ''WeakSet'', ''DataView'', ''ArrayBuffer'',
     ''SharedArrayBuffer'', ''Boolean'', ''Number'', ''String'', ''BigInt'']"

definition hasBrand :: "jheap \<Rightarrow> nat \<Rightarrow> string \<Rightarrow> bool" where
  "hasBrand h r tag =
     (if tag \<in> set (map bracketed PROBED_BRANDS) then tag = bracketed (slot_brand (slot (obj_at h r)))
      else if tag = bracketed ''Promise'' then hasNativePrototype h r ''Promise''
      else if tag = bracketed ''Error'' then list_ex (hasNativePrototype h r) ERROR_INTRINSIC_NAMES
      else False)"

definition ends_with :: "string \<Rightarrow> string \<Rightarrow> bool" where
  "ends_with s e \<longleftrightarrow> drop (length s - length e) s = e"

definition isBuiltInObject :: "jheap \<Rightarrow> nat \<Rightarrow> string \<Rightarrow> bool" where
  "isBuiltInObject h r tag =
     (if isView (slot (obj_at h r)) then True
      else if ends_with tag ''Array]'' then False
      else tag \<in> set BUILT_IN_TAGS \<and> hasBrand h r tag)"

definition builtInTagFromBrand :: "jheap \<Rightarrow> nat \<Rightarrow> string option" where
  "builtInTagFromBrand h r =
     (case filter (hasBrand h r) (map bracketed PROBED_BRANDS) of
        tag # _ \<Rightarrow> Some tag
      | [] \<Rightarrow> if hasNativePrototype h r ''Promise'' then Some (bracketed ''Promise'')
          else if hasNativePrototype h r ''Error'' then Some (bracketed ''Error'') else None)"

definition builtInTagWithoutInvokingAccessors :: "jheap \<Rightarrow> nat \<Rightarrow> string option" where
  "builtInTagWithoutInvokingAccessors h r =
     (if isView (slot (obj_at h r))
      then Some (if hasBrand h r (bracketed ''DataView'') then bracketed ''DataView'' else bracketed ''TypedArray'')
      else case findPropertyDescriptor h r toStringTag of
        Some d \<Rightarrow> if pr_accessor d then builtInTagFromBrand h r
          else let tag = objToString h r
            in if tag \<in> set BUILT_IN_TAGS \<and> hasBrand h r tag then Some tag else builtInTagFromBrand h r
      | None \<Rightarrow> let tag = objToString h r
          in if tag \<in> set BUILT_IN_TAGS \<and> hasBrand h r tag then Some tag else None)"

definition mutableBuiltInTag :: "jheap \<Rightarrow> nat \<Rightarrow> string option" where
  "mutableBuiltInTag h r = (case builtInTagWithoutInvokingAccessors h r of
     Some tag \<Rightarrow> if tag \<in> set (map bracketed [''Date'', ''Map'', ''Set'']) then Some tag else None
   | None \<Rightarrow> None)"

section \<open>Properties of the brands\<close>

lemma bracketed_eq [simp]: "bracketed s = bracketed t \<longleftrightarrow> s = t"
  by (simp add: bracketed_def)

text \<open>A verified tag other than \<open>Promise\<close> and \<open>Error\<close> is the tag of the object's own slots.\<close>

lemma hasBrand_slot:
  assumes "hasBrand h r (bracketed b)" "b \<noteq> ''Promise''" "b \<noteq> ''Error''"
  shows "slot_brand (slot (obj_at h r)) = b"
  using assms by (auto simp: hasBrand_def split: if_splits)

end
