(* ===== verification/Deep_Equal.thy ===== *)
theory Deep_Equal
  imports Js_Heap
begin

text \<open>
  \<open>deepEqual\<close> (src/utils/array/deep-equal.ts) over the object graph: the depth-first walk with
  its set of visited pairs, the coinductive meaning it decides, and the equivalence laws.
  Fuel bounds the recursion depth; the walk adds a pair per level, so the number of pairs of
  objects is enough.
\<close>

section \<open>One level\<close>

text \<open>
  What comparing two distinct objects comes to: a mismatch, a throw, or the list of the pairs
  to compare next, \<open>None\<close> where the walk stops with a mismatch when it gets there.
\<close>

datatype level = Differ | Raise js_error | Compare "(jval \<times> jval) option list"

definition agree :: "bool \<Rightarrow> level" where
  "agree b = (if b then Compare [] else Differ)"

fun byteLength :: "jslot \<Rightarrow> nat" where
  "byteLength (DataViewSlot bytes) = length bytes"
| "byteLength (TypedArraySlot n elems) = n * length elems"
| "byteLength _ = 0"

text \<open>\<open>getUint8\<close> is a method of data views only: a typed array that claims the tag throws.\<close>

definition compare_bytes :: "jslot \<Rightarrow> jslot \<Rightarrow> level" where
  "compare_bytes s t =
     (if byteLength s \<noteq> byteLength t then Differ else if byteLength s = 0 then Compare []
      else case s of
        DataViewSlot x \<Rightarrow> (case t of DataViewSlot y \<Rightarrow> agree (x = y) | _ \<Rightarrow> Raise typeError)
      | _ \<Rightarrow> Raise typeError)"

text \<open>A data view has no \<open>length\<close>: the comparison of two of them has nothing to compare.\<close>

definition compare_elements :: "jslot \<Rightarrow> jslot \<Rightarrow> level" where
  "compare_elements s t = (case s of
     TypedArraySlot _ xs \<Rightarrow> (case t of TypedArraySlot _ ys \<Rightarrow> agree (list_all2 sameValueZero xs ys) | _ \<Rightarrow> Differ)
   | _ \<Rightarrow> (case t of TypedArraySlot _ ys \<Rightarrow> Differ | _ \<Rightarrow> Compare []))"

definition ownKeys :: "jheap \<Rightarrow> nat \<Rightarrow> jkey list" where
  "ownKeys h r = map fst (props (obj_at h r))"

fun is_string_key :: "jkey \<Rightarrow> bool" where
  "is_string_key (PStr _) = True"
| "is_string_key (PSym _) = False"

definition value_pair :: "jheap \<Rightarrow> nat \<Rightarrow> nat \<Rightarrow> jkey \<Rightarrow> (jval \<times> jval) option" where
  "value_pair h a b k = (if own_prop h b k = None then None else Some (own_value h a k, own_value h b k))"

definition comparePlainObjects :: "jheap \<Rightarrow> nat \<Rightarrow> nat \<Rightarrow> level" where
  "comparePlainObjects h a b =
     (let stringKeysA = filter is_string_key (ownKeys h a); symbolKeysA = filter (Not \<circ> is_string_key) (ownKeys h a);
          stringKeysB = filter is_string_key (ownKeys h b); symbolKeysB = filter (Not \<circ> is_string_key) (ownKeys h b)
      in if length stringKeysA \<noteq> length stringKeysB then Differ
         else if length symbolKeysA \<noteq> length symbolKeysB then Differ
         else if list_ex (\<lambda>k. own_prop h b k = None) stringKeysA then Differ
         else if list_ex (\<lambda>k. k \<notin> set symbolKeysB) symbolKeysA then Differ
         else Compare (map (value_pair h a b) (stringKeysA @ symbolKeysA)))"

fun array_length :: "jslot \<Rightarrow> nat option" where
  "array_length (ArraySlot n) = Some n"
| "array_length _ = None"

definition compare_arrays :: "jheap \<Rightarrow> nat \<Rightarrow> nat \<Rightarrow> level" where
  "compare_arrays h a b =
     (if array_length (slot (obj_at h a)) \<noteq> array_length (slot (obj_at h b)) then Differ
      else if length (ownKeys h a) \<noteq> length (ownKeys h b) then Differ
      else Compare (map (value_pair h a b) (ownKeys h a)))"

text \<open>Two brand-verified built-ins of the same tag.\<close>

definition compare_built_ins :: "jslot \<Rightarrow> jslot \<Rightarrow> bool \<Rightarrow> level" where
  "compare_built_ins s t same = (case s of
     MapSlot es \<Rightarrow> (case t of
       MapSlot fs \<Rightarrow> if length es \<noteq> length fs then Differ
         else Compare (map (\<lambda>(k, v). map_option (Pair v) (map_of fs k)) es)
     | _ \<Rightarrow> agree same)
   | SetSlot xs \<Rightarrow> (case t of
       SetSlot ys \<Rightarrow> if length xs \<noteq> length ys then Differ else agree (list_all (\<lambda>x. x \<in> set ys) xs)
     | _ \<Rightarrow> agree same)
   | DateSlot d \<Rightarrow> (case t of DateSlot d' \<Rightarrow> agree (sameValueZero (JNum d) (JNum d')) | _ \<Rightarrow> agree same)
   | RegExpSlot e f _ \<Rightarrow> (case t of RegExpSlot e' f' _ \<Rightarrow> agree (e = e' \<and> f = f') | _ \<Rightarrow> agree same)
   | BoxSlot v \<Rightarrow> (case t of BoxSlot w \<Rightarrow> agree (sameValueZero v w) | _ \<Rightarrow> agree same)
   | _ \<Rightarrow> agree same)"

definition structural_tags :: "string list" where
  "structural_tags = map bracketed [''Map'', ''Set'', ''Date'', ''RegExp'', ''Boolean'', ''Number'', ''String'', ''BigInt'']"

definition compare_level :: "jheap \<Rightarrow> nat \<Rightarrow> nat \<Rightarrow> level" where
  "compare_level h a b =
     (let s = slot (obj_at h a); t = slot (obj_at h b); tagA = objToString h a; tagB = objToString h b
      in if isView s \<or> isView t then
           (if \<not> isView s \<or> \<not> isView t then Differ
            else if tagA \<noteq> tagB then Differ
            else if tagA = bracketed ''DataView'' then compare_bytes s t
            else compare_elements s t)
         else if array_length s \<noteq> None \<or> array_length t \<noteq> None then compare_arrays h a b
         else if tagA \<noteq> tagB then Differ
         else if isBuiltInObject h a tagA \<noteq> isBuiltInObject h b tagB then Differ
         else if \<not> isBuiltInObject h a tagA then
           (if isOpaqueExoticTag tagA then agree (a = b) else comparePlainObjects h a b)
         else if tagA \<in> set structural_tags then compare_built_ins s t (a = b)
         else agree (a = b))"

section \<open>The walk\<close>

type_synonym pairs = "(nat \<times> nat) list"

fun deepEqualInner :: "jheap \<Rightarrow> nat \<Rightarrow> jval \<Rightarrow> jval \<Rightarrow> pairs \<Rightarrow> ((js_error, bool) res \<times> pairs) option"
  and all_equal :: "jheap \<Rightarrow> nat \<Rightarrow> (jval \<times> jval) option list \<Rightarrow> pairs \<Rightarrow> ((js_error, bool) res \<times> pairs) option" where
  "deepEqualInner h 0 a b visited = None"
| "deepEqualInner h (Suc fuel) a b visited =
     (if strict_equal a b then Some (Inr True, visited)
      else case (a, b) of
        (JObj x, JObj y) \<Rightarrow>
          if (x, y) \<in> set visited then Some (Inr True, visited)
          else (case compare_level h x y of
              Differ \<Rightarrow> Some (Inr False, (x, y) # visited)
            | Raise e \<Rightarrow> Some (Inl e, (x, y) # visited)
            | Compare ps \<Rightarrow> all_equal h fuel ps ((x, y) # visited))
      | (JNum p, JNum q) \<Rightarrow> Some (Inr (p = NaN \<and> q = NaN), visited)
      | _ \<Rightarrow> Some (Inr False, visited))"
| "all_equal h fuel [] visited = Some (Inr True, visited)"
| "all_equal h fuel (None # ps) visited = Some (Inr False, visited)"
| "all_equal h fuel (Some (a, b) # ps) visited =
     (case deepEqualInner h fuel a b visited of
        Some (Inr True, visited') \<Rightarrow> all_equal h fuel ps visited'
      | r \<Rightarrow> r)"

text \<open>Every object that a comparison can meet.\<close>

definition val_refs :: "jval \<Rightarrow> nat list" where
  "val_refs v = (case v of JObj r \<Rightarrow> [r] | _ \<Rightarrow> [])"

fun slot_vals :: "jslot \<Rightarrow> jval list" where
  "slot_vals (MapSlot es) = map fst es @ map snd es"
| "slot_vals (SetSlot xs) = xs"
| "slot_vals _ = []"

definition obj_vals :: "jobj \<Rightarrow> jval list" where
  "obj_vals x = map (pr_value \<circ> snd) (props x) @ slot_vals (slot x)"

definition graph_refs :: "jheap \<Rightarrow> jval \<Rightarrow> jval \<Rightarrow> nat list" where
  "graph_refs h a b = remdups (val_refs a @ val_refs b @
     concat (map (\<lambda>(r, x). concat (map val_refs (obj_vals x))) (objects h)))"

definition deepEqual :: "jheap \<Rightarrow> jval \<Rightarrow> jval \<Rightarrow> (js_error, bool) res" where
  "deepEqual h a b =
     (case deepEqualInner h (length (graph_refs h a b) * length (graph_refs h a b) + 1) a b [] of
        Some (r, visited) \<Rightarrow> r | None \<Rightarrow> Inr False)"

section \<open>What it decides\<close>

text \<open>
  The meaning, coinductively: two values are deeply equal when they are the same, both
  \<open>NaN\<close>, or objects that agree at one level with deeply equal values below. Cycles need no
  case of their own.
\<close>

coinductive deeply_equal :: "jheap \<Rightarrow> jval \<Rightarrow> jval \<Rightarrow> bool" for h where
  same: "strict_equal a b \<Longrightarrow> deeply_equal h a b"
| both_nan: "deeply_equal h (JNum NaN) (JNum NaN)"
| level: "compare_level h x y = Compare ps \<Longrightarrow> (\<forall>p \<in> set ps. \<exists>a b. p = Some (a, b) \<and> deeply_equal h a b)
    \<Longrightarrow> deeply_equal h (JObj x) (JObj y)"

text \<open>The visited pairs as a bisimulation: a value pair is covered by them.\<close>

definition covered :: "pairs \<Rightarrow> jval \<Rightarrow> jval \<Rightarrow> bool" where
  "covered vs a b \<longleftrightarrow> a = b \<or> (\<exists>x y. a = JObj x \<and> b = JObj y \<and> (x, y) \<in> set vs)"

definition explored :: "jheap \<Rightarrow> pairs \<Rightarrow> nat \<times> nat \<Rightarrow> bool" where
  "explored h vs xy \<longleftrightarrow> (\<exists>ps. compare_level h (fst xy) (snd xy) = Compare ps
     \<and> (\<forall>p \<in> set ps. \<exists>a b. p = Some (a, b) \<and> covered vs a b))"

lemma covered_mono: "covered vs a b \<Longrightarrow> set vs \<subseteq> set vs' \<Longrightarrow> covered vs' a b"
  by (auto simp: covered_def)

lemma explored_mono:
  assumes "explored h vs xy" "set vs \<subseteq> set vs'"
  shows "explored h vs' xy"
proof -
  from assms(1) obtain ps where ps: "compare_level h (fst xy) (snd xy) = Compare ps"
    "\<forall>p \<in> set ps. \<exists>a b. p = Some (a, b) \<and> covered vs a b" by (auto simp: explored_def)
  have "\<forall>p \<in> set ps. \<exists>a b. p = Some (a, b) \<and> covered vs' a b"
  proof
    fix p assume "p \<in> set ps"
    with ps(2) obtain a b where "p = Some (a, b)" "covered vs a b" by blast
    with covered_mono[OF _ assms(2)] show "\<exists>a b. p = Some (a, b) \<and> covered vs' a b" by blast
  qed
  with ps(1) show ?thesis by (auto simp: explored_def)
qed

definition sound_step :: "jheap \<Rightarrow> pairs \<Rightarrow> pairs \<Rightarrow> bool" where
  "sound_step h vs vs' \<longleftrightarrow> set vs \<subseteq> set vs' \<and> (\<forall>xy \<in> set vs' - set vs. explored h vs' xy)"

lemma sound_refl: "sound_step h vs vs"
  by (simp add: sound_step_def)

lemma sound_trans:
  assumes "sound_step h vs v1" "sound_step h v1 vs'"
  shows "sound_step h vs vs'"
proof -
  have "explored h vs' xy" if "xy \<in> set vs' - set vs" for xy
  proof (cases "xy \<in> set v1")
    case True
    with that assms(1) have "explored h v1 xy" by (simp add: sound_step_def)
    moreover have "set v1 \<subseteq> set vs'" using assms(2) by (simp add: sound_step_def)
    ultimately show ?thesis by (rule explored_mono)
  next
    case False
    with that assms(2) show ?thesis by (simp add: sound_step_def)
  qed
  moreover have "set vs \<subseteq> set vs'" using assms unfolding sound_step_def by blast
  ultimately show ?thesis unfolding sound_step_def by blast
qed

lemma all_equal_step:
  assumes "all_equal h fuel (p # ps) vs = Some (Inr True, vs')"
  obtains a b v1 where "p = Some (a, b)" "deepEqualInner h fuel a b vs = Some (Inr True, v1)"
    "all_equal h fuel ps v1 = Some (Inr True, vs')"
proof (cases p)
  case (Some ab)
  obtain a b where ab: "ab = (a, b)" by force
  with assms Some obtain v1 where "deepEqualInner h fuel a b vs = Some (Inr True, v1)"
      "all_equal h fuel ps v1 = Some (Inr True, vs')"
    by (auto split: option.splits sum.splits bool.splits prod.splits)
  with that Some ab show thesis by blast
qed (use assms in simp)

lemma all_sound:
  assumes "\<And>a b vs vs'. deepEqualInner h fuel a b vs = Some (Inr True, vs') \<Longrightarrow> sound_step h vs vs' \<and> covered vs' a b"
  shows "all_equal h fuel ps vs = Some (Inr True, vs') \<Longrightarrow>
    sound_step h vs vs' \<and> (\<forall>p \<in> set ps. \<exists>a b. p = Some (a, b) \<and> covered vs' a b)"
proof (induction ps arbitrary: vs)
  case (Cons p ps)
  from Cons.prems obtain a b v1 where st: "p = Some (a, b)" "deepEqualInner h fuel a b vs = Some (Inr True, v1)"
    "all_equal h fuel ps v1 = Some (Inr True, vs')" by (rule all_equal_step)
  from assms[OF st(2)] have 1: "sound_step h vs v1" "covered v1 a b" by auto
  from Cons.IH[OF st(3)] have 2: "sound_step h v1 vs'" "\<forall>p \<in> set ps. \<exists>a b. p = Some (a, b) \<and> covered vs' a b" by auto
  have "covered vs' a b" using covered_mono[OF 1(2)] 2(1) by (simp add: sound_step_def)
  with sound_trans[OF 1(1) 2(1)] 2(2) st(1) show ?case by simp
qed (simp add: sound_refl)

lemma deep_equal_objects:
  assumes "deepEqualInner h (Suc fuel) (JObj x) (JObj y) vs = Some (Inr True, vs')" "x \<noteq> y" "(x, y) \<notin> set vs"
  obtains ps where "compare_level h x y = Compare ps" "all_equal h fuel ps ((x, y) # vs) = Some (Inr True, vs')"
  using assms that by (auto simp: strict_equal_def split: level.splits)

lemma walk_sound: "deepEqualInner h fuel a b vs = Some (Inr True, vs') \<Longrightarrow> sound_step h vs vs' \<and> covered vs' a b"
proof (induction fuel arbitrary: a b vs vs')
  case (Suc fuel)
  show ?case
  proof (cases "\<exists>x y. a = JObj x \<and> b = JObj y \<and> x \<noteq> y \<and> (x, y) \<notin> set vs")
    case True
    then obtain x y where xy: "a = JObj x" "b = JObj y" "x \<noteq> y" "(x, y) \<notin> set vs" by blast
    from Suc.prems[unfolded xy(1,2)] xy(3,4) obtain ps where
      l: "compare_level h x y = Compare ps" "all_equal h fuel ps ((x, y) # vs) = Some (Inr True, vs')"
      by (rule deep_equal_objects)
    from all_sound[OF Suc.IH l(2)] have ih: "sound_step h ((x, y) # vs) vs'"
      "\<forall>p \<in> set ps. \<exists>a b. p = Some (a, b) \<and> covered vs' a b" by blast+
    then have "explored h vs' (x, y)" using l(1) by (simp add: explored_def)
    with ih(1) xy show ?thesis by (auto simp: sound_step_def covered_def)
  next
    case False
    with Suc.prems have "vs' = vs" "covered vs a b"
      by (auto simp: covered_def strict_equal_def split: jval.splits if_splits)
    then show ?thesis by (simp add: sound_refl)
  qed
qed simp

lemma explored_deeply_equal:
  assumes "\<forall>xy \<in> set vs. explored h vs xy" "covered vs a b"
  shows "deeply_equal h a b"
proof (rule deeply_equal.coinduct[of "covered vs", OF assms(2)])
  fix a b assume c: "covered vs a b"
  show "(\<exists>a' b'. a = a' \<and> b = b' \<and> strict_equal a' b') \<or> a = JNum NaN \<and> b = JNum NaN
    \<or> (\<exists>x y ps. a = JObj x \<and> b = JObj y \<and> compare_level h x y = Compare ps
        \<and> (\<forall>p \<in> set ps. \<exists>a b. p = Some (a, b) \<and> (covered vs a b \<or> deeply_equal h a b)))"
  proof (cases "a = b")
    case True
    then show ?thesis by (cases "a = JNum NaN") (auto simp: strict_equal_def)
  next
    case False
    with c obtain x y where xy: "a = JObj x" "b = JObj y" "(x, y) \<in> set vs" by (auto simp: covered_def)
    with assms(1) have "explored h vs (x, y)" by blast
    then obtain ps where ps: "compare_level h x y = Compare ps"
      "\<forall>p \<in> set ps. \<exists>a b. p = Some (a, b) \<and> covered vs a b" by (auto simp: explored_def)
    from ps(2) have "\<forall>p \<in> set ps. \<exists>a b. p = Some (a, b) \<and> (covered vs a b \<or> deeply_equal h a b)" by meson
    with xy ps(1) show ?thesis by blast
  qed
qed

text \<open>Conversely the walk never answers anything else on deeply equal values.\<close>

lemma deeply_equal_objects:
  assumes "deeply_equal h (JObj x) (JObj y)" "x \<noteq> y"
  obtains ps where "compare_level h x y = Compare ps" "\<forall>p \<in> set ps. \<exists>a b. p = Some (a, b) \<and> deeply_equal h a b"
  using assms by (cases rule: deeply_equal.cases) (auto simp: strict_equal_def)

lemma deeply_equal_atoms:
  assumes "deeply_equal h a b"
  shows "a = b \<or> (\<exists>x y. a = JObj x \<and> b = JObj y)"
  using assms by (cases rule: deeply_equal.cases) (auto simp: strict_equal_def)

lemma all_complete:
  assumes "\<And>a b vs r vs'. deeply_equal h a b \<Longrightarrow> deepEqualInner h fuel a b vs = Some (r, vs') \<Longrightarrow> r = Inr True"
  shows "\<forall>p \<in> set ps. \<exists>a b. p = Some (a, b) \<and> deeply_equal h a b \<Longrightarrow> all_equal h fuel ps vs = Some (r, vs') \<Longrightarrow> r = Inr True"
proof (induction ps arbitrary: vs)
  case (Cons p ps)
  then obtain a b where p: "p = Some (a, b)" "deeply_equal h a b" by auto
  show ?case
  proof (cases "deepEqualInner h fuel a b vs")
    case None
    with Cons.prems(2) p show ?thesis by simp
  next
    case (Some rv)
    obtain r1 v1 where rv: "rv = (r1, v1)" by force
    from assms[OF p(2), of vs r1 v1] Some rv have "r1 = Inr True" by simp
    with Some rv Cons.prems(2) p have "all_equal h fuel ps v1 = Some (r, vs')" by simp
    with Cons.IH Cons.prems(1) show ?thesis by simp
  qed
qed simp

lemma walk_complete: "deeply_equal h a b \<Longrightarrow> deepEqualInner h fuel a b vs = Some (r, vs') \<Longrightarrow> r = Inr True"
proof (induction fuel arbitrary: a b vs r vs')
  case (Suc fuel)
  show ?case
  proof (cases "\<exists>x y. a = JObj x \<and> b = JObj y \<and> x \<noteq> y \<and> (x, y) \<notin> set vs")
    case True
    then obtain x y where xy: "a = JObj x" "b = JObj y" "x \<noteq> y" "(x, y) \<notin> set vs" by blast
    from Suc.prems(1)[unfolded xy(1,2)] xy(3) obtain ps where
      ps: "compare_level h x y = Compare ps" "\<forall>p \<in> set ps. \<exists>a b. p = Some (a, b) \<and> deeply_equal h a b"
      by (rule deeply_equal_objects)
    with Suc.prems(2) xy have "all_equal h fuel ps ((x, y) # vs) = Some (r, vs')"
      by (simp add: strict_equal_def)
    then show ?thesis by (rule all_complete[OF _ ps(2), rotated]) (rule Suc.IH)
  next
    case False
    with Suc.prems deeply_equal_atoms[OF Suc.prems(1)] show ?thesis
      by (auto simp: strict_equal_def split: jval.splits if_splits)
  qed
qed simp

subsection \<open>Enough fuel\<close>

text \<open>The objects a comparison meets are among the references of the graph.\<close>

definition pair_space :: "nat list \<Rightarrow> (nat \<times> nat) set" where
  "pair_space rs = set rs \<times> set rs"

definition inside :: "nat list \<Rightarrow> jval \<Rightarrow> bool" where
  "inside rs v \<longleftrightarrow> set (val_refs v) \<subseteq> set rs"

definition heap_inside :: "jheap \<Rightarrow> nat list \<Rightarrow> bool" where
  "heap_inside h rs \<longleftrightarrow> (\<forall>r x. (r, x) \<in> set (objects h) \<longrightarrow> (\<forall>v \<in> set (obj_vals x). inside rs v))"

lemma obj_at_inside:
  assumes "heap_inside h rs" "v \<in> set (obj_vals (obj_at h r))"
  shows "inside rs v"
proof (cases "jget (objects h) r")
  case None
  with assms(2) show ?thesis by (simp add: obj_at_def obj_vals_def)
next
  case (Some x)
  then have "(r, x) \<in> set (objects h)" by (rule map_of_SomeD)
  with assms Some show ?thesis by (auto simp: heap_inside_def obj_at_def)
qed

lemma own_value_inside:
  assumes "heap_inside h rs"
  shows "inside rs (own_value h r k)"
proof (cases "own_prop h r k")
  case None
  then show ?thesis by (simp add: own_value_def inside_def val_refs_def)
next
  case (Some p)
  then have "(k, p) \<in> set (props (obj_at h r))" by (simp add: own_prop_def map_of_SomeD)
  then have "pr_value p \<in> set (obj_vals (obj_at h r))" by (force simp: obj_vals_def)
  with assms Some show ?thesis by (simp add: own_value_def obj_at_inside)
qed

lemma agree_Compare [simp]: "agree b = Compare ps \<longleftrightarrow> b \<and> ps = []"
  by (auto simp: agree_def)

lemma compare_built_ins_Compare:
  assumes "compare_built_ins s t same = Compare ps" "Some (u, v) \<in> set ps"
  shows "\<exists>es fs k. s = MapSlot es \<and> t = MapSlot fs \<and> (k, u) \<in> set es \<and> map_of fs k = Some v"
proof -
  from assms obtain es fs where m: "s = MapSlot es" "t = MapSlot fs"
      "Some (u, v) \<in> set (map (\<lambda>(k, v). map_option (Pair v) (map_of fs k)) es)"
    by (auto simp: compare_built_ins_def split: jslot.splits if_splits)
  then obtain k w where k: "(k, w) \<in> set es" "Some (u, v) = map_option (Pair w) (map_of fs k)" by auto
  with m(1,2) show ?thesis by (cases "map_of fs k") auto
qed

lemma value_pair_inside: "heap_inside h rs \<Longrightarrow> value_pair h a b k = Some (u, v) \<Longrightarrow> inside rs u \<and> inside rs v"
  by (auto simp: value_pair_def own_value_inside split: if_splits)

lemma compare_level_inside:
  assumes h: "heap_inside h rs" and c: "compare_level h a b = Compare ps" "Some (u, v) \<in> set ps"
  shows "inside rs u \<and> inside rs v"
proof -
  from c consider
      (own_values) k where "value_pair h a b k = Some (u, v)"
    | (built_in) "compare_built_ins (slot (obj_at h a)) (slot (obj_at h b)) (a = b) = Compare ps"
    by (auto simp: compare_level_def Let_def compare_bytes_def compare_elements_def compare_arrays_def
        comparePlainObjects_def split: if_splits jslot.splits)
  then show ?thesis
  proof cases
    case own_values
    with h show ?thesis by (rule value_pair_inside)
  next
    case built_in
    from compare_built_ins_Compare[OF built_in c(2)] obtain es fs k where
      m: "slot (obj_at h a) = MapSlot es" "slot (obj_at h b) = MapSlot fs" "(k, u) \<in> set es" "map_of fs k = Some v" by blast
    then have "u \<in> set (obj_vals (obj_at h a))" "v \<in> set (obj_vals (obj_at h b))"
      by (force simp: obj_vals_def, force simp: obj_vals_def dest: map_of_SomeD)
    with h show ?thesis by (blast intro: obj_at_inside)
  qed
qed

lemma all_grows:
  assumes "\<And>a b vs r vs'. deepEqualInner h fuel a b vs = Some (r, vs') \<Longrightarrow> set vs \<subseteq> set vs'"
  shows "all_equal h fuel ps vs = Some (r, vs') \<Longrightarrow> set vs \<subseteq> set vs'"
proof (induction ps arbitrary: vs)
  case (Cons p ps)
  show ?case
  proof (cases "\<exists>a b r1 v1. p = Some (a, b) \<and> deepEqualInner h fuel a b vs = Some (r1, v1)")
    case True
    then obtain a b r1 v1 where p: "p = Some (a, b)" "deepEqualInner h fuel a b vs = Some (r1, v1)" by blast
    with Cons.prems have "v1 = vs' \<or> all_equal h fuel ps v1 = Some (r, vs')"
      by (auto split: sum.splits bool.splits)
    with Cons.IH[of v1] assms[OF p(2)] show ?thesis by auto
  next
    case False
    with Cons.prems show ?thesis by (cases p) (auto split: option.splits)
  qed
qed simp

lemma walk_grows: "deepEqualInner h fuel a b vs = Some (r, vs') \<Longrightarrow> set vs \<subseteq> set vs'"
proof (induction fuel arbitrary: a b vs r vs')
  case (Suc fuel)
  have "vs' = vs \<or> (\<exists>p. vs' = p # vs) \<or> (\<exists>p ps. all_equal h fuel ps (p # vs) = Some (r, vs'))"
    using Suc.prems by (auto split: jval.splits if_splits level.splits)
  then show ?case
  proof (elim disjE exE)
    fix p ps assume "all_equal h fuel ps (p # vs) = Some (r, vs')"
    then have "set (p # vs) \<subseteq> set vs'" by (rule all_grows[rotated]) (rule Suc.IH)
    then show ?thesis by auto
  qed auto
qed simp

definition unvisited :: "nat list \<Rightarrow> pairs \<Rightarrow> nat" where
  "unvisited rs vs = card (pair_space rs - set vs)"

lemma unvisited_mono: "set vs \<subseteq> set vs' \<Longrightarrow> unvisited rs vs' \<le> unvisited rs vs"
  unfolding unvisited_def pair_space_def by (rule card_mono) auto

lemma unvisited_Cons:
  assumes "(x, y) \<in> pair_space rs" "(x, y) \<notin> set vs"
  shows "unvisited rs ((x, y) # vs) < unvisited rs vs"
  unfolding unvisited_def by (rule psubset_card_mono) (use assms in \<open>auto simp: pair_space_def\<close>)

lemma all_returns:
  assumes "\<And>a b vs. unvisited rs vs < fuel \<Longrightarrow> inside rs a \<Longrightarrow> inside rs b \<Longrightarrow> \<exists>r vs'. deepEqualInner h fuel a b vs = Some (r, vs')"
  shows "unvisited rs vs < fuel \<Longrightarrow> \<forall>u v. Some (u, v) \<in> set ps \<longrightarrow> inside rs u \<and> inside rs v
    \<Longrightarrow> \<exists>r vs'. all_equal h fuel ps vs = Some (r, vs')"
proof (induction ps arbitrary: vs)
  case (Cons p ps)
  show ?case
  proof (cases p)
    case (Some ab)
    obtain a b where ab: "ab = (a, b)" by force
    with Cons.prems(2) Some have "inside rs a" "inside rs b" by auto
    with assms[OF Cons.prems(1)] obtain r1 v1 where d: "deepEqualInner h fuel a b vs = Some (r1, v1)" by blast
    have "unvisited rs v1 < fuel" using unvisited_mono[OF walk_grows[OF d], of rs] Cons.prems(1) by simp
    with Cons.IH Cons.prems(2) have "\<exists>r vs'. all_equal h fuel ps v1 = Some (r, vs')" by simp
    with d Some ab show ?thesis by (simp split: sum.split bool.split)
  qed simp
qed simp

lemma walk_returns:
  assumes h: "heap_inside h rs"
  shows "unvisited rs vs < fuel \<Longrightarrow> inside rs a \<Longrightarrow> inside rs b \<Longrightarrow> \<exists>r vs'. deepEqualInner h fuel a b vs = Some (r, vs')"
proof (induction fuel arbitrary: a b vs)
  case (Suc fuel)
  show ?case
  proof (cases "\<exists>x y. a = JObj x \<and> b = JObj y \<and> x \<noteq> y \<and> (x, y) \<notin> set vs")
    case True
    then obtain x y where xy: "a = JObj x" "b = JObj y" "x \<noteq> y" "(x, y) \<notin> set vs" by blast
    with Suc.prems(2,3) have "(x, y) \<in> pair_space rs" by (simp add: pair_space_def inside_def val_refs_def)
    from unvisited_Cons[OF this xy(4)] Suc.prems(1) have less: "unvisited rs ((x, y) # vs) < fuel" by simp
    have "\<exists>r vs'. all_equal h fuel ps ((x, y) # vs) = Some (r, vs')" if l: "compare_level h x y = Compare ps" for ps
    proof (rule all_returns[OF _ less])
      show "\<forall>u v. Some (u, v) \<in> set ps \<longrightarrow> inside rs u \<and> inside rs v" using compare_level_inside[OF h l] by blast
    qed (rule Suc.IH)
    with xy show ?thesis by (cases "compare_level h x y") (auto simp: strict_equal_def)
  next
    case False
    then show ?thesis by (auto simp: strict_equal_def split: jval.split)
  qed
qed simp

lemma deepEqual_returns:
  "\<exists>r visited. deepEqualInner h (length (graph_refs h a b) * length (graph_refs h a b) + 1) a b [] = Some (r, visited)"
proof -
  let ?rs = "graph_refs h a b"
  have h: "heap_inside h ?rs"
    by (force simp: heap_inside_def inside_def graph_refs_def)
  have "distinct ?rs" by (simp add: graph_refs_def)
  then have "card (pair_space ?rs) = length ?rs * length ?rs"
    by (simp add: pair_space_def card_cartesian_product distinct_card)
  then have "unvisited ?rs [] < length ?rs * length ?rs + 1" by (simp add: unvisited_def)
  moreover have "inside ?rs a" "inside ?rs b" by (auto simp: inside_def graph_refs_def)
  ultimately show ?thesis by (rule walk_returns[OF h])
qed

lemma deepEqual_result:
  obtains visited where "deepEqualInner h (length (graph_refs h a b) * length (graph_refs h a b) + 1) a b [] = Some (deepEqual h a b, visited)"
proof -
  from deepEqual_returns obtain r visited where
    "deepEqualInner h (length (graph_refs h a b) * length (graph_refs h a b) + 1) a b [] = Some (r, visited)" by blast
  with that show thesis by (simp add: deepEqual_def)
qed

section \<open>An equivalence\<close>

text \<open>
  What one level looks at, per object: its \<open>shape\<close> (\<open>None\<close> when the comparison throws) and the
  values below by key. Two objects agree at one level exactly when the shapes are the same
  and the values are related key by key, which is symmetric and transitive.
\<close>

datatype shape =
    BytesShape "nat list" | ElementsShape "jval list" | ViewShape
  | ArrayShape nat "jkey set" | PlainShape "jkey set" | SelfShape nat
  | MapShape "jval set" | SetShape "jval set" | DateShape js_num | RegExpShape string string | BoxShape jval

definition view_shape :: "string \<Rightarrow> jslot \<Rightarrow> shape option" where
  "view_shape tag s = (if tag = bracketed ''DataView''
     then (case s of DataViewSlot bytes \<Rightarrow> Some (BytesShape bytes) | _ \<Rightarrow> if byteLength s = 0 then Some (BytesShape []) else None)
     else (case s of TypedArraySlot _ xs \<Rightarrow> Some (ElementsShape xs) | _ \<Rightarrow> Some ViewShape))"

definition built_in_shape :: "jslot \<Rightarrow> nat \<Rightarrow> shape" where
  "built_in_shape s x = (case s of
     MapSlot es \<Rightarrow> MapShape (fst ` set es) | SetSlot xs \<Rightarrow> SetShape (set xs) | DateSlot d \<Rightarrow> DateShape d
   | RegExpSlot e f _ \<Rightarrow> RegExpShape e f | BoxSlot v \<Rightarrow> BoxShape v | _ \<Rightarrow> SelfShape x)"

definition shape :: "jheap \<Rightarrow> nat \<Rightarrow> (string \<times> shape) option" where
  "shape h x =
     (let s = slot (obj_at h x); tag = objToString h x
      in if isView s then map_option (Pair tag) (view_shape tag s)
         else case array_length s of Some n \<Rightarrow> Some ([], ArrayShape n (set (ownKeys h x)))
         | None \<Rightarrow>
             Some (tag,
               if \<not> isBuiltInObject h x tag
               then if isOpaqueExoticTag tag then SelfShape x else PlainShape (set (ownKeys h x))
               else if tag \<in> set structural_tags then built_in_shape s x else SelfShape x))"

definition fields :: "jheap \<Rightarrow> nat \<Rightarrow> jkey + jval \<Rightarrow> jval option" where
  "fields h x f =
     (case shape h x of
        Some (_, ArrayShape _ _) \<Rightarrow> (case f of Inl k \<Rightarrow> map_option pr_value (own_prop h x k) | Inr _ \<Rightarrow> None)
      | Some (_, PlainShape _) \<Rightarrow> (case f of Inl k \<Rightarrow> map_option pr_value (own_prop h x k) | Inr _ \<Rightarrow> None)
      | Some (_, MapShape _) \<Rightarrow> (case (f, slot (obj_at h x)) of (Inr k, MapSlot es) \<Rightarrow> map_of es k | _ \<Rightarrow> None)
      | _ \<Rightarrow> None)"

definition level_holds :: "jheap \<Rightarrow> (jval \<Rightarrow> jval \<Rightarrow> bool) \<Rightarrow> nat \<Rightarrow> nat \<Rightarrow> bool" where
  "level_holds h R x y \<longleftrightarrow> (\<exists>ps. compare_level h x y = Compare ps \<and> (\<forall>p \<in> set ps. \<exists>a b. p = Some (a, b) \<and> R a b))"

definition agree_below :: "jheap \<Rightarrow> (jval \<Rightarrow> jval \<Rightarrow> bool) \<Rightarrow> nat \<Rightarrow> nat \<Rightarrow> bool" where
  "agree_below h R x y \<longleftrightarrow> shape h x \<noteq> None \<and> shape h x = shape h y
     \<and> (\<forall>f u v. fields h x f = Some u \<and> fields h y f = Some v \<longrightarrow> R u v)"

definition obj_ok :: "jobj \<Rightarrow> bool" where
  "obj_ok x \<longleftrightarrow> distinct (map fst (props x)) \<and> (case slot x of
     MapSlot es \<Rightarrow> distinct (map fst es) | SetSlot xs \<Rightarrow> distinct xs | _ \<Rightarrow> True)"

definition heap_ok :: "jheap \<Rightarrow> bool" where
  "heap_ok h \<longleftrightarrow> (\<forall>(r, x) \<in> set (objects h). obj_ok x)"

lemma heap_ok_at: "heap_ok h \<Longrightarrow> obj_ok (obj_at h r)"
  by (auto simp: heap_ok_def obj_at_def obj_ok_def split: option.split dest: map_of_SomeD)

lemma own_prop_None: "own_prop h r k = None \<longleftrightarrow> k \<notin> set (ownKeys h r)"
  by (simp add: own_prop_def ownKeys_def map_of_eq_None_iff)

lemma ownKeys_distinct: "heap_ok h \<Longrightarrow> distinct (ownKeys h r)"
  using heap_ok_at[of h r] by (simp add: obj_ok_def ownKeys_def)

lemma same_count_set:
  assumes "distinct xs" "distinct ys" "length xs = length ys" "set xs \<subseteq> set ys"
  shows "set xs = set ys"
  using assms by (intro card_subset_eq) (simp_all add: distinct_card)

lemma value_pair_holds:
  "(\<forall>p \<in> set (map (value_pair h x y) ks). \<exists>a b. p = Some (a, b) \<and> R a b) \<longleftrightarrow>
     (\<forall>k \<in> set ks. k \<in> set (ownKeys h y) \<and> R (own_value h x k) (own_value h y k))"
proof -
  have "(\<exists>a b. value_pair h x y k = Some (a, b) \<and> R a b) \<longleftrightarrow>
      k \<in> set (ownKeys h y) \<and> R (own_value h x k) (own_value h y k)" for k
    by (simp add: value_pair_def own_prop_None)
  then show ?thesis by (simp only: set_map ball_simps)
qed

lemma own_values:
  assumes "set (ownKeys h x) = set (ownKeys h y)"
  shows "(\<forall>k \<in> set (ownKeys h x). R (own_value h x k) (own_value h y k)) \<longleftrightarrow>
     (\<forall>k u v. map_option pr_value (own_prop h x k) = Some u \<and> map_option pr_value (own_prop h y k) = Some v \<longrightarrow> R u v)"
proof -
  have "(k \<in> set (ownKeys h x) \<longrightarrow> R (own_value h x k) (own_value h y k)) \<longleftrightarrow>
     (\<forall>u v. map_option pr_value (own_prop h x k) = Some u \<and> map_option pr_value (own_prop h y k) = Some v \<longrightarrow> R u v)" for k
    using own_prop_None[of h x k] own_prop_None[of h y k] assms
    by (cases "own_prop h x k"; cases "own_prop h y k") (auto simp: own_value_def)
  then show ?thesis by (simp only: Ball_def)
qed

lemma same_keys_iff:
  assumes "distinct xs" "distinct ys"
  shows "length xs = length ys \<and> set xs \<subseteq> set ys \<longleftrightarrow> set xs = set ys"
proof
  assume "length xs = length ys \<and> set xs \<subseteq> set ys"
  with assms same_count_set show "set xs = set ys" by blast
next
  assume "set xs = set ys"
  with assms show "length xs = length ys \<and> set xs \<subseteq> set ys" by (metis distinct_card order_refl)
qed

lemma property_fields:
  assumes "shape h x = Some (t, ArrayShape n ks) \<or> shape h x = Some (t, PlainShape ks)"
  shows "fields h x (Inl k) = map_option pr_value (own_prop h x k)" "fields h x (Inr v) = None"
  using assms by (auto simp: fields_def)

lemma agree_properties:
  assumes "\<And>k. fields h x (Inl k) = map_option pr_value (own_prop h x k)" "\<And>v. fields h x (Inr v) = None"
    and "\<And>k. fields h y (Inl k) = map_option pr_value (own_prop h y k)" "\<And>v. fields h y (Inr v) = None"
    and "shape h x \<noteq> None" "shape h x = shape h y \<longleftrightarrow> set (ownKeys h x) = set (ownKeys h y)"
  shows "agree_below h R x y \<longleftrightarrow>
    set (ownKeys h x) = set (ownKeys h y) \<and> (\<forall>k \<in> set (ownKeys h x). R (own_value h x k) (own_value h y k))"
proof (cases "set (ownKeys h x) = set (ownKeys h y)")
  case True
  have "agree_below h R x y \<longleftrightarrow> (\<forall>f u v. fields h x f = Some u \<and> fields h y f = Some v \<longrightarrow> R u v)"
    using assms(5,6) True by (simp add: agree_below_def)
  also have "\<dots> \<longleftrightarrow> (\<forall>k u v. map_option pr_value (own_prop h x k) = Some u \<and> map_option pr_value (own_prop h y k) = Some v \<longrightarrow> R u v)"
    by (simp only: split_sum_all assms(1-4)) simp
  finally show ?thesis using own_values[OF True, of R] True by simp
qed (use assms(6) in \<open>simp add: agree_below_def\<close>)

lemma level_arrays:
  assumes h: "heap_ok h" and "array_length (slot (obj_at h x)) \<noteq> None \<or> array_length (slot (obj_at h y)) \<noteq> None"
    and "\<not> isView (slot (obj_at h x))" "\<not> isView (slot (obj_at h y))"
  shows "level_holds h R x y \<longleftrightarrow> agree_below h R x y"
proof -
  have c: "compare_level h x y = compare_arrays h x y" using assms by (simp add: compare_level_def)
  note same = same_keys_iff[OF ownKeys_distinct[OF h, of x] ownKeys_distinct[OF h, of y]]
  show ?thesis
  proof (cases "array_length (slot (obj_at h x)) = array_length (slot (obj_at h y))")
    case True
    with assms(2) obtain n where n: "array_length (slot (obj_at h x)) = Some n" "array_length (slot (obj_at h y)) = Some n" by auto
    have sh: "shape h x = Some ([], ArrayShape n (set (ownKeys h x)))" "shape h y = Some ([], ArrayShape n (set (ownKeys h y)))"
      using n assms(3,4) by (simp_all add: shape_def Let_def)
    have "level_holds h R x y \<longleftrightarrow> length (ownKeys h x) = length (ownKeys h y)
        \<and> (\<forall>k \<in> set (ownKeys h x). k \<in> set (ownKeys h y) \<and> R (own_value h x k) (own_value h y k))"
      using value_pair_holds[of h x y "ownKeys h x" R] n by (auto simp: level_holds_def c compare_arrays_def)
    also have "\<dots> \<longleftrightarrow> set (ownKeys h x) = set (ownKeys h y) \<and> (\<forall>k \<in> set (ownKeys h x). R (own_value h x k) (own_value h y k))"
      using same by blast
    also have "\<dots> \<longleftrightarrow> agree_below h R x y"
      using agree_properties[of h x y R] sh by (simp add: property_fields[where n = n and t = "[]"])
    finally show ?thesis .
  next
    case False
    then have "shape h x \<noteq> shape h y"
      using assms(3,4) by (auto simp: shape_def Let_def built_in_shape_def split: option.split jslot.split)
    with False show ?thesis by (simp add: level_holds_def c compare_arrays_def agree_below_def)
  qed
qed



lemma no_fields:
  assumes "shape h x = Some (t, sh)" "case sh of ArrayShape _ _ \<Rightarrow> False | PlainShape _ \<Rightarrow> False | MapShape _ \<Rightarrow> False | _ \<Rightarrow> True"
  shows "fields h x f = None"
  using assms by (auto simp: fields_def split: shape.splits)

lemma same_elements: "list_all2 sameValueZero xs ys \<longleftrightarrow> xs = ys"
proof -
  have "sameValueZero = (=)" by (intro ext) simp
  then show ?thesis by (simp add: list.rel_eq)
qed

definition compare_views :: "string \<Rightarrow> jslot \<Rightarrow> jslot \<Rightarrow> level" where
  "compare_views tag s t = (if tag = bracketed ''DataView'' then compare_bytes s t else compare_elements s t)"

lemma isView_cases:
  assumes "isView s"
  obtains (bytes) bs where "s = DataViewSlot bs" | (elements) n xs where "s = TypedArraySlot n xs"
  using assms by (cases s) auto

lemma view_level:
  assumes "isView s" "isView t"
  shows "compare_views tag s t = Compare ps \<longleftrightarrow> ps = [] \<and> view_shape tag s \<noteq> None \<and> view_shape tag s = view_shape tag t"
  using assms(1)
proof (cases rule: isView_cases)
  case bytes
  from assms(2) show ?thesis
    by (cases rule: isView_cases) (auto simp: bytes compare_views_def compare_bytes_def compare_elements_def view_shape_def)
next
  case elements
  from assms(2) show ?thesis
    by (cases rule: isView_cases)
      (auto simp: elements compare_views_def compare_bytes_def compare_elements_def view_shape_def same_elements)
qed

definition view_shaped :: "shape \<Rightarrow> bool" where
  "view_shaped sh \<longleftrightarrow> (case sh of BytesShape _ \<Rightarrow> True | ElementsShape _ \<Rightarrow> True | ViewShape \<Rightarrow> True | _ \<Rightarrow> False)"

lemma view_shape_shaped: "view_shape tag s = Some sh \<Longrightarrow> view_shaped sh"
  by (auto simp: view_shape_def view_shaped_def split: jslot.splits if_splits)

lemma view_shaped_iff:
  assumes "shape h x = Some (t, sh)"
  shows "view_shaped sh \<longleftrightarrow> isView (slot (obj_at h x))"
proof (cases "isView (slot (obj_at h x))")
  case True
  with assms view_shape_shaped show ?thesis by (auto simp: shape_def Let_def)
next
  case False
  have "\<not> view_shaped (built_in_shape s x)" for s
    by (cases s) (simp_all add: built_in_shape_def view_shaped_def)
  with False assms show ?thesis
    by (auto simp: shape_def Let_def view_shaped_def split: option.splits if_splits)
qed

lemma level_views:
  assumes "isView (slot (obj_at h x)) \<or> isView (slot (obj_at h y))"
  shows "level_holds h R x y \<longleftrightarrow> agree_below h R x y"
proof (cases "isView (slot (obj_at h x)) \<and> isView (slot (obj_at h y))")
  case True
  then have v: "isView (slot (obj_at h x))" "isView (slot (obj_at h y))" by simp_all
  let ?t = "objToString h x" and ?u = "objToString h y"
  have sh: "shape h x = map_option (Pair ?t) (view_shape ?t (slot (obj_at h x)))"
    "shape h y = map_option (Pair ?u) (view_shape ?u (slot (obj_at h y)))"
    using v by (simp_all add: shape_def Let_def)
  have f: "fields h x f = None" for f
    by (auto simp: fields_def sh view_shape_def split: jslot.split)
  have "level_holds h R x y \<longleftrightarrow> ?t = ?u \<and> view_shape ?t (slot (obj_at h x)) \<noteq> None
      \<and> view_shape ?t (slot (obj_at h x)) = view_shape ?u (slot (obj_at h y))"
  proof (cases "?t = ?u")
    case True
    with v have "compare_level h x y = compare_views ?t (slot (obj_at h x)) (slot (obj_at h y))"
      by (simp add: compare_level_def Let_def compare_views_def)
    with view_level[OF v, of ?t] True show ?thesis by (auto simp: level_holds_def)
  qed (use v in \<open>simp add: level_holds_def compare_level_def Let_def\<close>)
  with f sh show ?thesis
    by (cases "view_shape ?t (slot (obj_at h x))"; cases "view_shape ?u (slot (obj_at h y))") (auto simp: agree_below_def)
next
  case False
  then have "compare_level h x y = Differ" using assms by (auto simp: compare_level_def Let_def)
  moreover have "\<not> agree_below h R x y"
  proof
    assume "agree_below h R x y"
    then obtain t sh where "shape h x = Some (t, sh)" "shape h y = Some (t, sh)" by (auto simp: agree_below_def)
    with False assms view_shaped_iff[of h x t sh] view_shaped_iff[of h y t sh] show False by blast
  qed
  ultimately show ?thesis by (simp add: level_holds_def)
qed

lemma plain_level:
  assumes h: "heap_ok h"
  shows "(\<exists>ps. comparePlainObjects h x y = Compare ps \<and> (\<forall>p \<in> set ps. \<exists>a b. p = Some (a, b) \<and> R a b)) \<longleftrightarrow>
    set (ownKeys h x) = set (ownKeys h y) \<and> (\<forall>k \<in> set (ownKeys h x). R (own_value h x k) (own_value h y k))"
proof -
  let ?S = "filter is_string_key" and ?Y = "filter (Not \<circ> is_string_key)"
  let ?kx = "ownKeys h x" and ?ky = "ownKeys h y"
  have d: "distinct (?S ?kx)" "distinct (?S ?ky)" "distinct (?Y ?kx)" "distinct (?Y ?ky)"
    using ownKeys_distinct[OF h] by simp_all
  have parts: "set ?kx = set ?ky \<longleftrightarrow> set (?S ?kx) = set (?S ?ky) \<and> set (?Y ?kx) = set (?Y ?ky)"
    by auto
  have keys: "set ?kx = set ?ky \<longleftrightarrow> (length (?S ?kx) = length (?S ?ky) \<and> set (?S ?kx) \<subseteq> set (?S ?ky))
      \<and> length (?Y ?kx) = length (?Y ?ky) \<and> set (?Y ?kx) \<subseteq> set (?Y ?ky)"
    unfolding parts same_keys_iff[OF d(1,2), symmetric] same_keys_iff[OF d(3,4), symmetric] by blast
  have sub: "list_ex (\<lambda>k. own_prop h y k = None) (?S ?kx) \<longleftrightarrow> \<not> set (?S ?kx) \<subseteq> set (?S ?ky)"
    "list_ex (\<lambda>k. k \<notin> set (?Y ?ky)) (?Y ?kx) \<longleftrightarrow> \<not> set (?Y ?kx) \<subseteq> set (?Y ?ky)"
    by (auto simp: list_ex_iff own_prop_None)
  have guards: "comparePlainObjects h x y =
      (if set ?kx = set ?ky then Compare (map (value_pair h x y) (?S ?kx @ ?Y ?kx)) else Differ)"
    unfolding keys comparePlainObjects_def Let_def sub by simp
  have "set (?S ?kx @ ?Y ?kx) = set ?kx" by auto
  from value_pair_holds[of h x y "?S ?kx @ ?Y ?kx" R, unfolded this]
  show ?thesis unfolding guards by (cases "set ?kx = set ?ky") (simp_all del: set_map set_append map_append)
qed

lemma built_in_brand:
  assumes "isBuiltInObject h x tag" "tag \<in> set structural_tags" "\<not> isView (slot (obj_at h x))"
  shows "tag = bracketed (slot_brand (slot (obj_at h x)))"
proof -
  from assms(2) obtain b where b: "tag = bracketed b" "b \<noteq> ''Promise''" "b \<noteq> ''Error''"
    by (auto simp: structural_tags_def)
  with assms(1,3) have "hasBrand h x (bracketed b)" by (auto simp: isBuiltInObject_def split: if_splits)
  with hasBrand_slot[OF this b(2,3)] b(1) show ?thesis by simp
qed

lemma same_brand_slots:
  assumes "slot_brand s = slot_brand t" "bracketed (slot_brand s) \<in> set structural_tags"
  obtains (maps) es fs where "s = MapSlot es" "t = MapSlot fs"
    | (sets) xs ys where "s = SetSlot xs" "t = SetSlot ys"
    | (dates) d d' where "s = DateSlot d" "t = DateSlot d'"
    | (regexps) e f n e' f' n' where "s = RegExpSlot e f n" "t = RegExpSlot e' f' n'"
    | (boxes) v w where "s = BoxSlot v" "t = BoxSlot w"
proof -
  have one: "slot_brand u \<in> {''Boolean'', ''Number'', ''String'', ''BigInt''} \<Longrightarrow> \<exists>v. u = BoxSlot v"
    "slot_brand u = ''Map'' \<Longrightarrow> \<exists>es. u = MapSlot es" "slot_brand u = ''Set'' \<Longrightarrow> \<exists>xs. u = SetSlot xs"
    "slot_brand u = ''Date'' \<Longrightarrow> \<exists>d. u = DateSlot d" "slot_brand u = ''RegExp'' \<Longrightarrow> \<exists>e f n. u = RegExpSlot e f n" for u
    by (cases u rule: slot_brand.cases; simp)+
  from assms(2) consider "slot_brand s = ''Map''" | "slot_brand s = ''Set''" | "slot_brand s = ''Date''" | "slot_brand s = ''RegExp''"
    | "slot_brand s \<in> {''Boolean'', ''Number'', ''String'', ''BigInt''}"
    by (auto simp: structural_tags_def)
  then show thesis
  proof cases
    case 1 with one(2)[of s] one(2)[of t] assms(1) maps show thesis by auto
  next
    case 2 with one(3)[of s] one(3)[of t] assms(1) sets show thesis by auto
  next
    case 3 with one(4)[of s] one(4)[of t] assms(1) dates show thesis by auto
  next
    case 4 with one(5)[of s] one(5)[of t] assms(1) regexps show thesis by auto
  next
    case 5 with one(1)[of s] one(1)[of t] assms(1) boxes show thesis by auto
  qed
qed

lemma map_level:
  assumes d: "distinct (map fst es)" "distinct (map fst fs)"
  shows "(length es = length fs \<and> (\<forall>p \<in> set (map (\<lambda>(k, v). map_option (Pair v) (map_of fs k)) es). \<exists>a b. p = Some (a, b) \<and> R a b))
    \<longleftrightarrow> fst ` set es = fst ` set fs \<and> (\<forall>k u v. map_of es k = Some u \<and> map_of fs k = Some v \<longrightarrow> R u v)"
proof -
  have pair: "(\<exists>a b. (case p of (k, v) \<Rightarrow> map_option (Pair v) (map_of fs k)) = Some (a, b) \<and> R a b)
      \<longleftrightarrow> (\<exists>w. map_of fs (fst p) = Some w \<and> R (snd p) w)" for p
    by (cases p) auto
  have "(\<forall>p \<in> set (map (\<lambda>(k, v). map_option (Pair v) (map_of fs k)) es). \<exists>a b. p = Some (a, b) \<and> R a b)
      \<longleftrightarrow> (\<forall>p \<in> set es. \<exists>w. map_of fs (fst p) = Some w \<and> R (snd p) w)"
    by (simp only: set_map ball_simps pair)
  also have "\<dots> \<longleftrightarrow> set (map fst es) \<subseteq> set (map fst fs)
      \<and> (\<forall>k u v. map_of es k = Some u \<and> map_of fs k = Some v \<longrightarrow> R u v)"
  proof -
    have "(\<forall>p \<in> set es. \<exists>w. map_of fs (fst p) = Some w \<and> R (snd p) w) \<longleftrightarrow>
        (\<forall>k u. map_of es k = Some u \<longrightarrow> (\<exists>w. map_of fs k = Some w \<and> R u w))"
      using d(1) by (auto simp: map_of_eq_Some_iff)
    moreover have "k \<in> set (map fst es) \<longleftrightarrow> (\<exists>u. map_of es k = Some u)" "k \<in> set (map fst fs) \<longleftrightarrow> (\<exists>w. map_of fs k = Some w)" for k
      using map_of_eq_None_iff[of es k] map_of_eq_None_iff[of fs k] by (simp_all del: not_None_eq add: not_None_eq[symmetric])
    ultimately show ?thesis by (fastforce simp del: set_map)
  qed
  finally show ?thesis using same_keys_iff[OF d] by (auto simp del: set_map simp: set_map[symmetric])
qed

lemma set_level: "distinct xs \<Longrightarrow> distinct ys \<Longrightarrow> length xs = length ys \<and> list_all (\<lambda>x. x \<in> set ys) xs \<longleftrightarrow> set xs = set ys"
  using same_keys_iff[of xs ys] by (auto simp: list_all_iff)

lemma level_built_ins:
  assumes h: "heap_ok h" and brand: "slot_brand (slot (obj_at h x)) = slot_brand (slot (obj_at h y))"
      "bracketed (slot_brand (slot (obj_at h x))) \<in> set structural_tags"
    and sh: "shape h x = Some (t, built_in_shape (slot (obj_at h x)) x)" "shape h y = Some (t, built_in_shape (slot (obj_at h y)) y)"
    and c: "compare_level h x y = compare_built_ins (slot (obj_at h x)) (slot (obj_at h y)) (x = y)"
  shows "level_holds h R x y \<longleftrightarrow> agree_below h R x y"
  using brand
proof (cases rule: same_brand_slots)
  case (maps es fs)
  have d: "distinct (map fst es)" "distinct (map fst fs)"
    using heap_ok_at[OF h, of x] heap_ok_at[OF h, of y] maps by (simp_all add: obj_ok_def)
  have f: "fields h x (Inr k) = map_of es k" "fields h y (Inr k) = map_of fs k"
    "fields h x (Inl j) = None" "fields h y (Inl j) = None" for k j
    using sh maps by (simp_all add: fields_def built_in_shape_def)
  have "level_holds h R x y \<longleftrightarrow> length es = length fs
      \<and> (\<forall>p \<in> set (map (\<lambda>(k, v). map_option (Pair v) (map_of fs k)) es). \<exists>a b. p = Some (a, b) \<and> R a b)"
    using maps by (simp add: level_holds_def c compare_built_ins_def del: set_map)
  also have "\<dots> \<longleftrightarrow> agree_below h R x y"
    unfolding map_level[OF d] agree_below_def split_sum_all f using sh maps by (simp add: built_in_shape_def)
  finally show ?thesis .
next
  case (sets xs ys)
  have d: "distinct xs" "distinct ys"
    using heap_ok_at[OF h, of x] heap_ok_at[OF h, of y] sets by (simp_all add: obj_ok_def)
  have "fields h x f = None" for f
    by (rule no_fields[OF sh(1)]) (simp add: sets built_in_shape_def)
  with sets sh set_level[OF d] show ?thesis
    by (auto simp: level_holds_def c compare_built_ins_def agree_below_def built_in_shape_def)
next
  case (dates d d')
  have "fields h x f = None" for f
    by (rule no_fields[OF sh(1)]) (simp add: dates built_in_shape_def)
  with dates sh show ?thesis by (simp add: level_holds_def c compare_built_ins_def agree_below_def built_in_shape_def)
next
  case (regexps e f n e' f' n')
  have "fields h x g = None" for g
    by (rule no_fields[OF sh(1)]) (simp add: regexps built_in_shape_def)
  with regexps sh show ?thesis by (simp add: level_holds_def c compare_built_ins_def agree_below_def built_in_shape_def)
next
  case (boxes v w)
  have "fields h x f = None" for f
    by (rule no_fields[OF sh(1)]) (simp add: boxes built_in_shape_def)
  with boxes sh show ?thesis by (simp add: level_holds_def c compare_built_ins_def agree_below_def built_in_shape_def)
qed

lemma level_self:
  assumes "compare_level h x y = agree (x = y)" "shape h x = Some (t, SelfShape x)" "shape h y = Some (t, SelfShape y)"
  shows "level_holds h R x y \<longleftrightarrow> agree_below h R x y"
  using assms no_fields[OF assms(2)] by (auto simp: level_holds_def agree_below_def agree_def)

lemma built_in_shape_inv:
  "built_in_shape s x \<noteq> PlainShape ks" "built_in_shape s x = SelfShape r \<Longrightarrow> r = x"
  by (cases s; simp add: built_in_shape_def)+

lemma level_shape:
  assumes h: "heap_ok h"
  shows "level_holds h R x y \<longleftrightarrow> agree_below h R x y"
proof -
  let ?s = "slot (obj_at h x)" and ?t = "slot (obj_at h y)" and ?a = "objToString h x" and ?b = "objToString h y"
  consider (views) "isView ?s \<or> isView ?t"
    | (arrays) "\<not> isView ?s" "\<not> isView ?t" "array_length ?s \<noteq> None \<or> array_length ?t \<noteq> None"
    | (rest) "\<not> isView ?s" "\<not> isView ?t" "array_length ?s = None" "array_length ?t = None" by blast
  then show ?thesis
  proof cases
    case views then show ?thesis by (rule level_views)
  next
    case arrays with level_arrays[OF h] show ?thesis by blast
  next
    case rest
    let ?sh = "\<lambda>x. if \<not> isBuiltInObject h x (objToString h x)
      then if isOpaqueExoticTag (objToString h x) then SelfShape x else PlainShape (set (ownKeys h x))
      else if objToString h x \<in> set structural_tags then built_in_shape (slot (obj_at h x)) x else SelfShape x"
    have sh: "shape h x = Some (?a, ?sh x)" "shape h y = Some (?b, ?sh y)"
      using rest by (simp_all add: shape_def Let_def)
    consider (tags) "?a \<noteq> ?b" | (kinds) "?a = ?b" "isBuiltInObject h x ?a \<noteq> isBuiltInObject h y ?a"
      | (opaque) "?a = ?b" "\<not> isBuiltInObject h x ?a" "\<not> isBuiltInObject h y ?a" "isOpaqueExoticTag ?a"
      | (plain) "?a = ?b" "\<not> isBuiltInObject h x ?a" "\<not> isBuiltInObject h y ?a" "\<not> isOpaqueExoticTag ?a"
      | (built_in) "?a = ?b" "isBuiltInObject h x ?a" "isBuiltInObject h y ?a" "?a \<in> set structural_tags"
      | (reference) "?a = ?b" "isBuiltInObject h x ?a" "isBuiltInObject h y ?a" "?a \<notin> set structural_tags" by metis
    then show ?thesis
    proof cases
      case tags
      then show ?thesis using sh rest by (simp add: level_holds_def compare_level_def Let_def agree_below_def)
    next
      case kinds
      have "?sh x \<noteq> ?sh y" using kinds built_in_shape_inv by (auto split: if_splits) metis+
      with kinds sh rest show ?thesis by (simp add: level_holds_def compare_level_def Let_def agree_below_def)
    next
      case opaque
      with sh rest show ?thesis by (intro level_self) (simp_all add: compare_level_def Let_def)
    next
      case plain
      then have p: "shape h x = Some (?a, PlainShape (set (ownKeys h x)))" "shape h y = Some (?a, PlainShape (set (ownKeys h y)))"
        using sh by simp_all
      have "compare_level h x y = comparePlainObjects h x y" using plain rest by (simp add: compare_level_def Let_def)
      then have "level_holds h R x y \<longleftrightarrow>
          set (ownKeys h x) = set (ownKeys h y) \<and> (\<forall>k \<in> set (ownKeys h x). R (own_value h x k) (own_value h y k))"
        using plain_level[OF h, of x y R] by (simp add: level_holds_def)
      also have "\<dots> \<longleftrightarrow> agree_below h R x y"
        using agree_properties[of h x y R] p by (simp add: property_fields[where n = 0 and t = ?a])
      finally show ?thesis .
    next
      case built_in
      from built_in_brand[OF built_in(2,4) rest(1)] built_in_brand[OF built_in(3,4) rest(2)]
      have b: "slot_brand ?s = slot_brand ?t" "bracketed (slot_brand ?s) \<in> set structural_tags"
        using built_in(4) by (metis bracketed_eq, simp)
      show ?thesis
        by (rule level_built_ins[OF h b, of ?a]) (use built_in sh rest in \<open>simp_all add: compare_level_def Let_def\<close>)
    next
      case reference
      with sh rest show ?thesis by (intro level_self) (simp_all add: compare_level_def Let_def)
    qed
  qed
qed

text \<open>Objects of one shape have values under the same keys.\<close>

lemma map_shape_slot: "shape h x = Some (t, MapShape ks) \<Longrightarrow> \<exists>es. slot (obj_at h x) = MapSlot es \<and> ks = fst ` set es"
  by (auto simp: shape_def Let_def view_shape_def built_in_shape_def split: if_splits option.splits jslot.splits)

lemma keys_shape:
  assumes "shape h x = Some (t, sh)"
  shows "sh = ArrayShape n ks \<or> sh = PlainShape ks \<Longrightarrow> set (ownKeys h x) = ks"
  using assms by (auto simp: shape_def Let_def view_shape_def built_in_shape_def split: if_splits option.splits jslot.splits)

lemma fields_dom:
  assumes "shape h x = Some (t, sh)"
  shows "fields h x f \<noteq> None \<longleftrightarrow> (case (sh, f) of
     (ArrayShape n ks, Inl k) \<Rightarrow> k \<in> ks | (PlainShape ks, Inl k) \<Rightarrow> k \<in> ks | (MapShape ks, Inr k) \<Rightarrow> k \<in> ks | _ \<Rightarrow> False)"
proof (cases sh)
  case (ArrayShape n ks)
  with keys_shape[OF assms] assms own_prop_None[of h x] show ?thesis by (cases f) (auto simp: fields_def)
next
  case (PlainShape ks)
  with keys_shape[OF assms] assms own_prop_None[of h x] show ?thesis by (cases f) (auto simp: fields_def)
next
  case (MapShape ks)
  with map_shape_slot assms obtain es where "slot (obj_at h x) = MapSlot es" "ks = fst ` set es" by blast
  with MapShape assms show ?thesis
    by (cases f) (auto simp: fields_def map_of_eq_None_iff simp flip: not_None_eq)
qed (use assms in \<open>auto simp: fields_def split: sum.split\<close>)

lemma agree_below_sym: "agree_below h R x y \<Longrightarrow> agree_below h (\<lambda>a b. R b a) y x"
  by (auto simp: agree_below_def)

lemma agree_below_trans:
  assumes "agree_below h R x y" "agree_below h S y z"
  shows "agree_below h (\<lambda>a c. \<exists>b. R a b \<and> S b c) x z"
proof -
  from assms obtain t sh where sh: "shape h x = Some (t, sh)" "shape h y = Some (t, sh)" "shape h z = Some (t, sh)"
    by (auto simp: agree_below_def)
  have "\<exists>b. R u b \<and> S b v" if u: "fields h x f = Some u" and v: "fields h z f = Some v" for f u v
  proof -
    from u fields_dom[OF sh(1), of f] fields_dom[OF sh(2), of f] obtain w where "fields h y f = Some w" by auto
    with assms u v show ?thesis unfolding agree_below_def by blast
  qed
  with sh show ?thesis unfolding agree_below_def by (metis option.distinct(1))
qed

lemma deeply_equal_level:
  "deeply_equal h (JObj x) (JObj y) \<longleftrightarrow> x = y \<or> level_holds h (deeply_equal h) x y"
proof
  assume "deeply_equal h (JObj x) (JObj y)"
  then show "x = y \<or> level_holds h (deeply_equal h) x y"
    by (cases rule: deeply_equal.cases) (auto simp: strict_equal_def level_holds_def)
next
  assume "x = y \<or> level_holds h (deeply_equal h) x y"
  then show "deeply_equal h (JObj x) (JObj y)"
    by (auto simp: level_holds_def strict_equal_def intro: deeply_equal.intros)
qed

text \<open>To show values deeply equal: a relation that keeps them the same or agreeing one level down.\<close>

lemma deeply_equal_by:
  assumes "X a b"
    and step: "\<And>a b. X a b \<Longrightarrow> a = b \<or> (\<exists>x y. a = JObj x \<and> b = JObj y \<and> level_holds h X x y)"
  shows "deeply_equal h a b"
proof (rule deeply_equal.coinduct[of X, OF assms(1)])
  fix a b assume "X a b"
  from step[OF this] show "(\<exists>a' b'. a = a' \<and> b = b' \<and> strict_equal a' b') \<or> a = JNum NaN \<and> b = JNum NaN
    \<or> (\<exists>x y ps. a = JObj x \<and> b = JObj y \<and> compare_level h x y = Compare ps
        \<and> (\<forall>p \<in> set ps. \<exists>a b. p = Some (a, b) \<and> (X a b \<or> deeply_equal h a b)))"
  proof
    assume "a = b"
    then show ?thesis by (cases "a = JNum NaN") (auto simp: strict_equal_def)
  next
    assume "\<exists>x y. a = JObj x \<and> b = JObj y \<and> level_holds h X x y"
    then obtain x y ps where xy: "a = JObj x" "b = JObj y" "compare_level h x y = Compare ps"
      "\<forall>p \<in> set ps. \<exists>a b. p = Some (a, b) \<and> X a b" by (auto simp: level_holds_def)
    then have "\<forall>p \<in> set ps. \<exists>a b. p = Some (a, b) \<and> (X a b \<or> deeply_equal h a b)" by meson
    with xy show ?thesis by blast
  qed
qed

lemma deeply_equal_sym:
  assumes h: "heap_ok h" and "deeply_equal h a b"
  shows "deeply_equal h b a"
proof (rule deeply_equal_by[where X = "\<lambda>a b. deeply_equal h b a", OF assms(2)])
  fix a b assume d: "deeply_equal h b a"
  from deeply_equal_atoms[OF d] show "a = b \<or> (\<exists>x y. a = JObj x \<and> b = JObj y \<and> level_holds h (\<lambda>a b. deeply_equal h b a) x y)"
  proof (elim disjE exE conjE)
    fix y x assume xy: "b = JObj y" "a = JObj x"
    from d[unfolded xy deeply_equal_level] show ?thesis
    proof
      assume "level_holds h (deeply_equal h) y x"
      then have "level_holds h (\<lambda>a b. deeply_equal h b a) x y"
        unfolding level_shape[OF h] by (rule agree_below_sym)
      with xy show ?thesis by blast
    qed (use xy in simp)
  qed simp
qed

lemma deeply_equal_trans:
  assumes h: "heap_ok h" and "deeply_equal h a b" "deeply_equal h b c"
  shows "deeply_equal h a c"
proof (rule deeply_equal_by[where X = "\<lambda>a c. \<exists>b. deeply_equal h a b \<and> deeply_equal h b c"])
  fix a c assume "\<exists>b. deeply_equal h a b \<and> deeply_equal h b c"
  then obtain b where d: "deeply_equal h a b" "deeply_equal h b c" by blast
  let ?X = "\<lambda>a c. \<exists>b. deeply_equal h a b \<and> deeply_equal h b c"
  have refl: "deeply_equal h a a" for a
    by (cases "a = JNum NaN") (auto simp: strict_equal_def intro: deeply_equal.intros)
  have weaken: "level_holds h R x z \<Longrightarrow> (\<And>a c. R a c \<Longrightarrow> ?X a c) \<Longrightarrow> level_holds h ?X x z" for R x z
    unfolding level_shape[OF h] agree_below_def by blast
  show "a = c \<or> (\<exists>x z. a = JObj x \<and> c = JObj z \<and> level_holds h ?X x z)"
  proof (cases "\<exists>x y z. a = JObj x \<and> b = JObj y \<and> c = JObj z")
    case True
    then obtain x y z where xyz: "a = JObj x" "b = JObj y" "c = JObj z" by blast
    from d[unfolded xyz deeply_equal_level]
    consider "x = y" "y = z" | "x = y" "level_holds h (deeply_equal h) y z" | "level_holds h (deeply_equal h) x y" "y = z"
      | "level_holds h (deeply_equal h) x y" "level_holds h (deeply_equal h) y z" by blast
    then show ?thesis
    proof cases
      case 2
      with xyz weaken[OF 2(2)] refl show ?thesis by blast
    next
      case 3
      with xyz weaken[OF 3(1)] refl show ?thesis by blast
    next
      case 4
      then have "level_holds h ?X x z" unfolding level_shape[OF h] by (rule agree_below_trans)
      with xyz show ?thesis by blast
    qed (use xyz in simp)
  next
    case False
    with deeply_equal_atoms[OF d(1)] deeply_equal_atoms[OF d(2)] show ?thesis
      by (metis d deeply_equal_level)
  qed
qed (use assms in blast)

section \<open>Properties\<close>

lemma deepEqual_meaning: "deepEqual h a b = Inr True \<longleftrightarrow> deeply_equal h a b"
proof -
  obtain visited where d: "deepEqualInner h (length (graph_refs h a b) * length (graph_refs h a b) + 1) a b []
      = Some (deepEqual h a b, visited)" by (rule deepEqual_result)
  show ?thesis
  proof
    assume "deepEqual h a b = Inr True"
    with walk_sound d have "sound_step h [] visited" "covered visited a b" by metis+
    then show "deeply_equal h a b" by (intro explored_deeply_equal[of visited]) (simp_all add: sound_step_def)
  next
    assume "deeply_equal h a b"
    with walk_complete d show "deepEqual h a b = Inr True" by metis
  qed
qed


text \<open>
  C27. \<open>deepEqual\<close>, and with it \<open>voEquals\<close>, is an equivalence on well-formed graphs (no object
  has a key twice): reflexive on every value, symmetric and transitive.
\<close>

theorem deepEqual_equivalence:
  assumes "heap_ok h"
  shows "deepEqual h a a = Inr True \<and> (deepEqual h a b = Inr True \<longrightarrow> deepEqual h b a = Inr True)
    \<and> (deepEqual h a b = Inr True \<and> deepEqual h b c = Inr True \<longrightarrow> deepEqual h a c = Inr True)"
proof -
  have "deeply_equal h a a" by (cases "a = JNum NaN") (auto simp: strict_equal_def intro: deeply_equal.intros)
  then show ?thesis
    unfolding deepEqual_meaning using deeply_equal_sym[OF assms] deeply_equal_trans[OF assms] by blast
qed

text \<open>
  Data views whose tag is masked by an own \<open>Symbol.toStringTag\<close> are all equal: they are
  compared as typed arrays, and a data view has no \<open>length\<close>.
\<close>

lemma masked_data_views_equal:
  assumes "slot (obj_at h x) = DataViewSlot bs" "slot (obj_at h y) = DataViewSlot cs"
    and "objToString h x = objToString h y" "objToString h x \<noteq> bracketed ''DataView''"
  shows "deepEqual h (JObj x) (JObj y) = Inr True"
proof -
  have "compare_level h x y = Compare []"
    using assms by (simp add: compare_level_def compare_elements_def Let_def)
  then show ?thesis by (simp add: deepEqual_meaning deeply_equal_level level_holds_def)
qed

section \<open>A concrete graph\<close>

text \<open>Two objects that hold themselves and \<open>NaN\<close>, their keys in different orders.\<close>

definition ex_data :: "jval \<Rightarrow> jprop" where
  "ex_data v = \<lparr>pr_value = v, pr_accessor = False, pr_writable = True, pr_enumerable = True, pr_configurable = True\<rparr>"

definition ex_object :: "(jkey \<times> jprop) list \<Rightarrow> jobj" where
  "ex_object ps = \<lparr>slot = Ordinary, prototype = None, props = ps, extensible = True\<rparr>"

definition ex_cycles :: jheap where
  "ex_cycles = \<lparr>objects = [
     (0, ex_object [(PStr ''self'', ex_data (JObj 0)), (PStr ''v'', ex_data (JNum NaN))]),
     (1, ex_object [(PStr ''v'', ex_data (JNum NaN)), (PStr ''self'', ex_data (JObj 1))]),
     (2, ex_object [(PStr ''v'', ex_data (JNum NaN)), (PStr ''self'', ex_data (JObj 0))])],
     funs = [], intrinsic_sources = []\<rparr>"

theorem deepEqual_equivalence_witness: "deepEqual ex_cycles (JObj 0) (JObj 2) = Inr True"
proof -
  have "deepEqual ex_cycles (JObj 0) (JObj 1) = Inr True" "deepEqual ex_cycles (JObj 1) (JObj 2) = Inr True" by code_simp+
  moreover have "heap_ok ex_cycles" by code_simp
  ultimately show ?thesis using deepEqual_equivalence[of ex_cycles "JObj 0" "JObj 1" "JObj 2"] by blast
qed

end
