(* ===== verification/Deep_Freeze.thy ===== *)
theory Deep_Freeze
  imports Deep_Equal
begin

text \<open>
  \<open>deepFreeze\<close> (src/value-object/value-object.ts) over the object graph: the walk with its
  visited set, the shadowing of the mutators of dates, maps and sets, and \<open>Object.freeze\<close>.
  \<open>thr\<close> names the function object the module keeps per type and method as the thrower.
  Fuel bounds the recursion depth; each level visits a new object, so the number of objects
  is enough.
\<close>

section \<open>Freezing one object\<close>

definition DATE_MUTATORS :: "string list" where
  "DATE_MUTATORS = [''setTime'', ''setMilliseconds'', ''setUTCMilliseconds'', ''setSeconds'', ''setUTCSeconds'',
     ''setMinutes'', ''setUTCMinutes'', ''setHours'', ''setUTCHours'', ''setDate'', ''setUTCDate'', ''setMonth'',
     ''setUTCMonth'', ''setFullYear'', ''setUTCFullYear'', ''setYear'']"

type_synonym throwers = "string \<Rightarrow> string \<Rightarrow> nat"

definition shadow_prop :: "nat \<Rightarrow> jprop" where
  "shadow_prop f = \<lparr>pr_value = JFun f, pr_accessor = False, pr_writable = False, pr_enumerable = False, pr_configurable = False\<rparr>"

text \<open>\<open>Object.defineProperty\<close> refuses to change a property that is not configurable.\<close>

definition define_shadow :: "nat \<Rightarrow> string \<Rightarrow> jobj \<Rightarrow> (js_error, jobj) res" where
  "define_shadow f method x = (case map_of (props x) (PStr method) of
     Some p \<Rightarrow> if \<not> pr_configurable p \<and> p \<noteq> shadow_prop f then Inl typeError
       else Inr (x\<lparr>props := jset (PStr method) (shadow_prop f) (props x)\<rparr>)
   | None \<Rightarrow> Inr (x\<lparr>props := jset (PStr method) (shadow_prop f) (props x)\<rparr>))"

definition shadowMutators :: "throwers \<Rightarrow> string \<Rightarrow> string list \<Rightarrow> jobj \<Rightarrow> (js_error, jobj) res" where
  "shadowMutators thr typeName methods x =
     (if \<not> extensible x then Inr x
      else fold_res (\<lambda>m. define_shadow (thr typeName m) m) methods x)"

definition mutators :: "string \<Rightarrow> string \<times> string list" where
  "mutators tag =
     (if tag = bracketed ''Date'' then (''Date'', DATE_MUTATORS)
      else if tag = bracketed ''Map'' then (''Map'', [''set'', ''delete'', ''clear''])
      else (''Set'', [''add'', ''delete'', ''clear'']))"

definition shadow_object :: "throwers \<Rightarrow> string option \<Rightarrow> jobj \<Rightarrow> (js_error, jobj) res" where
  "shadow_object thr tag x = (case tag of
     None \<Rightarrow> Inr x | Some t \<Rightarrow> (case mutators t of (typeName, methods) \<Rightarrow> shadowMutators thr typeName methods x))"

text \<open>\<open>Object.freeze\<close>.\<close>

definition freeze_prop :: "jprop \<Rightarrow> jprop" where
  "freeze_prop p = (if pr_accessor p then p\<lparr>pr_configurable := False\<rparr>
     else p\<lparr>pr_configurable := False, pr_writable := False\<rparr>)"

definition freeze_object :: "jobj \<Rightarrow> jobj" where
  "freeze_object x = x\<lparr>extensible := False, props := map (\<lambda>(k, p). (k, freeze_prop p)) (props x)\<rparr>"

definition update_object :: "(jobj \<Rightarrow> jobj) \<Rightarrow> nat \<Rightarrow> jheap \<Rightarrow> jheap" where
  "update_object f r h = h\<lparr>objects := map (\<lambda>(s, x). (s, if s = r then f x else x)) (objects h)\<rparr>"

section \<open>The walk\<close>

definition collection_vals :: "jheap \<Rightarrow> nat \<Rightarrow> jval list" where
  "collection_vals h r = (case mutableBuiltInTag h r of
     None \<Rightarrow> []
   | Some tag \<Rightarrow> (case slot (obj_at h r) of
       MapSlot es \<Rightarrow> if tag = bracketed ''Map'' then concat (map (\<lambda>(k, v). [k, v]) es) else []
     | SetSlot xs \<Rightarrow> if tag = bracketed ''Set'' then xs else []
     | _ \<Rightarrow> []))"

definition own_vals :: "jobj \<Rightarrow> jval list" where
  "own_vals x = map (pr_value \<circ> snd) (props x)"

type_synonym freeze_state = "nat list \<times> jheap"

fun deepFreeze_walk :: "throwers \<Rightarrow> nat \<Rightarrow> jval \<Rightarrow> freeze_state \<Rightarrow> (js_error, freeze_state) res option"
  and freeze_all :: "throwers \<Rightarrow> nat \<Rightarrow> jval list \<Rightarrow> freeze_state \<Rightarrow> (js_error, freeze_state) res option" where
  "deepFreeze_walk thr 0 v st = None"
| "deepFreeze_walk thr (Suc fuel) v (visited, h) =
     (case v of
        JObj r \<Rightarrow>
          if isView (slot (obj_at h r)) then Some (Inr (visited, h))
          else if r \<in> set visited then Some (Inr (visited, h))
          else (case freeze_all thr fuel (collection_vals h r) (r # visited, h) of
              Some (Inr (visited1, h1)) \<Rightarrow>
                (case shadow_object thr (mutableBuiltInTag h r) (obj_at h1 r) of
                   Inl e \<Rightarrow> Some (Inl e)
                 | Inr x \<Rightarrow> (case freeze_all thr fuel (own_vals x) (visited1, update_object (\<lambda>_. x) r h1) of
                     Some (Inr (visited2, h2)) \<Rightarrow> Some (Inr (visited2, update_object freeze_object r h2))
                   | res \<Rightarrow> res))
            | res \<Rightarrow> res)
      | _ \<Rightarrow> Some (Inr (visited, h)))"
| "freeze_all thr fuel [] st = Some (Inr st)"
| "freeze_all thr fuel (v # vs) st =
     (case deepFreeze_walk thr fuel v st of
        Some (Inr st') \<Rightarrow> freeze_all thr fuel vs st'
      | res \<Rightarrow> res)"

definition deepFreeze :: "throwers \<Rightarrow> jheap \<Rightarrow> jval \<Rightarrow> (js_error, jheap) res" where
  "deepFreeze thr h v =
     (case deepFreeze_walk thr (length (graph_refs h v v) + 1) v ([], h) of
        Some (Inr (visited, h')) \<Rightarrow> Inr h' | Some (Inl e) \<Rightarrow> Inl e | None \<Rightarrow> Inr h)"

section \<open>What freezing leaves alone\<close>

text \<open>The tag of a built-in depends on these parts of the objects only.\<close>

definition tag_view :: "jprop option \<Rightarrow> (jval \<times> bool) option" where
  "tag_view p = map_option (\<lambda>p. (pr_value p, pr_accessor p)) p"

definition alike_object :: "jobj \<Rightarrow> jobj \<Rightarrow> bool" where
  "alike_object x y \<longleftrightarrow> slot y = slot x \<and> prototype y = prototype x
     \<and> (\<forall>k \<in> {toStringTag, PStr ''constructor''}. tag_view (map_of (props y) k) = tag_view (map_of (props x) k))"

definition alike :: "jheap \<Rightarrow> jheap \<Rightarrow> bool" where
  "alike h h' \<longleftrightarrow> funs h' = funs h \<and> intrinsic_sources h' = intrinsic_sources h \<and> jkeys (objects h') = jkeys (objects h)
     \<and> (\<forall>r. alike_object (obj_at h r) (obj_at h' r))"

lemma alike_refl [simp]: "alike h h"
  by (simp add: alike_def alike_object_def)

lemma alike_object_trans: "alike_object x y \<Longrightarrow> alike_object y z \<Longrightarrow> alike_object x z"
  by (simp add: alike_object_def)

lemma alike_trans: "alike h h1 \<Longrightarrow> alike h1 h2 \<Longrightarrow> alike h h2"
  by (auto simp: alike_def intro: alike_object_trans)

lemma alike_chain: "alike h h' \<Longrightarrow> proto_chain h' visited r = proto_chain h visited r"
proof (induction h visited r rule: proto_chain.induct)
  case (1 h visited r)
  have same: "jkeys (objects h') = jkeys (objects h)" "prototype (obj_at h' r) = prototype (obj_at h r)"
    using "1.prems" by (simp_all add: alike_def alike_object_def)
  show ?case
    using "1.IH" "1.prems" same
    by (subst (1 2) proto_chain.simps) (auto split: option.split)
qed

lemma alike_own:
  assumes "alike h h'" "k \<in> {toStringTag, PStr ''constructor''}"
  shows "tag_view (own_prop h' r k) = tag_view (own_prop h r k)"
  using assms unfolding alike_def alike_object_def own_prop_def by blast

lemma tag_view_None [simp]: "tag_view p = None \<longleftrightarrow> p = None"
  by (simp add: tag_view_def)

lemma alike_find:
  assumes "alike h h'"
  shows "tag_view (findPropertyDescriptor h' r toStringTag) = tag_view (findPropertyDescriptor h r toStringTag)"
proof -
  have "own_prop h' p toStringTag \<noteq> None \<longleftrightarrow> own_prop h p toStringTag \<noteq> None" for p
    using alike_own[OF assms, of toStringTag p] by (metis tag_view_None insertI1)
  then have "filter (\<lambda>p. own_prop h' p toStringTag \<noteq> None) (proto_chain h' [] r)
      = filter (\<lambda>p. own_prop h p toStringTag \<noteq> None) (proto_chain h [] r)"
    by (simp add: alike_chain[OF assms])
  then show ?thesis
    using alike_own[OF assms, of toStringTag] by (auto simp: findPropertyDescriptor_def split: list.split)
qed

lemma alike_intrinsic:
  assumes "alike h h'"
  shows "isIntrinsicConstructorPrototype h' p n = isIntrinsicConstructorPrototype h p n"
proof -
  note own = alike_own[OF assms, of "PStr ''constructor''" p]
  have f: "funs h' = funs h" "intrinsic_sources h' = intrinsic_sources h" using assms by (simp_all add: alike_def)
  show ?thesis
  proof (cases "own_prop h p (PStr ''constructor'')")
    case None
    with own show ?thesis by (simp add: isIntrinsicConstructorPrototype_def tag_view_def)
  next
    case (Some d)
    with own obtain d' where d': "own_prop h' p (PStr ''constructor'') = Some d'" "pr_value d' = pr_value d" "pr_accessor d' = pr_accessor d"
      by (auto simp: tag_view_def)
    show ?thesis unfolding isIntrinsicConstructorPrototype_def Some d'(1) option.case d'(2,3) f ..
  qed
qed

lemma alike_brand:
  assumes "alike h h'"
  shows "hasBrand h' r tag = hasBrand h r tag" "hasNativePrototype h' r n = hasNativePrototype h r n"
proof -
  have sl: "slot (obj_at h' r) = slot (obj_at h r)" "prototype (obj_at h' r) = prototype (obj_at h r)"
    using assms by (simp_all add: alike_def alike_object_def)
  have "proto_chain h' = proto_chain h" by (intro ext alike_chain[OF assms])
  then have p: "prototypes h' r = prototypes h r" unfolding prototypes_def sl(2) by (simp split: option.split)
  show n: "hasNativePrototype h' r n = hasNativePrototype h r n" for n
    by (simp add: hasNativePrototype_def p alike_intrinsic[OF assms])
  have "hasNativePrototype h' r = hasNativePrototype h r" by (intro ext n)
  then show "hasBrand h' r tag = hasBrand h r tag" by (simp add: hasBrand_def sl)
qed

lemma alike_tag:
  assumes "alike h h'"
  shows "mutableBuiltInTag h' r = mutableBuiltInTag h r"
proof -
  have sl: "slot (obj_at h' r) = slot (obj_at h r)" using assms by (simp add: alike_def alike_object_def)
  have brand: "hasBrand h' r = hasBrand h r" by (intro ext alike_brand(1)[OF assms])
  have fromBrand: "builtInTagFromBrand h' r = builtInTagFromBrand h r"
    unfolding builtInTagFromBrand_def brand alike_brand(2)[OF assms] ..
  have "builtInTagWithoutInvokingAccessors h' r = builtInTagWithoutInvokingAccessors h r"
  proof (cases "findPropertyDescriptor h r toStringTag")
    case None
    then have f: "findPropertyDescriptor h' r toStringTag = None"
      using alike_find[OF assms, of r] by (simp add: tag_view_def)
    then have "objToString h' r = objToString h r" using None by (simp add: objToString_def get_value_def sl)
    then show ?thesis unfolding builtInTagWithoutInvokingAccessors_def None f sl brand fromBrand by simp
  next
    case (Some d)
    then obtain d' where f: "findPropertyDescriptor h' r toStringTag = Some d'" "pr_value d' = pr_value d" "pr_accessor d' = pr_accessor d"
      using alike_find[OF assms, of r] by (auto simp: tag_view_def)
    have "objToString h' r = objToString h r"
      unfolding objToString_def get_value_def Some f(1) option.case f(2) sl ..
    then show ?thesis
      unfolding builtInTagWithoutInvokingAccessors_def Some f(1) option.case f(3) sl brand fromBrand by simp
  qed
  then show ?thesis unfolding mutableBuiltInTag_def by simp
qed

text \<open>Updating one object.\<close>

lemma map_of_update: "map_of (map (\<lambda>(s, x). (s, if s = r then f x else x)) m) s
    = map_option (if s = r then f else (\<lambda>x. x)) (map_of m s)"
  by (induction m) auto

lemma obj_at_update: "obj_at (update_object f r h) s = (if s = r \<and> r \<in> set (jkeys (objects h)) then f (obj_at h r) else obj_at h s)"
proof (cases "jget (objects h) s")
  case None
  then have "s \<notin> set (jkeys (objects h))" by (simp add: map_of_eq_None_iff)
  with None show ?thesis by (auto simp: obj_at_def update_object_def map_of_update)
next
  case (Some x)
  then have "s \<in> set (jkeys (objects h))" by (force dest: map_of_SomeD)
  with Some show ?thesis by (auto simp: obj_at_def update_object_def map_of_update)
qed

lemma update_keys [simp]: "jkeys (objects (update_object f r h)) = jkeys (objects h)"
  "funs (update_object f r h) = funs h" "intrinsic_sources (update_object f r h) = intrinsic_sources h"
  by (auto simp: update_object_def)

lemma alike_update:
  assumes "alike_object (obj_at h r) (f (obj_at h r))"
  shows "alike h (update_object f r h)"
  using assms by (auto simp: alike_def obj_at_update alike_object_def)

lemma alike_freeze: "alike_object x (freeze_object x)"
proof -
  have "map_of (map (\<lambda>(k, p). (k, freeze_prop p)) ps) k = map_option freeze_prop (map_of ps k)" for ps :: "(jkey \<times> jprop) list" and k
    by (induction ps) auto
  moreover have "tag_view (map_option freeze_prop p) = tag_view p" for p
    by (cases p) (simp_all add: tag_view_def freeze_prop_def)
  ultimately show ?thesis by (simp add: alike_object_def freeze_object_def)
qed

lemma alike_define: "define_shadow f m x = Inr y \<Longrightarrow> m \<noteq> ''constructor'' \<Longrightarrow> alike_object x y"
  by (auto simp: define_shadow_def alike_object_def split: option.splits if_splits)

lemma alike_defines:
  "fold_res (\<lambda>m. define_shadow (thr t m) m) ms x = Inr y \<Longrightarrow> ''constructor'' \<notin> set ms \<Longrightarrow> alike_object x y"
proof (induction ms arbitrary: x)
  case (Cons m ms)
  then obtain z where "define_shadow (thr t m) m x = Inr z" "fold_res (\<lambda>m. define_shadow (thr t m) m) ms z = Inr y" by auto
  with Cons alike_define[of "thr t m" m x z] alike_object_trans show ?case by fastforce
qed (simp add: alike_object_def)

lemma mutators_methods: "''constructor'' \<notin> set (snd (mutators t))"
  by (simp add: mutators_def DATE_MUTATORS_def)

lemma alike_object_refl: "alike_object x x"
  by (simp add: alike_object_def)

lemma alike_shadow: "shadow_object thr tag x = Inr y \<Longrightarrow> alike_object x y"
  using alike_defines[of thr "fst (mutators (the tag))" "snd (mutators (the tag))" x y]
  by (auto simp: shadow_object_def shadowMutators_def mutators_methods alike_object_refl split: option.splits if_splits prod.splits)

section \<open>What the walk does\<close>

text \<open>
  \<open>shadowed\<close>: the object with its mutators shadowed. \<open>frozen\<close>: what becomes of it.
  \<open>successors\<close>: the values the walk goes on to, none from a buffer view.
\<close>

definition shadowed :: "throwers \<Rightarrow> jheap \<Rightarrow> nat \<Rightarrow> (js_error, jobj) res" where
  "shadowed thr h r = shadow_object thr (mutableBuiltInTag h r) (obj_at h r)"

definition frozen :: "throwers \<Rightarrow> jheap \<Rightarrow> nat \<Rightarrow> jobj" where
  "frozen thr h r = (case shadowed thr h r of Inr x \<Rightarrow> freeze_object x | Inl _ \<Rightarrow> obj_at h r)"

definition successors :: "throwers \<Rightarrow> jheap \<Rightarrow> nat \<Rightarrow> jval list" where
  "successors thr h r = collection_vals h r @ (case shadowed thr h r of Inr x \<Rightarrow> own_vals x | Inl _ \<Rightarrow> [])"

abbreviation walkable :: "jheap \<Rightarrow> nat \<Rightarrow> bool" where
  "walkable h r \<equiv> \<not> isView (slot (obj_at h r))"

inductive reaches :: "throwers \<Rightarrow> jheap \<Rightarrow> jval \<Rightarrow> nat \<Rightarrow> bool" for thr h where
  root: "walkable h r \<Longrightarrow> reaches thr h (JObj r) r"
| next_object: "reaches thr h v r \<Longrightarrow> JObj s \<in> set (successors thr h r) \<Longrightarrow> walkable h s \<Longrightarrow> reaches thr h v s"

lemma reaches_successor:
  assumes "reaches thr h u s" "u \<in> set (successors thr h r)" "walkable h r"
  shows "reaches thr h (JObj r) s"
  using assms(1,2)
proof (induction rule: reaches.induct)
  case (root s)
  from reaches.next_object[OF reaches.root[OF assms(3)] root.prems(1)] root.hyps show ?case .
next
  case (next_object v r' s)
  from reaches.next_object[OF next_object.IH[OF next_object.prems]] next_object.hyps show ?case by blast
qed

text \<open>
  The state of a walk against the heap it started on: objects not visited are untouched, and
  every object looks the same to the tags.
\<close>

definition in_walk :: "jheap \<Rightarrow> freeze_state \<Rightarrow> bool" where
  "in_walk h st \<longleftrightarrow> alike h (snd st) \<and> (\<forall>s. s \<notin> set (fst st) \<longrightarrow> obj_at (snd st) s = obj_at h s)"

text \<open>
  A finished step: it keeps what was visited, and each object it visited is frozen, with all
  its successors visited.
\<close>

definition settled_at :: "throwers \<Rightarrow> jheap \<Rightarrow> freeze_state \<Rightarrow> nat \<Rightarrow> bool" where
  "settled_at thr h st s \<longleftrightarrow> walkable h s \<and> \<not> isl (shadowed thr h s)
     \<and> (s \<in> set (jkeys (objects h)) \<longrightarrow> obj_at (snd st) s = frozen thr h s)
     \<and> (\<forall>t. JObj t \<in> set (successors thr h s) \<and> walkable h t \<longrightarrow> t \<in> set (fst st))"

definition keeps_visited :: "freeze_state \<Rightarrow> freeze_state \<Rightarrow> bool" where
  "keeps_visited st st' \<longleftrightarrow> set (fst st) \<subseteq> set (fst st') \<and> (\<forall>s \<in> set (fst st). obj_at (snd st') s = obj_at (snd st) s)"

definition finished :: "throwers \<Rightarrow> jheap \<Rightarrow> freeze_state \<Rightarrow> freeze_state \<Rightarrow> bool" where
  "finished thr h st st' \<longleftrightarrow> in_walk h st' \<and> keeps_visited st st'
     \<and> (\<forall>s \<in> set (fst st') - set (fst st). settled_at thr h st' s)"

definition arrived :: "jheap \<Rightarrow> jval \<Rightarrow> freeze_state \<Rightarrow> bool" where
  "arrived h v st \<longleftrightarrow> (\<forall>r. v = JObj r \<and> walkable h r \<longrightarrow> r \<in> set (fst st))"

definition sound_walk :: "throwers \<Rightarrow> jheap \<Rightarrow> jval list \<Rightarrow> freeze_state \<Rightarrow> freeze_state \<Rightarrow> bool" where
  "sound_walk thr h vs st st' \<longleftrightarrow> finished thr h st st' \<and> (\<forall>v \<in> set vs. arrived h v st')
     \<and> (\<forall>s \<in> set (fst st') - set (fst st). \<exists>v \<in> set vs. reaches thr h v s)"

lemma keeps_refl: "keeps_visited st st"
  by (simp add: keeps_visited_def)

lemma keeps_trans: "keeps_visited st st1 \<Longrightarrow> keeps_visited st1 st2 \<Longrightarrow> keeps_visited st st2"
  by (auto simp: keeps_visited_def subset_iff)

lemma settled_keeps: "settled_at thr h st s \<Longrightarrow> keeps_visited st st' \<Longrightarrow> s \<in> set (fst st) \<Longrightarrow> settled_at thr h st' s"
  by (auto simp: settled_at_def keeps_visited_def)

lemma finished_refl: "in_walk h st \<Longrightarrow> finished thr h st st"
  by (simp add: finished_def keeps_refl)

lemma finished_trans:
  assumes "finished thr h st st1" "finished thr h st1 st2"
  shows "finished thr h st st2"
proof -
  have k: "keeps_visited st st1" "keeps_visited st1 st2" using assms by (simp_all add: finished_def)
  have "settled_at thr h st2 s" if s: "s \<in> set (fst st2) - set (fst st)" for s
  proof (cases "s \<in> set (fst st1)")
    case True
    with s assms(1) have "settled_at thr h st1 s" by (simp add: finished_def)
    from settled_keeps[OF this k(2) True] show ?thesis .
  next
    case False
    with s assms(2) show ?thesis by (simp add: finished_def)
  qed
  moreover have "in_walk h st2" using assms(2) by (simp add: finished_def)
  ultimately show ?thesis using keeps_trans[OF k] unfolding finished_def by blast
qed

lemma arrived_keeps: "arrived h v st \<Longrightarrow> keeps_visited st st' \<Longrightarrow> arrived h v st'"
  by (auto simp: arrived_def keeps_visited_def)

lemma freeze_all_sound:
  assumes "\<And>v st st'. deepFreeze_walk thr fuel v st = Some (Inr st') \<Longrightarrow> in_walk h st \<Longrightarrow> sound_walk thr h [v] st st'"
  shows "freeze_all thr fuel vs st = Some (Inr st') \<Longrightarrow> in_walk h st \<Longrightarrow> sound_walk thr h vs st st'"
proof (induction vs arbitrary: st)
  case Nil
  then show ?case by (auto simp: sound_walk_def finished_refl)
next
  case (Cons v vs)
  from Cons.prems(1) obtain st1 where st1: "deepFreeze_walk thr fuel v st = Some (Inr st1)"
      "freeze_all thr fuel vs st1 = Some (Inr st')"
    by (auto split: option.splits sum.splits)
  from assms[OF st1(1) Cons.prems(2)] have 1: "finished thr h st st1" "arrived h v st1"
    "\<forall>s \<in> set (fst st1) - set (fst st). reaches thr h v s" by (simp_all add: sound_walk_def)
  have "in_walk h st1" using 1(1) by (simp add: finished_def)
  from Cons.IH[OF st1(2) this] have 2: "finished thr h st1 st'" "\<forall>v \<in> set vs. arrived h v st'"
    "\<forall>s \<in> set (fst st') - set (fst st1). \<exists>v \<in> set vs. reaches thr h v s" by (simp_all add: sound_walk_def)
  have "arrived h v st'" using arrived_keeps[OF 1(2)] 2(1) by (simp add: finished_def)
  moreover have "\<forall>s \<in> set (fst st') - set (fst st). \<exists>v' \<in> set (v # vs). reaches thr h v' s"
    using 1(3) 2(3) by auto
  ultimately show ?case using finished_trans[OF 1(1) 2(1)] 2(2) by (simp add: sound_walk_def)
qed

text \<open>Updating a visited object.\<close>

lemma in_walk_update:
  assumes "in_walk h (vis, hc)" "r \<in> set vis" "alike_object (obj_at hc r) (f (obj_at hc r))"
  shows "in_walk h (vis, update_object f r hc)"
  using assms alike_trans[OF _ alike_update[where h = hc and f = f and r = r, OF assms(3)], of h] by (auto simp: in_walk_def obj_at_update)

lemma settled_update: "settled_at thr h (vis, hc) s \<Longrightarrow> s \<noteq> r \<Longrightarrow> settled_at thr h (vis, update_object f r hc) s"
  by (auto simp: settled_at_def obj_at_update)

lemma in_walk_object:
  assumes "in_walk h st"
  shows "isView (slot (obj_at (snd st) r)) = isView (slot (obj_at h r))"
    and "collection_vals (snd st) r = collection_vals h r" "mutableBuiltInTag (snd st) r = mutableBuiltInTag h r"
proof -
  from assms have a: "alike h (snd st)" by (simp add: in_walk_def)
  then have sl: "slot (obj_at (snd st) r) = slot (obj_at h r)" by (simp add: alike_def alike_object_def)
  then show "isView (slot (obj_at (snd st) r)) = isView (slot (obj_at h r))" by simp
  show "collection_vals (snd st) r = collection_vals h r" unfolding collection_vals_def alike_tag[OF a] sl ..
  show "mutableBuiltInTag (snd st) r = mutableBuiltInTag h r" by (rule alike_tag[OF a])
qed

lemma walk_step:
  assumes "deepFreeze_walk thr (Suc fuel) (JObj r) (vis, hc) = Some (Inr st')" "walkable h r" "r \<notin> set vis" "in_walk h (vis, hc)"
  obtains v1 h1 x v2 h2 where "freeze_all thr fuel (collection_vals h r) (r # vis, hc) = Some (Inr (v1, h1))"
    "shadow_object thr (mutableBuiltInTag h r) (obj_at h1 r) = Inr x"
    "freeze_all thr fuel (own_vals x) (v1, update_object (\<lambda>_. x) r h1) = Some (Inr (v2, h2))"
    "st' = (v2, update_object freeze_object r h2)"
proof -
  note in_walk_object[OF assms(4), of r, simplified]
  with assms that show thesis
    by (auto split: option.splits sum.splits prod.splits)
qed

lemma walk_object_sound:
  assumes rec: "\<And>vs st st'. freeze_all thr fuel vs st = Some (Inr st') \<Longrightarrow> in_walk h st \<Longrightarrow> sound_walk thr h vs st st'"
    and run: "deepFreeze_walk thr (Suc fuel) (JObj r) (vis, hc) = Some (Inr st')"
    and r: "walkable h r" "r \<notin> set vis" and w: "in_walk h (vis, hc)"
  shows "sound_walk thr h [JObj r] (vis, hc) st'"
proof -
  from run r w obtain v1 h1 x v2 h2 where
    s1: "freeze_all thr fuel (collection_vals h r) (r # vis, hc) = Some (Inr (v1, h1))"
    and sh: "shadow_object thr (mutableBuiltInTag h r) (obj_at h1 r) = Inr x"
    and s2: "freeze_all thr fuel (own_vals x) (v1, update_object (\<lambda>_. x) r h1) = Some (Inr (v2, h2))"
    and st': "st' = (v2, update_object freeze_object r h2)" by (rule walk_step)
  have w0: "in_walk h (r # vis, hc)" using w by (simp add: in_walk_def)
  from rec[OF s1 w0] have f1: "finished thr h (r # vis, hc) (v1, h1)" and a1: "\<forall>v \<in> set (collection_vals h r). arrived h v (v1, h1)"
    and r1: "\<forall>s \<in> set v1 - set (r # vis). \<exists>v \<in> set (collection_vals h r). reaches thr h v s" by (simp_all add: sound_walk_def)
  from f1 have k1: "keeps_visited (r # vis, hc) (v1, h1)" and w1: "in_walk h (v1, h1)" by (simp_all add: finished_def)
  have o1: "obj_at h1 r = obj_at h r" using k1 w r(2) by (simp add: keeps_visited_def in_walk_def)
  with sh have x: "shadowed thr h r = Inr x" by (simp add: shadowed_def)
  let ?st2 = "(v1, update_object (\<lambda>_. x) r h1)"
  have rv: "r \<in> set v1" using k1 by (simp add: keeps_visited_def)
  have w2: "in_walk h ?st2" by (rule in_walk_update[where f = "\<lambda>_. x", OF w1 rv]) (rule alike_shadow[OF sh])
  from rec[OF s2 w2] have f2: "finished thr h ?st2 (v2, h2)" and a2: "\<forall>v \<in> set (own_vals x). arrived h v (v2, h2)"
    and r2: "\<forall>s \<in> set v2 - set v1. \<exists>v \<in> set (own_vals x). reaches thr h v s" by (simp_all add: sound_walk_def)
  from f2 have k2: "keeps_visited ?st2 (v2, h2)" and w3: "in_walk h (v2, h2)" by (simp_all add: finished_def)
  have rv2: "r \<in> set v2" using k2 rv by (auto simp: keeps_visited_def)
  have w': "in_walk h st'" unfolding st' by (rule in_walk_update[where f = freeze_object, OF w3 rv2 alike_freeze])
  have vis: "set vis \<subseteq> set v1" "set v1 \<subseteq> set v2" using k1 k2 by (simp_all add: keeps_visited_def)
  have succ: "successors thr h r = collection_vals h r @ own_vals x" by (simp add: successors_def x)
  have keep: "keeps_visited (vis, hc) st'"
    using k1 k2 r(2) vis by (auto simp: keeps_visited_def st' obj_at_update)
  have settled_r: "settled_at thr h st' r"
  proof -
    have "obj_at h2 r = x" if "r \<in> set (jkeys (objects h))"
    proof -
      have "r \<in> set (jkeys (objects h1))" using that w1 by (simp add: in_walk_def alike_def)
      then show ?thesis using k2 rv by (simp add: keeps_visited_def obj_at_update)
    qed
    moreover have "jkeys (objects h2) = jkeys (objects h)" using w3 by (simp add: in_walk_def alike_def)
    moreover have "t \<in> set v2" if "JObj t \<in> set (successors thr h r)" "walkable h t" for t
      using that a1 a2 vis(2) by (auto simp: succ arrived_def)
    ultimately show ?thesis using r(1) by (simp add: settled_at_def st' obj_at_update frozen_def x)
  qed
  have settled: "settled_at thr h st' s" if "s \<in> set v2 - set vis" for s
  proof (cases "s = r")
    case False
    have "settled_at thr h (v2, h2) s"
    proof (cases "s \<in> set v1")
      case True
      with that False f1 have "settled_at thr h (v1, h1) s" by (simp add: finished_def)
      from settled_keeps[OF settled_update[OF this False] k2] True show ?thesis by simp
    next
      case False
      with that f2 show ?thesis by (simp add: finished_def)
    qed
    with False show ?thesis by (simp add: st' settled_update)
  qed (use settled_r in simp)
  have reach: "reaches thr h (JObj r) s" if "s \<in> set v2 - set vis" for s
  proof (cases "s = r")
    case True
    with r(1) show ?thesis by (simp add: reaches.root)
  next
    case False
    with that r1 r2 obtain u where "u \<in> set (successors thr h r)" "reaches thr h u s" by (auto simp: succ)
    with r(1) show ?thesis by (blast intro: reaches_successor)
  qed
  show ?thesis
    using keep w' settled reach rv2 by (simp add: sound_walk_def finished_def arrived_def st')
qed

lemma walk_sound_freeze:
  "deepFreeze_walk thr fuel v st = Some (Inr st') \<Longrightarrow> in_walk h st \<Longrightarrow> sound_walk thr h [v] st st'"
proof (induction fuel arbitrary: v st st')
  case (Suc fuel)
  obtain vis hc where st: "st = (vis, hc)" by force
  note view = in_walk_object(1)[OF Suc.prems(2), unfolded st snd_conv]
  show ?case
  proof (cases "\<exists>r. v = JObj r \<and> walkable h r \<and> r \<notin> set vis")
    case True
    then obtain r where r: "v = JObj r" "walkable h r" "r \<notin> set vis" by blast
    have "sound_walk thr h [JObj r] (vis, hc) st'"
    proof (rule walk_object_sound[OF _ Suc.prems(1)[unfolded st r(1)] r(2,3) Suc.prems(2)[unfolded st]])
      fix vs st1 st2 assume "freeze_all thr fuel vs st1 = Some (Inr st2)" "in_walk h st1"
      then show "sound_walk thr h vs st1 st2" by (rule freeze_all_sound[rotated]) (rule Suc.IH)
    qed
    then show ?thesis by (simp add: st r(1))
  next
    case False
    with Suc.prems(1) view have "st' = st" by (auto simp: st split: jval.splits if_splits)
    moreover have "arrived h v st" using False by (auto simp: arrived_def st)
    ultimately show ?thesis using Suc.prems(2) by (simp add: sound_walk_def finished_refl)
  qed
qed simp

section \<open>Enough fuel\<close>

definition left_over :: "nat list \<Rightarrow> nat list \<Rightarrow> nat" where
  "left_over rs vis = card (set rs - set vis)"

lemma left_over_mono: "set vis \<subseteq> set vis' \<Longrightarrow> left_over rs vis' \<le> left_over rs vis"
  unfolding left_over_def by (rule card_mono) auto

lemma left_over_Cons: "r \<in> set rs \<Longrightarrow> r \<notin> set vis \<Longrightarrow> left_over rs (r # vis) < left_over rs vis"
  unfolding left_over_def by (rule psubset_card_mono) auto

lemma shadow_vals:
  assumes "shadow_object thr tag x = Inr y" "v \<in> set (own_vals y)"
  shows "v \<in> set (own_vals x) \<or> (\<exists>f. v = JFun f)"
proof -
  have one: "u \<in> set (own_vals z) \<Longrightarrow> u \<in> set (own_vals x) \<or> (\<exists>f. u = JFun f)"
    if "define_shadow f m x = Inr z" for f m x z u
  proof -
    have jset: "set (jset k p ps) \<subseteq> insert (k, p) (set ps)" for k p and ps :: "(jkey \<times> jprop) list"
      by (induction ps) auto
    have "props z = jset (PStr m) (shadow_prop f) (props x)"
      using that by (auto simp: define_shadow_def split: option.splits if_splits)
    with jset have sub: "set (props z) \<subseteq> insert (PStr m, shadow_prop f) (set (props x))" by metis
    assume "u \<in> set (own_vals z)"
    then obtain k p where "(k, p) \<in> set (props z)" "u = pr_value p" by (auto simp: own_vals_def)
    with sub show ?thesis by (auto simp: own_vals_def shadow_prop_def rev_image_eqI)
  qed
  have all: "u \<in> set (own_vals z) \<Longrightarrow> u \<in> set (own_vals x) \<or> (\<exists>f. u = JFun f)"
    if "fold_res (\<lambda>m. define_shadow (thr t m) m) ms x = Inr z" for t ms x z u
    using that
  proof (induction ms arbitrary: x)
    case (Cons m ms)
    then obtain w where "define_shadow (thr t m) m x = Inr w" "fold_res (\<lambda>m. define_shadow (thr t m) m) ms w = Inr z" by auto
    with Cons.IH[of w] Cons.prems(1) one[of "thr t m" m x w] show ?case by blast
  qed simp
  show ?thesis
    using assms all[of "fst (mutators (the tag))" "snd (mutators (the tag))" x y v]
    by (auto simp: shadow_object_def shadowMutators_def split: option.splits if_splits prod.splits)
qed

lemma collection_obj_vals:
  assumes "v \<in> set (collection_vals h r)"
  shows "v \<in> set (obj_vals (obj_at h r))"
proof -
  have "v \<in> set (slot_vals (slot (obj_at h r)))"
  proof (cases "slot (obj_at h r)")
    case (MapSlot es)
    with assms have "v \<in> set (concat (map (\<lambda>(k, v). [k, v]) es))"
      by (simp add: collection_vals_def split: option.splits if_splits)
    with MapSlot show ?thesis by force
  next
    case (SetSlot xs)
    with assms show ?thesis by (simp add: collection_vals_def split: option.splits if_splits)
  qed (use assms in \<open>simp_all add: collection_vals_def split: option.splits\<close>)
  then show "v \<in> set (obj_vals (obj_at h r))" by (simp add: obj_vals_def)
qed

lemma collection_inside: "heap_inside h rs \<Longrightarrow> v \<in> set (collection_vals h r) \<Longrightarrow> inside rs v"
  by (blast intro: obj_at_inside collection_obj_vals)

lemma freeze_all_returns:
  assumes "\<And>v st. left_over rs (fst st) < fuel \<Longrightarrow> in_walk h st \<Longrightarrow> inside rs v \<Longrightarrow> deepFreeze_walk thr fuel v st \<noteq> None"
  shows "left_over rs (fst st) < fuel \<Longrightarrow> in_walk h st \<Longrightarrow> \<forall>v \<in> set vs. inside rs v \<Longrightarrow> freeze_all thr fuel vs st \<noteq> None"
proof (induction vs arbitrary: st)
  case (Cons v vs)
  from assms[OF Cons.prems(1,2)] Cons.prems(3) obtain res where res: "deepFreeze_walk thr fuel v st = Some res" by auto
  show ?case
  proof (cases res)
    case (Inr st1)
    from walk_sound_freeze[OF res[unfolded Inr] Cons.prems(2)] have "in_walk h st1" "set (fst st) \<subseteq> set (fst st1)"
      by (simp_all add: sound_walk_def finished_def keeps_visited_def)
    moreover from this(2) have "left_over rs (fst st1) < fuel" using left_over_mono[of "fst st" "fst st1" rs] Cons.prems(1) by simp
    ultimately show ?thesis using Cons.IH[of st1] Cons.prems(3) res Inr by simp
  qed (use res in simp)
qed simp

lemma walk_returns_freeze:
  assumes h: "heap_inside h rs"
  shows "left_over rs (fst st) < fuel \<Longrightarrow> in_walk h st \<Longrightarrow> inside rs v \<Longrightarrow> deepFreeze_walk thr fuel v st \<noteq> None"
proof (induction fuel arbitrary: v st)
  case (Suc fuel)
  obtain vis hc where st: "st = (vis, hc)" by force
  note obj = in_walk_object[OF Suc.prems(2), unfolded st snd_conv]
  show ?case
  proof (cases "\<exists>r. v = JObj r \<and> walkable h r \<and> r \<notin> set vis")
    case True
    then obtain r where r: "v = JObj r" "walkable h r" "r \<notin> set vis" by blast
    with Suc.prems(3) have "r \<in> set rs" by (simp add: inside_def val_refs_def)
    from left_over_Cons[OF this r(3)] Suc.prems(1) have less: "left_over rs (r # vis) < fuel" by (simp add: st)
    have all: "left_over rs (fst st) < fuel \<Longrightarrow> in_walk h st \<Longrightarrow> \<forall>v \<in> set vs. inside rs v \<Longrightarrow> freeze_all thr fuel vs st \<noteq> None" for st vs
      by (rule freeze_all_returns) (rule Suc.IH)
    have w0: "in_walk h (r # vis, hc)" using Suc.prems(2) by (simp add: in_walk_def st)
    have "freeze_all thr fuel (collection_vals h r) (r # vis, hc) \<noteq> None"
      by (rule all) (use less w0 collection_inside[OF h] in auto)
    then obtain res1 where s1: "freeze_all thr fuel (collection_vals h r) (r # vis, hc) = Some res1" by blast
    show ?thesis
    proof (cases "\<exists>v1 h1 x. res1 = Inr (v1, h1) \<and> shadow_object thr (mutableBuiltInTag h r) (obj_at h1 r) = Inr x")
      case True
      then obtain v1 h1 x where m: "res1 = Inr (v1, h1)" "shadow_object thr (mutableBuiltInTag h r) (obj_at h1 r) = Inr x" by blast
      have "sound_walk thr h (collection_vals h r) (r # vis, hc) (v1, h1)"
        by (rule freeze_all_sound[OF _ s1[unfolded m(1)] w0]) (rule walk_sound_freeze)
      then have k: "keeps_visited (r # vis, hc) (v1, h1)" "in_walk h (v1, h1)" by (simp_all add: sound_walk_def finished_def)
      have o1: "obj_at h1 r = obj_at h r" using k Suc.prems(2) r(3) by (simp add: keeps_visited_def in_walk_def st)
      have rv: "r \<in> set v1" using k(1) by (simp add: keeps_visited_def)
      have w2: "in_walk h (v1, update_object (\<lambda>_. x) r h1)"
        by (rule in_walk_update[where f = "\<lambda>_. x", OF k(2) rv]) (rule alike_shadow[OF m(2)])
      have "left_over rs v1 < fuel"
        using less left_over_mono[of "r # vis" v1 rs] k(1) by (simp add: keeps_visited_def)
      moreover have "\<forall>v \<in> set (own_vals x). inside rs v"
      proof
        fix u assume "u \<in> set (own_vals x)"
        from shadow_vals[OF m(2) this, unfolded o1] show "inside rs u"
          using obj_at_inside[OF h, of u r] by (auto simp: own_vals_def obj_vals_def inside_def val_refs_def)
      qed
      ultimately have "freeze_all thr fuel (own_vals x) (v1, update_object (\<lambda>_. x) r h1) \<noteq> None"
        by (intro all) (use w2 in simp_all)
      then show ?thesis using r s1 m obj by (auto simp: st split: sum.split)
    next
      case False
      with r s1 obj show ?thesis by (auto simp: st split: sum.split)
    qed
  next
    case False
    with obj show ?thesis by (auto simp: st split: jval.split)
  qed
qed simp

lemma deepFreeze_walk_returns: "deepFreeze_walk thr (length (graph_refs h v v) + 1) v ([], h) \<noteq> None"
proof (rule walk_returns_freeze)
  show "heap_inside h (graph_refs h v v)" by (force simp: heap_inside_def inside_def graph_refs_def)
  have "card (set (graph_refs h v v)) \<le> length (graph_refs h v v)" by (rule card_length)
  then show "left_over (graph_refs h v v) (fst ([], h)) < length (graph_refs h v v) + 1" by (simp add: left_over_def)
qed (auto simp: in_walk_def inside_def graph_refs_def)

section \<open>Properties\<close>

definition is_frozen :: "jobj \<Rightarrow> bool" where
  "is_frozen x \<longleftrightarrow> \<not> extensible x
     \<and> list_all (\<lambda>(k, p). \<not> pr_configurable p \<and> (pr_accessor p \<or> \<not> pr_writable p)) (props x)"

lemma freeze_prop_flags [simp]: "\<not> pr_configurable (freeze_prop p)" "pr_accessor (freeze_prop p) = pr_accessor p"
  "pr_writable (freeze_prop p) = (pr_accessor p \<and> pr_writable p)"
  by (simp_all add: freeze_prop_def)

lemma freeze_object_frozen: "is_frozen (freeze_object x)"
  by (auto simp: is_frozen_def freeze_object_def list_all_iff)

text \<open>The effect of a walk that returned, object by object.\<close>

lemma deepFreeze_walked:
  assumes "deepFreeze thr h v = Inr h'"
  obtains visited where "\<And>s. reaches thr h v s \<longleftrightarrow> s \<in> set visited"
    "\<And>s. s \<in> set visited \<Longrightarrow> \<not> isl (shadowed thr h s)"
    "\<And>s. obj_at h' s = (if s \<in> set visited \<and> s \<in> set (jkeys (objects h)) then frozen thr h s else obj_at h s)"
    "alike h h'"
proof -
  from assms obtain visited where run: "deepFreeze_walk thr (length (graph_refs h v v) + 1) v ([], h) = Some (Inr (visited, h'))"
    using deepFreeze_walk_returns[of thr h v] by (auto simp: deepFreeze_def split: option.splits sum.splits prod.splits)
  have start: "in_walk h ([], h)" by (simp add: in_walk_def)
  from walk_sound_freeze[OF run start]
  have f: "in_walk h (visited, h')" "arrived h v (visited, h')" "\<forall>s \<in> set visited. settled_at thr h (visited, h') s"
    "\<forall>s \<in> set visited. reaches thr h v s"
    by (simp_all add: sound_walk_def finished_def)
  have "s \<in> set visited" if "reaches thr h v s" for s
    using that f(2)
  proof (induction rule: reaches.induct)
    case (root r)
    then show ?case by (simp add: arrived_def)
  next
    case (next_object v r s)
    from next_object.IH[OF next_object.prems] f(3) have "settled_at thr h (visited, h') r" by blast
    with next_object.hyps show ?case unfolding settled_at_def by simp
  qed
  with f(4) have 1: "reaches thr h v s \<longleftrightarrow> s \<in> set visited" for s by blast
  have 2: "obj_at h' s = (if s \<in> set visited \<and> s \<in> set (jkeys (objects h)) then frozen thr h s else obj_at h s)" for s
  proof (cases "s \<in> set visited \<and> s \<in> set (jkeys (objects h))")
    case True
    with f(3) show ?thesis by (simp add: settled_at_def)
  next
    case False
    have "obj_at h' s = obj_at h s" if "s \<notin> set (jkeys (objects h))"
    proof -
      have "jkeys (objects h') = jkeys (objects h)" using f(1) by (simp add: in_walk_def alike_def)
      then have "set (jkeys (objects h')) = set (jkeys (objects h))" by metis
      with that have "s \<notin> set (jkeys (objects h'))" by (simp del: set_map)
      with that have "jget (objects h') s = None" "jget (objects h) s = None" by (simp_all add: map_of_eq_None_iff)
      then show ?thesis by (simp add: obj_at_def)
    qed
    with False f(1) show ?thesis by (auto simp: in_walk_def)
  qed
  have 3: "\<not> isl (shadowed thr h s)" if "s \<in> set visited" for s using f(3) that by (simp add: settled_at_def)
  have "alike h h'" using f(1) by (simp add: in_walk_def)
  with 1 3 2 show thesis by (rule that)
qed

lemma deepFreeze_effect:
  assumes "deepFreeze thr h v = Inr h'"
  shows "reaches thr h v s \<Longrightarrow> \<not> isl (shadowed thr h s)"
    "obj_at h' s = (if reaches thr h v s \<and> s \<in> set (jkeys (objects h)) then frozen thr h s else obj_at h s)"
    "alike h h'"
  by (rule deepFreeze_walked[OF assms]; simp)+

lemma frozen_reached: "\<not> isl (shadowed thr h s) \<Longrightarrow> is_frozen (frozen thr h s)"
  by (auto simp: frozen_def freeze_object_frozen split: sum.split)


text \<open>
  C29. \<open>deepFreeze\<close> ends on every graph: the walk of its model never runs out of its fuel, one
  more than the number of objects the graph refers to.
\<close>

theorem deepFreeze_returns:
  "\<exists>res. deepFreeze_walk thr (length (graph_refs h v v) + 1) v ([], h) = Some res"
  using deepFreeze_walk_returns by blast

text \<open>A frozen map that holds itself, and a date.\<close>

definition ex_throwers :: throwers where
  "ex_throwers typeName method = length typeName + length method"

definition ex_graph :: jheap where
  "ex_graph = \<lparr>objects = [
     (0, ex_object [(PStr ''m'', ex_data (JObj 1)), (PStr ''d'', ex_data (JObj 2))]),
     (1, \<lparr>slot = MapSlot [(JStr ''k'', JObj 0)], prototype = Some 3, props = [], extensible = True\<rparr>),
     (2, \<lparr>slot = DateSlot (Num 0), prototype = None, props = [], extensible = True\<rparr>),
     (3, ex_object [(toStringTag, ex_data (JStr ''Map''))])],
     funs = [], intrinsic_sources = []\<rparr>"

definition ex_frozen :: jheap where
  "ex_frozen = (case deepFreeze ex_throwers ex_graph (JObj 0) of Inr h \<Rightarrow> h | Inl _ \<Rightarrow> ex_graph)"


end
