(* ===== verification/Value_Object.thy ===== *)
theory Value_Object
  imports Deep_Freeze
begin

text \<open>
  Value objects (src/value-object/value-object.ts): the copy \<open>vo\<close> takes of its input
  (\<open>cloneForVo\<close>), frozen by \<open>deepFreeze\<close>, the equality and validation helpers and the
  \<open>ValueObject\<close> base class. New objects get the intrinsic prototypes of the running realm.
  \<open>structuredClone\<close> of a date, a regular expression or a wrapper is a new object with the
  same slot and no own properties. Fuel bounds the recursion depth of the copy by the number
  of objects, since every level copies a new one.
\<close>

section \<open>The copy\<close>

type_synonym realm = "string \<Rightarrow> nat"

definition new_object :: "realm \<Rightarrow> string \<Rightarrow> jslot \<Rightarrow> jobj" where
  "new_object realm name s = \<lparr>slot = s, prototype = Some (realm name), props = [], extensible = True\<rparr>"

definition fresh_ref :: "jheap \<Rightarrow> nat" where
  "fresh_ref h = Suc (foldr max (jkeys (objects h)) 0)"

definition allocate :: "jobj \<Rightarrow> jheap \<Rightarrow> nat \<times> jheap" where
  "allocate x h = (fresh_ref h, h\<lparr>objects := objects h @ [(fresh_ref h, x)]\<rparr>)"

text \<open>
  A step of the copy of one object: a value to copy, and what to do to the new object with
  the copy; or a throw.
\<close>

type_synonym clone_step = "(js_error, jval \<times> (jval \<Rightarrow> jobj \<Rightarrow> jobj)) res"

definition put_prop :: "jkey \<Rightarrow> jprop \<Rightarrow> jobj \<Rightarrow> jobj" where
  "put_prop k p x = x\<lparr>props := jset k p (props x)\<rparr>"

definition plain_prop :: "jprop \<Rightarrow> jval \<Rightarrow> jprop" where
  "plain_prop p v = \<lparr>pr_value = v, pr_accessor = False, pr_writable = True, pr_enumerable = pr_enumerable p, pr_configurable = True\<rparr>"

definition prop_step :: "(jprop \<Rightarrow> jval \<Rightarrow> jprop) \<Rightarrow> jkey \<times> jprop \<Rightarrow> clone_step list" where
  "prop_step describe kp = (case kp of (k, p) \<Rightarrow>
     if pr_accessor p then [Inl typeError]
     else if is_string_key k \<and> \<not> pr_enumerable p then []
     else [Inr (pr_value p, \<lambda>v. put_prop k (describe p v))])"

definition put_entry :: "jval \<Rightarrow> jval \<Rightarrow> jobj \<Rightarrow> jobj" where
  "put_entry k v x = (case slot x of MapSlot es \<Rightarrow> x\<lparr>slot := MapSlot (jset k v es)\<rparr> | _ \<Rightarrow> x)"

definition entry_step :: "jval \<times> jval \<Rightarrow> clone_step" where
  "entry_step kv = (case kv of (k, v) \<Rightarrow>
     if \<not> isPrimitiveValue k then Inl typeError else Inr (v, put_entry k))"

definition map_entries :: "jslot \<Rightarrow> (jval \<times> jval) list" where
  "map_entries s = (case s of MapSlot es \<Rightarrow> es | _ \<Rightarrow> [])"

definition set_members :: "jslot \<Rightarrow> jval list" where
  "set_members s = (case s of SetSlot xs \<Rightarrow> xs | _ \<Rightarrow> [])"

text \<open>\<open>structuredClone\<close> keeps the slot; a regular expression starts over.\<close>

definition structured_slot :: "jslot \<Rightarrow> jslot" where
  "structured_slot s = (case s of RegExpSlot e f n \<Rightarrow> RegExpSlot e f 0 | _ \<Rightarrow> s)"

definition scan_state :: "jslot \<Rightarrow> bool" where
  "scan_state s \<longleftrightarrow> (case s of RegExpSlot e f n \<Rightarrow> CHR ''g'' \<in> set f \<or> CHR ''y'' \<in> set f | _ \<Rightarrow> False)"

definition clone_built_in :: "realm \<Rightarrow> jslot \<Rightarrow> string \<Rightarrow> (js_error, jobj \<times> clone_step list) res" where
  "clone_built_in realm s tag =
     (if tag = bracketed ''Map'' then Inr (new_object realm ''Map'' (MapSlot []), map entry_step (map_entries s))
      else if tag = bracketed ''Set'' then
        (if list_all isPrimitiveValue (set_members s) then Inr (new_object realm ''Set'' (SetSlot (set_members s)), [])
         else Inl typeError)
      else if tag \<in> set (map bracketed [''Promise'', ''WeakMap'', ''WeakSet'', ''Error'', ''ArrayBuffer'', ''SharedArrayBuffer''])
      then Inl typeError
      else if tag = bracketed ''RegExp'' \<and> scan_state s then Inl typeError
      else Inr (new_object realm (slot_brand s) (structured_slot s), []))"

definition clone_plan :: "realm \<Rightarrow> jheap \<Rightarrow> nat \<Rightarrow> (js_error, jobj \<times> clone_step list) res" where
  "clone_plan realm h r =
     (let x = obj_at h r
      in case array_length (slot x) of
        Some n \<Rightarrow>
          if \<not> hasIntrinsicPrototypeChain h r (Some ''Array'') then Inl typeError
          else Inr (new_object realm ''Array'' (ArraySlot n),
                    concat (map (prop_step (\<lambda>p v. p\<lparr>pr_value := v\<rparr>)) (props x)))
      | None \<Rightarrow> (case builtInTagWithoutInvokingAccessors h r of
          Some tag \<Rightarrow> if \<not> hasIntrinsicPrototypeChain h r None then Inl typeError else clone_built_in realm (slot x) tag
        | None \<Rightarrow>
            if (case prototype x of None \<Rightarrow> False | Some p \<Rightarrow>
                  \<not> isIntrinsicConstructorPrototype h p (Some ''Object'') \<or> prototype (obj_at h p) \<noteq> None)
            then Inl typeError
            else Inr (\<lparr>slot = Ordinary, prototype = map_option (\<lambda>_. realm ''Object'') (prototype x), props = [], extensible = True\<rparr>,
                      concat (map (prop_step plain_prop) (props x)))))"

type_synonym clone_state = "(nat \<times> nat) list \<times> jheap"

fun cloneForVo :: "realm \<Rightarrow> nat \<Rightarrow> jval \<Rightarrow> clone_state \<Rightarrow> (js_error, jval \<times> clone_state) res option"
  and clone_steps :: "realm \<Rightarrow> nat \<Rightarrow> nat \<Rightarrow> clone_step list \<Rightarrow> clone_state \<Rightarrow> (js_error, clone_state) res option" where
  "cloneForVo realm 0 v st = None"
| "cloneForVo realm (Suc fuel) v (visited, h) =
     (case v of
        JFun _ \<Rightarrow> Some (Inl typeError)
      | JObj r \<Rightarrow>
          if isView (slot (obj_at h r)) then Some (Inl typeError)
          else (case map_of visited r of
              Some c \<Rightarrow> Some (Inr (JObj c, visited, h))
            | None \<Rightarrow> (case clone_plan realm h r of
                Inl e \<Rightarrow> Some (Inl e)
              | Inr (x, steps) \<Rightarrow> (case allocate x h of (c, h1) \<Rightarrow>
                  (case clone_steps realm fuel c steps ((r, c) # visited, h1) of
                     Some (Inr st) \<Rightarrow> Some (Inr (JObj c, st))
                   | Some (Inl e) \<Rightarrow> Some (Inl e)
                   | None \<Rightarrow> None))))
      | _ \<Rightarrow> Some (Inr (v, visited, h)))"
| "clone_steps realm fuel c [] st = Some (Inr st)"
| "clone_steps realm fuel c (Inl e # steps) st = Some (Inl e)"
| "clone_steps realm fuel c (Inr (v, put) # steps) st =
     (case cloneForVo realm fuel v st of
        Some (Inr (v', visited, h)) \<Rightarrow> clone_steps realm fuel c steps (visited, update_object (put v') c h)
      | Some (Inl e) \<Rightarrow> Some (Inl e)
      | None \<Rightarrow> None)"

definition clone :: "realm \<Rightarrow> jheap \<Rightarrow> jval \<Rightarrow> (js_error, jval \<times> jheap) res" where
  "clone realm h v = (case cloneForVo realm (length (graph_refs h v v) + 1) v ([], h) of
     Some (Inr (v', visited, h')) \<Rightarrow> Inr (v', h') | Some (Inl e) \<Rightarrow> Inl e | None \<Rightarrow> Inl rangeError)"

section \<open>Value objects\<close>

definition vo :: "realm \<Rightarrow> throwers \<Rightarrow> jval \<Rightarrow> jheap \<Rightarrow> (js_error, jval \<times> jheap) res" where
  "vo realm thr t h = rbind (clone realm h t) (\<lambda>(v, h1). rbind (deepFreeze thr h1 v) (\<lambda>h2. Inr (v, h2)))"

definition voEquals :: "jheap \<Rightarrow> jval \<Rightarrow> jval \<Rightarrow> (js_error, bool) res" where
  "voEquals h a b = deepEqual h a b"

text \<open>\<open>voWithValidation\<close>: an error value when the validation answers false, not a throw.\<close>

definition voWithValidation :: "realm \<Rightarrow> throwers \<Rightarrow> jval \<Rightarrow> (jheap \<Rightarrow> jval \<Rightarrow> (js_error, bool) res) \<Rightarrow> string option
    \<Rightarrow> (jval \<Rightarrow> string) \<Rightarrow> jheap \<Rightarrow> (js_error, string + jval \<times> jheap) res" where
  "voWithValidation realm thr t validate errorMessage describeValue h =
     rbind (validate h t) (\<lambda>valid.
       if \<not> valid
       then Inr (Inl (case errorMessage of Some m \<Rightarrow> m
              | None \<Rightarrow> ''Validation failed for value object: '' @ describeValue t))
       else rbind (vo realm thr t h) (\<lambda>r. Inr (Inr r)))"

record vo_instance =
  vi_constructor :: nat
  vi_props :: jval

definition new_value_object :: "realm \<Rightarrow> throwers \<Rightarrow> (nat \<Rightarrow> jheap \<Rightarrow> jval \<Rightarrow> (js_error, unit) res) \<Rightarrow> nat \<Rightarrow> jval \<Rightarrow> jheap
    \<Rightarrow> (js_error, vo_instance \<times> jheap) res" where
  "new_value_object realm thr validate cls given h =
     rbind (validate cls h given) (\<lambda>_. rbind (vo realm thr given h) (\<lambda>(v, h').
       Inr (\<lparr>vi_constructor = cls, vi_props = v\<rparr>, h')))"

definition vo_equals :: "jheap \<Rightarrow> vo_instance \<Rightarrow> vo_instance option \<Rightarrow> (js_error, bool) res" where
  "vo_equals h a other = (case other of
     None \<Rightarrow> Inr False
   | Some b \<Rightarrow> if vi_constructor a \<noteq> vi_constructor b then Inr False else deepEqual h (vi_props a) (vi_props b))"

text \<open>
  \<open>clone(props)\<close> merges the own enumerable properties of both, the second winning, then adds
  the non-enumerable ones of the first that the second does not own.
\<close>

definition spread :: "jheap \<Rightarrow> jval \<Rightarrow> (jkey \<times> jprop) list" where
  "spread h v = (case v of JObj r \<Rightarrow> filter (\<lambda>(k, p). pr_enumerable p) (props (obj_at h r)) | _ \<Rightarrow> [])"

definition merged_props :: "jheap \<Rightarrow> jval \<Rightarrow> jval option \<Rightarrow> (jkey \<times> jprop) list" where
  "merged_props h old new =
     (let given = (case new of Some v \<Rightarrow> v | None \<Rightarrow> JUndef);
          enumerable_part = fold (\<lambda>(k, p). jset k (plain_prop p (pr_value p))) (spread h old @ spread h given) [];
          owned = (case given of JObj r \<Rightarrow> ownKeys h r | _ \<Rightarrow> []);
          hidden = (case old of JObj r \<Rightarrow> filter (\<lambda>(k, p). \<not> pr_enumerable p \<and> k \<notin> set owned) (props (obj_at h r)) | _ \<Rightarrow> [])
      in fold (\<lambda>(k, p). jset k (plain_prop p (pr_value p))) hidden enumerable_part)"

definition vo_clone :: "realm \<Rightarrow> throwers \<Rightarrow> (nat \<Rightarrow> jheap \<Rightarrow> jval \<Rightarrow> (js_error, unit) res) \<Rightarrow> vo_instance \<Rightarrow> jval option \<Rightarrow> jheap
    \<Rightarrow> (js_error, vo_instance \<times> jheap) res" where
  "vo_clone realm thr validate a changes h =
     (case allocate \<lparr>slot = Ordinary, prototype = Some (realm ''Object''), props = merged_props h (vi_props a) changes, extensible = True\<rparr> h of
        (m, h1) \<Rightarrow> new_value_object realm thr validate (vi_constructor a) (JObj m) h1)"

definition vo_toJSON :: "vo_instance \<Rightarrow> jval" where
  "vo_toJSON a = vi_props a"

section \<open>The copy is apart from its input\<close>

text \<open>
  A heap grown out of \<open>h0\<close> by a copy: the objects of \<open>h0\<close> are as they were, and the new ones
  hold no functions and refer to new ones only.
\<close>

definition heap_refs :: "jheap \<Rightarrow> nat set" where
  "heap_refs h = set (jkeys (objects h))"

definition new_refs :: "jheap \<Rightarrow> jheap \<Rightarrow> nat set" where
  "new_refs h0 h = heap_refs h - heap_refs h0"

definition detached :: "nat set \<Rightarrow> jval \<Rightarrow> bool" where
  "detached N v \<longleftrightarrow> (case v of JObj r \<Rightarrow> r \<in> N | JFun _ \<Rightarrow> False | _ \<Rightarrow> True)"

definition apart :: "jheap \<Rightarrow> clone_state \<Rightarrow> bool" where
  "apart h0 st \<longleftrightarrow> heap_refs h0 \<subseteq> heap_refs (snd st) \<and> (\<forall>r \<in> heap_refs h0. obj_at (snd st) r = obj_at h0 r)
     \<and> (\<forall>(r, c) \<in> set (fst st). c \<in> new_refs h0 (snd st))
     \<and> (\<forall>c \<in> new_refs h0 (snd st). walkable (snd st) c
          \<and> (\<forall>v \<in> set (obj_vals (obj_at (snd st) c)). detached (new_refs h0 (snd st)) v))"

text \<open>What a step may do to the new object: it adds at most the copied value and primitives.\<close>

definition tame :: "(jval \<Rightarrow> jobj \<Rightarrow> jobj) \<Rightarrow> bool" where
  "tame put \<longleftrightarrow> (\<forall>v x. isView (slot (put v x)) = isView (slot x)
     \<and> (\<forall>u \<in> set (obj_vals (put v x)). u \<in> set (obj_vals x) \<or> u = v \<or> isPrimitiveValue u))"

definition tame_step :: "clone_step \<Rightarrow> bool" where
  "tame_step s \<longleftrightarrow> (case s of Inl _ \<Rightarrow> True | Inr (v, put) \<Rightarrow> tame put)"

lemma set_jset: "set (jset k v m) \<subseteq> insert (k, v) (set m)"
  by (induction m) auto

lemma tame_put_prop:
  assumes "\<And>v. pr_value (f v) = v"
  shows "tame (\<lambda>v. put_prop k (f v))"
  unfolding tame_def
proof (intro allI conjI ballI)
  show "isView (slot (put_prop k (f v) x)) = isView (slot x)" for v x by (simp add: put_prop_def)
next
  fix v x u assume "u \<in> set (obj_vals (put_prop k (f v) x))"
  then consider (own) q where "q \<in> set (jset k (f v) (props x))" "u = pr_value (snd q)" | (slot) "u \<in> set (slot_vals (slot x))"
    by (auto simp: obj_vals_def put_prop_def)
  then show "u \<in> set (obj_vals x) \<or> u = v \<or> isPrimitiveValue u"
  proof cases
    case own
    with set_jset[of k "f v" "props x"] have "q = (k, f v) \<or> q \<in> set (props x)" by blast
    with own assms show ?thesis by (auto simp: obj_vals_def)
  qed (simp add: obj_vals_def)
qed

lemma tame_put_entry:
  assumes "isPrimitiveValue k"
  shows "tame (put_entry k)"
  unfolding tame_def
proof (intro allI conjI ballI)
  show "isView (slot (put_entry k v x)) = isView (slot x)" for v x by (simp add: put_entry_def split: jslot.split)
next
  fix v x u assume u: "u \<in> set (obj_vals (put_entry k v x))"
  show "u \<in> set (obj_vals x) \<or> u = v \<or> isPrimitiveValue u"
  proof (cases "slot x")
    case (MapSlot es)
    with u consider (own) "u \<in> pr_value ` snd ` set (props x)" | (entry) q where "q \<in> set (jset k v es)" "u = fst q \<or> u = snd q"
      by (auto simp: obj_vals_def put_entry_def)
    then show ?thesis
    proof cases
      case entry
      with set_jset[of k v es] have "q = (k, v) \<or> q \<in> set es" by blast
      with entry assms MapSlot show ?thesis by (auto simp: obj_vals_def)
    qed (auto simp: obj_vals_def)
  qed (use u in \<open>simp_all add: put_entry_def\<close>)
qed

lemma built_in_tag_brand:
  assumes "builtInTagWithoutInvokingAccessors h r = Some tag" "walkable h r"
  shows "tag \<in> {bracketed ''Promise'', bracketed ''Error''} \<or> tag = bracketed (slot_brand (slot (obj_at h r)))"
proof -
  have brand: "tag \<in> {bracketed ''Promise'', bracketed ''Error''} \<or> tag = bracketed (slot_brand (slot (obj_at h r)))"
    if "hasBrand h r tag" for tag
    using that by (auto simp: hasBrand_def split: if_splits)
  have from_brand: "tag \<in> {bracketed ''Promise'', bracketed ''Error''} \<or> tag = bracketed (slot_brand (slot (obj_at h r)))"
    if "builtInTagFromBrand h r = Some tag"
  proof (cases "filter (hasBrand h r) (map bracketed PROBED_BRANDS)")
    case Nil
    with that show ?thesis by (simp add: builtInTagFromBrand_def split: if_splits)
  next
    case (Cons t ts)
    then have "t \<in> set (filter (hasBrand h r) (map bracketed PROBED_BRANDS))" by simp
    then have "hasBrand h r t" by simp
    moreover from that Cons have "tag = t" by (simp add: builtInTagFromBrand_def)
    ultimately show ?thesis using brand by blast
  qed
  from assms brand from_brand show ?thesis
    by (auto simp: builtInTagWithoutInvokingAccessors_def Let_def split: option.splits if_splits)
qed

lemma clone_built_in_tame:
  assumes c: "clone_built_in realm s tag = Inr (x, steps)"
    and tag: "tag \<in> {bracketed ''Promise'', bracketed ''Error''} \<or> tag = bracketed (slot_brand s)"
    and w: "\<not> isView s"
  shows "(\<forall>s \<in> set steps. tame_step s) \<and> (\<forall>u \<in> set (obj_vals x). isPrimitiveValue u) \<and> \<not> isView (slot x)"
proof -
  have e: "\<forall>s \<in> set (map entry_step es). tame_step s" for es
    using tame_put_entry by (auto simp: entry_step_def tame_step_def split: prod.splits)
  consider (maps) "tag = bracketed ''Map''" | (sets) "tag = bracketed ''Set''"
    | (other) "tag \<noteq> bracketed ''Map''" "tag \<noteq> bracketed ''Set''" by blast
  then show ?thesis
  proof cases
    case maps
    with c e show ?thesis by (auto simp: clone_built_in_def new_object_def obj_vals_def)
  next
    case sets
    with c show ?thesis by (auto simp: clone_built_in_def new_object_def obj_vals_def list_all_iff split: if_splits)
  next
    case other
    with c have x: "x = new_object realm (slot_brand s) (structured_slot s)" "steps = []"
      "tag \<notin> {bracketed ''Promise'', bracketed ''Error''}"
      by (auto simp: clone_built_in_def split: if_splits)
    with tag other have "slot_brand s \<noteq> ''Map''" "slot_brand s \<noteq> ''Set''" by auto
    then have "slot_vals (structured_slot s) = []" by (cases s) (simp_all add: structured_slot_def)
    moreover from w have "\<not> isView (structured_slot s)" by (cases s) (simp_all add: structured_slot_def)
    ultimately show ?thesis using x by (simp add: new_object_def obj_vals_def)
  qed
qed

lemma prop_steps_tame:
  assumes "\<And>p v. pr_value (f p v) = v"
  shows "\<forall>s \<in> set (concat (map (prop_step f) ps)). tame_step s"
  using tame_put_prop[of "f _"] assms by (auto simp: prop_step_def tame_step_def split: if_splits)

lemma clone_plan_tame:
  assumes c: "clone_plan realm h r = Inr (x, steps)" and w: "walkable h r"
  shows "(\<forall>s \<in> set steps. tame_step s) \<and> (\<forall>u \<in> set (obj_vals x). isPrimitiveValue u) \<and> \<not> isView (slot x)"
proof (cases "array_length (slot (obj_at h r))")
  case (Some n)
  with c prop_steps_tame[of "\<lambda>p v. p\<lparr>pr_value := v\<rparr>"] show ?thesis
    by (auto simp: clone_plan_def Let_def new_object_def obj_vals_def split: if_splits)
next
  case None
  show ?thesis
  proof (cases "builtInTagWithoutInvokingAccessors h r")
    case (Some tag)
    with c None have "clone_built_in realm (slot (obj_at h r)) tag = Inr (x, steps)"
      by (simp add: clone_plan_def Let_def split: if_splits)
    then show ?thesis by (rule clone_built_in_tame) (rule built_in_tag_brand[OF Some w], rule w)
  next
    case none: None
    with c None prop_steps_tame[of plain_prop] show ?thesis
      by (auto simp: clone_plan_def Let_def obj_vals_def plain_prop_def split: if_splits)
  qed
qed

lemma fresh_ref_fresh: "fresh_ref h \<notin> heap_refs h"
proof -
  have "r \<le> foldr max rs 0" if "r \<in> set rs" for r :: nat and rs
    using that by (induction rs) auto
  then show ?thesis unfolding fresh_ref_def heap_refs_def by (meson Suc_n_not_le_n)
qed

lemma obj_at_absent: "r \<notin> heap_refs h \<Longrightarrow> jget (objects h) r = None"
  by (simp add: heap_refs_def map_of_eq_None_iff)

lemma allocate_heap:
  assumes "allocate x h = (c, h1)"
  shows "c \<notin> heap_refs h" "heap_refs h1 = insert c (heap_refs h)" "obj_at h1 s = (if s = c then x else obj_at h s)"
proof -
  have c: "c = fresh_ref h" "h1 = h\<lparr>objects := objects h @ [(c, x)]\<rparr>" using assms by (auto simp: allocate_def)
  show n: "c \<notin> heap_refs h" using c(1) fresh_ref_fresh by simp
  show "heap_refs h1 = insert c (heap_refs h)" by (simp add: c(2) heap_refs_def)
  show "obj_at h1 s = (if s = c then x else obj_at h s)"
    using obj_at_absent[OF n] by (auto simp: obj_at_def c(2) map_add_def split: option.split)
qed

lemma update_refs [simp]: "heap_refs (update_object f r h) = heap_refs h"
  unfolding heap_refs_def by simp

lemma detached_mono: "detached N v \<Longrightarrow> N \<subseteq> M \<Longrightarrow> detached M v"
  by (auto simp: detached_def split: jval.splits)

lemma detached_primitive: "isPrimitiveValue v \<Longrightarrow> detached N v"
  by (auto simp: detached_def isPrimitiveValue_def split: jval.splits)

definition grows :: "clone_state \<Rightarrow> clone_state \<Rightarrow> bool" where
  "grows st st' \<longleftrightarrow> heap_refs (snd st) \<subseteq> heap_refs (snd st')"

lemma new_refs_mono: "grows st st' \<Longrightarrow> new_refs h0 (snd st) \<subseteq> new_refs h0 (snd st')"
  by (auto simp: grows_def new_refs_def)

lemma apart_update:
  assumes a: "apart h0 (vis, h)" and c: "c \<in> new_refs h0 h" and t: "tame put" and d: "detached (new_refs h0 h) v"
  shows "apart h0 (vis, update_object (put v) c h)"
proof -
  let ?h = "update_object (put v) c h"
  have n: "new_refs h0 ?h = new_refs h0 h" by (simp add: new_refs_def)
  have ck: "c \<notin> heap_refs h0" "c \<in> set (jkeys (objects h))" using c by (simp_all add: new_refs_def heap_refs_def)
  have old: "\<forall>r \<in> heap_refs h0. obj_at ?h r = obj_at h0 r"
    using a ck(1) by (auto simp: apart_def obj_at_update)
  have vals: "\<forall>u \<in> set (obj_vals (obj_at ?h e)). detached (new_refs h0 h) u" if e: "e \<in> new_refs h0 h" for e
  proof
    fix u assume u: "u \<in> set (obj_vals (obj_at ?h e))"
    have stay: "\<forall>u \<in> set (obj_vals (obj_at h e)). detached (new_refs h0 h) u" using a e by (simp add: apart_def)
    show "detached (new_refs h0 h) u"
    proof (cases "e = c")
      case True
      with u ck(2) have "u \<in> set (obj_vals (put v (obj_at h c)))" by (simp add: obj_at_update)
      with t have "u \<in> set (obj_vals (obj_at h c)) \<or> u = v \<or> isPrimitiveValue u" by (simp add: tame_def)
      with stay d True detached_primitive show ?thesis by blast
    next
      case False
      with u have "u \<in> set (obj_vals (obj_at h e))" by (simp add: obj_at_update)
      with stay show ?thesis by blast
    qed
  qed
  have "walkable ?h e" if "e \<in> new_refs h0 h" for e using a t that by (auto simp: apart_def obj_at_update tame_def)
  with a old vals show ?thesis by (simp add: apart_def n)
qed

lemma apart_allocate:
  assumes a: "apart h0 (vis, h)" and al: "allocate x h = (c, h1)" and x: "\<forall>u \<in> set (obj_vals x). isPrimitiveValue u" "\<not> isView (slot x)"
  shows "apart h0 ((r, c) # vis, h1) \<and> c \<in> new_refs h0 h1"
proof -
  note h1 = allocate_heap[OF al]
  have k: "heap_refs h0 \<subseteq> heap_refs h" using a by (simp add: apart_def)
  with h1(1) have c0: "c \<notin> heap_refs h0" by blast
  have n: "new_refs h0 h1 = insert c (new_refs h0 h)" using c0 by (auto simp: new_refs_def h1(2))
  have "\<forall>u \<in> set (obj_vals (obj_at h1 e)). detached (new_refs h0 h1) u" if e: "e \<in> new_refs h0 h1" for e
  proof (cases "e = c")
    case True
    with x(1) detached_primitive show ?thesis by (simp add: h1(3))
  next
    case False
    with e a have "\<forall>u \<in> set (obj_vals (obj_at h e)). detached (new_refs h0 h) u" by (simp add: apart_def n)
    with False show ?thesis using detached_mono[of "new_refs h0 h" _ "new_refs h0 h1"] by (auto simp: h1(3) n)
  qed
  moreover have "\<forall>e \<in> new_refs h0 h1. walkable h1 e" using a x(2) by (auto simp: apart_def n h1(3))
  moreover have "\<forall>s \<in> heap_refs h0. obj_at h1 s = obj_at h0 s" using a c0 by (auto simp: apart_def h1(3))
  moreover have "\<forall>(r, c) \<in> set vis. c \<in> new_refs h0 h" using a by (simp add: apart_def)
  ultimately show ?thesis using k by (auto simp: apart_def h1(2) n)
qed

lemma clone_steps_apart:
  assumes rec: "\<And>v st v' st'. cloneForVo realm fuel v st = Some (Inr (v', st')) \<Longrightarrow> apart h0 st
      \<Longrightarrow> apart h0 st' \<and> grows st st' \<and> detached (new_refs h0 (snd st')) v'"
  shows "clone_steps realm fuel c steps st = Some (Inr st') \<Longrightarrow> apart h0 st \<Longrightarrow> c \<in> new_refs h0 (snd st)
    \<Longrightarrow> \<forall>s \<in> set steps. tame_step s \<Longrightarrow> apart h0 st' \<and> grows st st'"
proof (induction steps arbitrary: st)
  case Nil
  then show ?case by (simp add: grows_def)
next
  case (Cons s steps)
  show ?case
  proof (cases s)
    case (Inl e)
    with Cons.prems show ?thesis by simp
  next
    case (Inr vp)
    obtain v put where vp: "vp = (v, put)" by force
    from Cons.prems(1) Inr vp obtain v' vis h where
      r: "cloneForVo realm fuel v st = Some (Inr (v', vis, h))"
        "clone_steps realm fuel c steps (vis, update_object (put v') c h) = Some (Inr st')"
      by (auto split: option.splits sum.splits)
    from rec[OF r(1) Cons.prems(2)] have k: "apart h0 (vis, h)" "grows st (vis, h)" "detached (new_refs h0 h) v'" by simp_all
    have c: "c \<in> new_refs h0 h" using new_refs_mono[OF k(2)] Cons.prems(3) by auto
    have t: "tame put" "\<forall>s \<in> set steps. tame_step s" using Cons.prems(4) Inr vp by (simp_all add: tame_step_def)
    let ?st = "(vis, update_object (put v') c h)"
    have "apart h0 ?st" by (rule apart_update[OF k(1) c t(1) k(3)])
    moreover have "c \<in> new_refs h0 (snd ?st)" using c by (simp add: new_refs_def)
    ultimately have "apart h0 st' \<and> grows ?st st'" using Cons.IH[OF r(2)] t(2) by blast
    with k(2) show ?thesis by (auto simp: grows_def)
  qed
qed

lemma cloneForVo_apart:
  "cloneForVo realm fuel v st = Some (Inr (v', st')) \<Longrightarrow> apart h0 st
    \<Longrightarrow> apart h0 st' \<and> grows st st' \<and> detached (new_refs h0 (snd st')) v'"
proof (induction fuel arbitrary: v st v' st')
  case (Suc fuel)
  obtain vis h where st: "st = (vis, h)" by force
  show ?case
  proof (cases "\<exists>r. v = JObj r \<and> map_of vis r = None")
    case True
    then obtain r where r: "v = JObj r" "map_of vis r = None" by blast
    from Suc.prems(1) r obtain x steps c h1 where w: "walkable h r" and plan: "clone_plan realm h r = Inr (x, steps)"
      and al: "allocate x h = (c, h1)"
      and run: "clone_steps realm fuel c steps ((r, c) # vis, h1) = Some (Inr st')" and v': "v' = JObj c"
      by (auto simp: st split: if_splits sum.splits prod.splits option.splits)
    from clone_plan_tame[OF plan w] have t: "\<forall>s \<in> set steps. tame_step s" "\<forall>u \<in> set (obj_vals x). isPrimitiveValue u" "\<not> isView (slot x)" by blast+
    from apart_allocate[OF _ al t(2,3), of h0 vis r] Suc.prems(2) have a: "apart h0 ((r, c) # vis, h1)" "c \<in> new_refs h0 h1"
      by (simp_all add: st)
    have "apart h0 st' \<and> grows ((r, c) # vis, h1) st'"
      by (rule clone_steps_apart[OF _ run a(1)]) (use a(2) t(1) in \<open>auto dest: Suc.IH\<close>)
    with a(2) v' allocate_heap(2)[OF al] new_refs_mono[of "((r, c) # vis, h1)" st' h0] show ?thesis
      by (auto simp: grows_def st detached_def)
  next
    case False
    show ?thesis
    proof (cases "\<exists>r c. v = JObj r \<and> map_of vis r = Some c")
      case True
      then obtain r c where r: "v = JObj r" "map_of vis r = Some c" by blast
      with Suc.prems(1) have s: "st' = st" "v' = JObj c" by (auto simp: st split: if_splits)
      from map_of_SomeD[OF r(2)] Suc.prems(2) have "c \<in> new_refs h0 h" by (auto simp: apart_def st)
      with s Suc.prems(2) show ?thesis by (simp add: grows_def detached_def st)
    next
      case prim: False
      with False have "\<not> (\<exists>r. v = JObj r)" by (metis option.exhaust)
      with Suc.prems show ?thesis by (auto simp: st grows_def detached_def split: jval.splits)
    qed
  qed
qed simp

subsection \<open>The copy ends\<close>

definition heap_closed :: "jheap \<Rightarrow> jval \<Rightarrow> bool" where
  "heap_closed h v \<longleftrightarrow> set (graph_refs h v v) \<subseteq> heap_refs h"

lemma clone_plan_vals:
  assumes "clone_plan realm h r = Inr (x, steps)" "Inr (u, put) \<in> set steps"
  shows "u \<in> set (obj_vals (obj_at h r))"
proof -
  have p: "u \<in> set (map (pr_value \<circ> snd) ps)" if "Inr (u, put) \<in> set (concat (map (prop_step f) ps))" for f ps
    using that by (force simp: prop_step_def split: prod.splits if_splits)
  have e: "u \<in> set (slot_vals s)" if "Inr (u, put) \<in> set (map entry_step (map_entries s))" for s
    using that by (cases s) (force simp: entry_step_def map_entries_def split: prod.splits if_splits)+
  have b: "u \<in> set (slot_vals s)" if "clone_built_in realm s tag = Inr (x, steps)" for s tag
    using that assms(2) e[of s] by (auto simp: clone_built_in_def split: if_splits)
  consider (array) n where "steps = concat (map (prop_step (\<lambda>p v. p\<lparr>pr_value := v\<rparr>)) (props (obj_at h r)))"
    | (built_in) tag where "clone_built_in realm (slot (obj_at h r)) tag = Inr (x, steps)"
    | (plain) "steps = concat (map (prop_step plain_prop) (props (obj_at h r)))"
    using assms(1) by (auto simp: clone_plan_def Let_def split: option.splits if_splits)
  then show ?thesis
  proof cases
    case built_in
    from b[OF this] show ?thesis by (simp add: obj_vals_def)
  qed (use assms(2) p in \<open>auto simp: obj_vals_def\<close>)
qed

lemma clone_steps_returns:
  assumes rec: "\<And>v st. left_over rs (map fst (fst st)) < fuel \<Longrightarrow> apart h0 st \<Longrightarrow> inside rs v \<Longrightarrow> cloneForVo realm fuel v st \<noteq> None"
    and vis: "\<And>v st v' st'. cloneForVo realm fuel v st = Some (Inr (v', st')) \<Longrightarrow> set (map fst (fst st)) \<subseteq> set (map fst (fst st'))"
  shows "left_over rs (map fst (fst st)) < fuel \<Longrightarrow> apart h0 st \<Longrightarrow> c \<in> new_refs h0 (snd st)
    \<Longrightarrow> \<forall>s \<in> set steps. tame_step s \<Longrightarrow> \<forall>u put. Inr (u, put) \<in> set steps \<longrightarrow> inside rs u
    \<Longrightarrow> clone_steps realm fuel c steps st \<noteq> None"
proof (induction steps arbitrary: st)
  case (Cons s steps)
  show ?case
  proof (cases s)
    case (Inr vp)
    obtain v put where vp: "vp = (v, put)" by force
    with Cons.prems(5) Inr have "inside rs v" by auto
    with rec[OF Cons.prems(1,2)] obtain res where res: "cloneForVo realm fuel v st = Some res" by auto
    show ?thesis
    proof (cases res)
      case Inr': (Inr x)
      obtain v' vis h where x: "x = (v', vis, h)" by (cases x) auto
      note run = res[unfolded Inr' x]
      from cloneForVo_apart[OF run Cons.prems(2)] have k: "apart h0 (vis, h)" "grows st (vis, h)" "detached (new_refs h0 h) v'" by simp_all
      have c: "c \<in> new_refs h0 h" using new_refs_mono[OF k(2)] Cons.prems(3) by auto
      have t: "tame put" "\<forall>s \<in> set steps. tame_step s" using Cons.prems(4) Inr vp by (simp_all add: tame_step_def)
      have "apart h0 (vis, update_object (put v') c h)" by (rule apart_update[OF k(1) c t(1) k(3)])
      moreover have "left_over rs (map fst vis) < fuel"
        using left_over_mono[of "map fst (fst st)" "map fst vis" rs] vis[OF run] Cons.prems(1) by simp
      ultimately have "clone_steps realm fuel c steps (vis, update_object (put v') c h) \<noteq> None"
        by (intro Cons.IH) (use c t Cons.prems(5) in \<open>auto simp: new_refs_def\<close>)
      with run Inr vp show ?thesis by simp
    qed (use res Inr vp in simp)
  qed simp
qed simp

lemma clone_steps_visited:
  assumes "\<And>v st v' st'. cloneForVo realm fuel v st = Some (Inr (v', st')) \<Longrightarrow> set (map fst (fst st)) \<subseteq> set (map fst (fst st'))"
  shows "clone_steps realm fuel c steps st = Some (Inr st') \<Longrightarrow> set (map fst (fst st)) \<subseteq> set (map fst (fst st'))"
proof (induction steps arbitrary: st)
  case (Cons s steps)
  show ?case
  proof (cases s)
    case (Inr vp)
    obtain v put where vp: "vp = (v, put)" by force
    from Cons.prems Inr vp obtain v' vis h where
      r: "cloneForVo realm fuel v st = Some (Inr (v', vis, h))"
        "clone_steps realm fuel c steps (vis, update_object (put v') c h) = Some (Inr st')"
      by (auto split: option.splits sum.splits)
    from assms[OF r(1)] Cons.IH[OF r(2)] show ?thesis by (simp del: set_map)
  qed (use Cons.prems in simp)
qed simp

lemma cloneForVo_visited:
  "cloneForVo realm fuel v st = Some (Inr (v', st')) \<Longrightarrow> set (map fst (fst st)) \<subseteq> set (map fst (fst st'))"
proof (induction fuel arbitrary: v st v' st')
  case (Suc fuel)
  obtain vis h where st: "st = (vis, h)" by force
  have "st' = st \<or> (\<exists>r c h1 steps. clone_steps realm fuel c steps ((r, c) # vis, h1) = Some (Inr st'))"
    using Suc.prems by (auto simp: st split: jval.splits if_splits sum.splits prod.splits option.splits)
  then show ?case
  proof (elim disjE exE)
    fix r c h1 steps assume "clone_steps realm fuel c steps ((r, c) # vis, h1) = Some (Inr st')"
    then have "set (map fst (fst ((r, c) # vis, h1))) \<subseteq> set (map fst (fst st'))"
      by (rule clone_steps_visited[rotated]) (rule Suc.IH)
    then show ?thesis by (simp add: st)
  qed simp
qed simp

lemma cloneForVo_returns:
  assumes h: "heap_inside h0 rs" "set rs \<subseteq> heap_refs h0"
  shows "left_over rs (map fst (fst st)) < fuel \<Longrightarrow> apart h0 st \<Longrightarrow> inside rs v \<Longrightarrow> cloneForVo realm fuel v st \<noteq> None"
proof (induction fuel arbitrary: v st)
  case (Suc fuel)
  obtain vis h where st: "st = (vis, h)" by force
  show ?case
  proof (cases "\<exists>r x steps. v = JObj r \<and> map_of vis r = None \<and> walkable h r \<and> clone_plan realm h r = Inr (x, steps)")
    case True
    then obtain r x steps where r: "v = JObj r" "map_of vis r = None" "walkable h r" "clone_plan realm h r = Inr (x, steps)" by blast
    obtain c h1 where al: "allocate x h = (c, h1)" by force
    from clone_plan_tame[OF r(4,3)] have t: "\<forall>s \<in> set steps. tame_step s" "\<forall>u \<in> set (obj_vals x). isPrimitiveValue u" "\<not> isView (slot x)" by blast+
    from apart_allocate[OF _ al t(2,3), of h0 vis r] Suc.prems(2) have a: "apart h0 ((r, c) # vis, h1)" "c \<in> new_refs h0 h1"
      by (simp_all add: st)
    have rs: "r \<in> set rs" using Suc.prems(3) r(1) by (simp add: inside_def val_refs_def)
    have "r \<notin> set (map fst vis)" using r(2) by (simp add: map_of_eq_None_iff)
    from left_over_Cons[OF rs this] Suc.prems(1) have less: "left_over rs (map fst ((r, c) # vis)) < fuel" by (simp add: st)
    have same: "obj_at h r = obj_at h0 r" using Suc.prems(2) rs h(2) by (auto simp: apart_def st)
    have vals: "\<forall>u put. Inr (u, put) \<in> set steps \<longrightarrow> inside rs u"
      using clone_plan_vals[OF r(4)] obj_at_inside[OF h(1), of _ r] by (auto simp: same)
    have "clone_steps realm fuel c steps ((r, c) # vis, h1) \<noteq> None"
    proof (rule clone_steps_returns[OF _ _ _ a(1) _ t(1) vals])
      show "left_over rs (map fst (fst ((r, c) # vis, h1))) < fuel" using less by simp
      show "c \<in> new_refs h0 (snd ((r, c) # vis, h1))" using a(2) by simp
    qed (rule Suc.IH cloneForVo_visited; assumption)+
    with r al show ?thesis by (auto simp: st split: sum.split)
  next
    case False
    then show ?thesis by (auto simp: st split: jval.split option.split sum.split)
  qed
qed simp

lemma cloneForVo_ends:
  assumes "heap_closed h v"
  shows "cloneForVo realm (length (graph_refs h v v) + 1) v ([], h) \<noteq> None"
proof (rule cloneForVo_returns)
  show "heap_inside h (graph_refs h v v)" by (force simp: heap_inside_def inside_def graph_refs_def)
  show "set (graph_refs h v v) \<subseteq> heap_refs h" using assms by (simp add: heap_closed_def)
  have "card (set (graph_refs h v v)) \<le> length (graph_refs h v v)" by (rule card_length)
  then show "left_over (graph_refs h v v) (map fst (fst ([], h))) < length (graph_refs h v v) + 1" by (simp add: left_over_def)
qed (auto simp: apart_def new_refs_def inside_def graph_refs_def)

section \<open>Properties\<close>

text \<open>
  The objects a value leads to: through the values of own properties, and through the entries
  of maps and sets.
\<close>

inductive linked :: "jheap \<Rightarrow> jval \<Rightarrow> nat \<Rightarrow> bool" for h v where
  start: "v = JObj r \<Longrightarrow> linked h v r"
| link: "linked h v r \<Longrightarrow> JObj s \<in> set (own_vals (obj_at h r) @ collection_vals h r) \<Longrightarrow> linked h v s"

lemma freeze_own_vals [simp]: "own_vals (freeze_object x) = own_vals x"
  by (auto simp: own_vals_def freeze_object_def freeze_prop_def)

lemma successors_obj_vals:
  assumes "JObj s \<in> set (successors thr h r)"
  shows "JObj s \<in> set (obj_vals (obj_at h r))"
proof (cases "JObj s \<in> set (collection_vals h r)")
  case True
  then show ?thesis by (rule collection_obj_vals)
next
  case False
  with assms obtain x where x: "shadowed thr h r = Inr x" "JObj s \<in> set (own_vals x)"
    by (cases "shadowed thr h r") (simp_all add: successors_def)
  from shadow_vals[OF x(1)[unfolded shadowed_def] x(2)] have "JObj s \<in> set (own_vals (obj_at h r))" by simp
  then show ?thesis by (simp add: own_vals_def obj_vals_def)
qed

lemma alike_collection: "alike h h' \<Longrightarrow> collection_vals h' r = collection_vals h r"
proof -
  assume a: "alike h h'"
  then have "slot (obj_at h' r) = slot (obj_at h r)" by (simp add: alike_def alike_object_def)
  then show ?thesis unfolding collection_vals_def alike_tag[OF a] by (rule ssubst) (rule refl)
qed

lemma clone_apart:
  assumes "clone realm h t = Inr (v, h1)"
  shows "heap_refs h \<subseteq> heap_refs h1" "r \<in> heap_refs h \<Longrightarrow> obj_at h1 r = obj_at h r" "detached (new_refs h h1) v"
    "c \<in> new_refs h h1 \<Longrightarrow> walkable h1 c"
    "c \<in> new_refs h h1 \<Longrightarrow> u \<in> set (obj_vals (obj_at h1 c)) \<Longrightarrow> detached (new_refs h h1) u"
proof -
  from assms obtain vis where run: "cloneForVo realm (length (graph_refs h t t) + 1) t ([], h) = Some (Inr (v, vis, h1))"
    by (auto simp: clone_def split: option.splits sum.splits prod.splits)
  have "apart h ([], h)" by (simp add: apart_def new_refs_def)
  from cloneForVo_apart[OF run this]
  show "heap_refs h \<subseteq> heap_refs h1" "r \<in> heap_refs h \<Longrightarrow> obj_at h1 r = obj_at h r" "detached (new_refs h h1) v"
    "c \<in> new_refs h h1 \<Longrightarrow> walkable h1 c"
    "c \<in> new_refs h h1 \<Longrightarrow> u \<in> set (obj_vals (obj_at h1 c)) \<Longrightarrow> detached (new_refs h h1) u"
    by (simp_all add: apart_def)
qed

lemma vo_linked:
  assumes c: "clone realm h t = Inr (v, h1)" and f: "deepFreeze thr h1 v = Inr h'" and s: "linked h' v s"
  shows "s \<in> new_refs h h1 \<and> reaches thr h1 v s"
proof -
  note apart = clone_apart[OF c]
  note walked = deepFreeze_effect[OF f]
  show ?thesis
    using s
  proof (induction rule: linked.induct)
    case (start r)
    with apart(3) have "r \<in> new_refs h h1" by (simp add: detached_def)
    with apart(4) start show ?case by (blast intro: reaches.root)
  next
    case (link r s)
    from link.IH have r: "r \<in> new_refs h h1" "reaches thr h1 v r" by simp_all
    from walked(1)[OF r(2)] obtain x where x: "shadowed thr h1 r = Inr x" by (cases "shadowed thr h1 r") simp_all
    have "r \<in> set (jkeys (objects h1))" using r(1) by (simp add: new_refs_def heap_refs_def)
    with walked(2)[of r] r(2) x have "own_vals (obj_at h' r) = own_vals x" by (simp add: frozen_def)
    with link.hyps(2) have s: "JObj s \<in> set (own_vals x) \<or> JObj s \<in> set (collection_vals h1 r)"
      by (simp add: alike_collection[OF walked(3)])
    with x have n: "JObj s \<in> set (successors thr h1 r)" by (auto simp: successors_def)
    from apart(5)[OF r(1) successors_obj_vals[OF n]] have "s \<in> new_refs h h1" by (simp add: detached_def)
    with n show ?case using r(2) apart(4) by (blast intro: reaches.next_object)
  qed
qed

text \<open>
  C30. A value object shares nothing with its input and cannot change: \<open>vo\<close> leaves every object
  that existed as it was, and every object its result leads to is one that \<open>vo\<close> made, is not
  extensible and has no property that could be written or redefined. So no one who holds the
  input can reach into the value, whatever the input shared or looped.
\<close>

theorem vo_detached_and_frozen:
  assumes "vo realm thr t h = Inr (v, h')"
  shows "(\<forall>r. r \<in> heap_refs h \<longrightarrow> obj_at h' r = obj_at h r)
    \<and> (\<forall>s. linked h' v s \<longrightarrow> s \<in> new_refs h h' \<and> is_frozen (obj_at h' s))"
proof -
  from assms obtain h1 where r: "clone realm h t = Inr (v, h1)" "deepFreeze thr h1 v = Inr h'"
    by (auto simp: vo_def split: sum.splits prod.splits)
  note apart = clone_apart[OF r(1)]
  note walked = deepFreeze_effect[OF r(2)]
  have same: "new_refs h h' = new_refs h h1" using walked(3) unfolding alike_def new_refs_def heap_refs_def by metis
  have inside: "s \<in> new_refs h h1" if "reaches thr h1 v s" for s
    using that apart(3)
  proof (induction rule: reaches.induct)
    case (next_object v r s)
    then have r: "r \<in> new_refs h h1" by blast
    from apart(5)[OF r successors_obj_vals[OF next_object.hyps(2)]] show ?case by (simp add: detached_def)
  qed (simp add: detached_def)
  have "obj_at h' s = obj_at h s" if "s \<in> heap_refs h" for s
    using inside[of s] that walked(2) apart(2) by (auto simp: new_refs_def)
  moreover have "s \<in> new_refs h h' \<and> is_frozen (obj_at h' s)" if "linked h' v s" for s
  proof -
    from vo_linked[OF r that] have s: "s \<in> new_refs h h1" "reaches thr h1 v s" by simp_all
    then have "obj_at h' s = frozen thr h1 s" by (simp add: walked(2) new_refs_def heap_refs_def)
    with s walked(1) frozen_reached same show ?thesis by simp
  qed
  ultimately show ?thesis by blast
qed

definition ex_input :: jheap where
  "ex_input = \<lparr>objects = [
     (0, ex_object [(PStr ''amount'', ex_data (JNum (Num 5))), (PStr ''owner'', ex_data (JObj 1))]),
     (1, ex_object [(PStr ''account'', ex_data (JObj 0))])],
     funs = [], intrinsic_sources = []\<rparr>"

definition ex_vo :: "jval \<times> jheap" where
  "ex_vo = (case vo (\<lambda>_. 9) ex_throwers (JObj 0) ex_input of Inr r \<Rightarrow> r | Inl _ \<Rightarrow> (JUndef, ex_input))"

theorem vo_detached_witness:
  "obj_at (snd ex_vo) 0 = obj_at ex_input 0 \<and> is_frozen (obj_at (snd ex_vo) 2) \<and> is_frozen (obj_at (snd ex_vo) 3)"
proof -
  have "\<not> isl (vo (\<lambda>_. 9) ex_throwers (JObj 0) ex_input)" by code_simp
  then have run: "vo (\<lambda>_. 9) ex_throwers (JObj 0) ex_input = Inr (fst ex_vo, snd ex_vo)"
    by (cases "vo (\<lambda>_. 9) ex_throwers (JObj 0) ex_input") (simp_all add: ex_vo_def)
  have v: "fst ex_vo = JObj 2" and o: "JObj 3 \<in> set (own_vals (obj_at (snd ex_vo) 2) @ collection_vals (snd ex_vo) 2)"
    by code_simp+
  have l2: "linked (snd ex_vo) (fst ex_vo) 2" by (simp add: v linked.start)
  have l3: "linked (snd ex_vo) (fst ex_vo) 3" by (rule linked.link[OF l2 o])
  have "0 \<in> heap_refs ex_input" by (simp add: heap_refs_def ex_input_def)
  with l2 l3 vo_detached_and_frozen[OF run] show ?thesis by blast
qed

end
