(* ===== verification/Specification.thy ===== *)
theory Specification
  imports Errors
begin

text \<open>
  Specifications (src/specification/specification.ts): named rules over candidates and their
  composition. A leaf is a \<open>PredicateSpecification\<close> or a user's own subclass without a
  \<open>composite\<close>: its name and its predicate, which may throw. The composite part of a
  specification is the public tree that adapters (of a database, say) walk.
\<close>

section \<open>Rules and their composition\<close>

datatype composite_op = OpAnd | OpOr

datatype 'a spec =
    PredicateSpecification string "'a \<Rightarrow> (js_error, bool) res"
  | BinaryCompositeSpecification composite_op "'a spec" "'a spec"
  | NotSpecification "'a spec"

definition and_spec :: "'a spec \<Rightarrow> 'a spec \<Rightarrow> 'a spec" where
  "and_spec s other = BinaryCompositeSpecification OpAnd s other"

definition or_spec :: "'a spec \<Rightarrow> 'a spec \<Rightarrow> 'a spec" where
  "or_spec s other = BinaryCompositeSpecification OpOr s other"

definition not_spec :: "'a spec \<Rightarrow> 'a spec" where
  "not_spec s = NotSpecification s"

fun operator_name :: "composite_op \<Rightarrow> string" where
  "operator_name OpAnd = ''and''"
| "operator_name OpOr = ''or''"

fun spec_name :: "'a spec \<Rightarrow> string" where
  "spec_name (PredicateSpecification n p) = n"
| "spec_name (BinaryCompositeSpecification op l r) =
     ''('' @ spec_name l @ '' '' @ operator_name op @ '' '' @ spec_name r @ '')''"
| "spec_name (NotSpecification s) = ''(not '' @ spec_name s @ '')''"

text \<open>The right side of \<open>&&\<close> and \<open>||\<close> is evaluated only when the left does not decide.\<close>

fun isSatisfiedBy :: "'a spec \<Rightarrow> 'a \<Rightarrow> (js_error, bool) res" where
  "isSatisfiedBy (PredicateSpecification n p) c = p c"
| "isSatisfiedBy (BinaryCompositeSpecification OpAnd l r) c =
     rbind (isSatisfiedBy l c) (\<lambda>b. if b then isSatisfiedBy r c else Inr False)"
| "isSatisfiedBy (BinaryCompositeSpecification OpOr l r) c =
     rbind (isSatisfiedBy l c) (\<lambda>b. if b then Inr True else isSatisfiedBy r c)"
| "isSatisfiedBy (NotSpecification s) c = rbind (isSatisfiedBy s c) (\<lambda>b. Inr (\<not> b))"

text \<open>\<open>String.prototype.trim\<close> on one-byte characters.\<close>

definition is_js_space :: "char \<Rightarrow> bool" where
  "is_js_space c \<longleftrightarrow> of_char c \<in> {9, 10, 11, 12, 13, 32, 160 :: nat}"

definition trim :: "string \<Rightarrow> string" where
  "trim s = rev (dropWhile is_js_space (rev (dropWhile is_js_space s)))"

definition specification_of :: "string \<Rightarrow> ('a \<Rightarrow> (js_error, bool) res) \<Rightarrow> (js_error, 'a spec) res" where
  "specification_of name predicate =
     (if length (trim name) = 0 \<or> name \<noteq> trim name then Inl (PlainError ''Error'' None)
      else Inr (PredicateSpecification name predicate))"

section \<open>Names identify rules\<close>

text \<open>
  Adapters and diagnostics match a specification by its name. Names of leaves that are single
  words keep the names of composites readable: no parentheses, no spaces, and not \<open>not\<close>.
\<close>

definition word :: "string \<Rightarrow> bool" where
  "word n \<longleftrightarrow> n \<noteq> [] \<and> n \<noteq> ''not'' \<and> set n \<inter> {CHR '' '', CHR ''('', CHR '')''} = {}"

fun leaves :: "'a spec \<Rightarrow> (string \<times> ('a \<Rightarrow> (js_error, bool) res)) set" where
  "leaves (PredicateSpecification n p) = {(n, p)}"
| "leaves (BinaryCompositeSpecification op l r) = leaves l \<union> leaves r"
| "leaves (NotSpecification s) = leaves s"

definition registered :: "(string \<Rightarrow> 'a \<Rightarrow> (js_error, bool) res) \<Rightarrow> 'a spec \<Rightarrow> bool" where
  "registered rule s \<longleftrightarrow> (\<forall>(n, p) \<in> leaves s. word n \<and> p = rule n)"

definition delimited :: "string \<Rightarrow> bool" where
  "delimited u \<longleftrightarrow> (case u of [] \<Rightarrow> True | c # _ \<Rightarrow> c = CHR '' '' \<or> c = CHR '')'')"

lemma words_eq:
  assumes "n @ u = m @ v" "word n" "word m" "delimited u" "delimited v"
  shows "n = m \<and> u = v"
proof -
  let ?in = "\<lambda>c. c \<noteq> CHR '' '' \<and> c \<noteq> CHR '')''"
  have "takeWhile ?in (n @ u) = n" if "word n" "delimited u" for n u
  proof -
    from that(1) have "\<forall>c \<in> set n. ?in c" by (auto simp: word_def)
    moreover from that(2) have "takeWhile ?in u = []" by (cases u) (auto simp: delimited_def)
    ultimately show ?thesis by (simp add: takeWhile_append)
  qed
  from this[of n u] this[of m v] assms show ?thesis by simp
qed

lemma word_hd: "word n \<Longrightarrow> n @ u \<noteq> CHR ''('' # v"
  by (cases n) (auto simp: word_def)

lemma composite_name: "spec_name (BinaryCompositeSpecification op l r) = CHR ''('' # spec_name l @ CHR '' '' # operator_name op @ CHR '' '' # spec_name r @ '')''"
  "spec_name (NotSpecification s) = CHR ''('' # ''not'' @ CHR '' '' # spec_name s @ '')''"
  by simp_all

lemma not_name:
  assumes "registered rule l" "delimited u"
  shows "spec_name l @ u \<noteq> ''not'' @ CHR '' '' # v"
proof (cases l)
  case (PredicateSpecification n p)
  show ?thesis
  proof
    assume e: "spec_name l @ u = ''not'' @ CHR '' '' # v"
    let ?in = "\<lambda>c. c \<noteq> CHR '' '' \<and> c \<noteq> CHR '')''"
    from assms(1) PredicateSpecification have w: "word n" by (simp add: registered_def)
    then have "\<forall>c \<in> set n. ?in c" by (auto simp: word_def)
    moreover have "takeWhile ?in u = []" using assms(2) by (cases u) (auto simp: delimited_def)
    ultimately have "takeWhile ?in (spec_name l @ u) = n" using PredicateSpecification by (simp add: takeWhile_append)
    with e w show False by (simp add: word_def)
  qed
qed simp_all

lemma names_readable:
  assumes "spec_name s @ u = spec_name t @ v" "registered rule s" "registered rule t" "delimited u" "delimited v"
  shows "s = t \<and> u = v"
  using assms
proof (induction s arbitrary: t u v)
  case (PredicateSpecification n p)
  then have n: "word n" "p = rule n" by (simp_all add: registered_def)
  show ?case
  proof (cases t)
    case t: (PredicateSpecification m q)
    with PredicateSpecification.prems have "word m" "q = rule m" by (simp_all add: registered_def)
    with words_eq[of n u m v] PredicateSpecification.prems n t show ?thesis by simp
  qed (use PredicateSpecification.prems word_hd[OF n(1)] in simp_all)
next
  case (BinaryCompositeSpecification op l r)
  have reg: "registered rule l" "registered rule r" using BinaryCompositeSpecification.prems(2) by (auto simp: registered_def)
  show ?case
  proof (cases t)
    case (PredicateSpecification m q)
    with BinaryCompositeSpecification.prems(3) have "word m" by (simp add: registered_def)
    from word_hd[OF this] BinaryCompositeSpecification.prems(1) PredicateSpecification show ?thesis
      by (metis composite_name(1) append_Cons spec_name.simps(1))
  next
    case t: (BinaryCompositeSpecification op' l' r')
    have reg': "registered rule l'" "registered rule r'" using BinaryCompositeSpecification.prems(3) t by (auto simp: registered_def)
    from BinaryCompositeSpecification.prems(1) t
    have e: "spec_name l @ (CHR '' '' # operator_name op @ CHR '' '' # spec_name r @ CHR '')'' # u)
        = spec_name l' @ (CHR '' '' # operator_name op' @ CHR '' '' # spec_name r' @ CHR '')'' # v)" by simp
    from BinaryCompositeSpecification.IH(1)[OF e reg(1) reg'(1)] have l: "l = l'"
      and e2: "operator_name op @ CHR '' '' # spec_name r @ CHR '')'' # u = operator_name op' @ CHR '' '' # spec_name r' @ CHR '')'' # v"
      by (simp_all add: delimited_def)
    from e2 have op: "op = op'" by (cases op; cases op') simp_all
    with e2 have "spec_name r @ (CHR '')'' # u) = spec_name r' @ (CHR '')'' # v)" by simp
    from BinaryCompositeSpecification.IH(2)[OF this reg(2) reg'(2)] l op t show ?thesis by (simp add: delimited_def)
  next
    case t: (NotSpecification s')
    from BinaryCompositeSpecification.prems(1) t
    have "spec_name l @ (CHR '' '' # operator_name op @ CHR '' '' # spec_name r @ CHR '')'' # u)
        = ''not'' @ CHR '' '' # spec_name s' @ CHR '')'' # v" by simp
    with not_name[OF reg(1)] show ?thesis by (simp add: delimited_def)
  qed
next
  case (NotSpecification s)
  have reg: "registered rule s" using NotSpecification.prems(2) by (simp add: registered_def)
  show ?case
  proof (cases t)
    case (PredicateSpecification m q)
    with NotSpecification.prems(3) have "word m" by (simp add: registered_def)
    from word_hd[OF this] NotSpecification.prems(1) PredicateSpecification show ?thesis
      by (metis composite_name(2) append_Cons spec_name.simps(1))
  next
    case t: (BinaryCompositeSpecification op' l' r')
    have reg': "registered rule l'" using NotSpecification.prems(3) t by (auto simp: registered_def)
    from NotSpecification.prems(1) t
    have "spec_name l' @ (CHR '' '' # operator_name op' @ CHR '' '' # spec_name r' @ CHR '')'' # v)
        = ''not'' @ CHR '' '' # spec_name s @ CHR '')'' # u" by simp
    with not_name[OF reg'] show ?thesis by (simp add: delimited_def)
  next
    case t: (NotSpecification s')
    have reg': "registered rule s'" using NotSpecification.prems(3) t by (simp add: registered_def)
    from NotSpecification.prems(1) t have "spec_name s @ (CHR '')'' # u) = spec_name s' @ (CHR '')'' # v)" by simp
    from NotSpecification.IH[OF this reg reg'] t show ?thesis by (simp add: delimited_def)
  qed
qed


definition ex_rule :: "string \<Rightarrow> int \<Rightarrow> (js_error, bool) res" where
  "ex_rule n c = (if n = ''positive'' then Inr (0 < c) else if n = ''even'' then Inr (c mod 2 = 0) else Inl typeError)"

definition ex_spec :: "(int spec \<Rightarrow> int spec \<Rightarrow> int spec) \<Rightarrow> int spec" where
  "ex_spec f = f (not_spec (PredicateSpecification ''positive'' (ex_rule ''positive''))) (PredicateSpecification ''even'' (ex_rule ''even''))"


end
