(* ===== verification/Buses.thy ===== *)
theory Buses
  imports Errors
begin

text \<open>
  The command bus and the query bus with their shared internals (src/app/bus-internals.ts,
  command-bus.ts, query-bus.ts). Handlers and the error mapper are the user's: functions that
  may throw, and may change the world \<open>'w\<close>. A \<open>Result\<close> of the handler is \<open>Ok\<close> or \<open>Err\<close>.
\<close>

section \<open>Registration\<close>

datatype ('r, 'e) outcome = Ok 'r | Err 'e

type_synonym ('m, 'r, 'w) handler = "'m \<Rightarrow> 'w \<Rightarrow> (js_error, 'r) res \<times> 'w"

definition registerOnce :: "('m, 'r, 'w) handler \<Rightarrow> string \<Rightarrow> string \<Rightarrow> (string, ('m, 'r, 'w) handler) jmap
    \<Rightarrow> (js_error, (string, ('m, 'r, 'w) handler) jmap) res" where
  "registerOnce handler busKind messageType handlers =
     (if jhas handlers messageType then Inl (kit (DuplicateHandlerRegistrationError busKind messageType))
      else Inr (jset messageType handler handlers))"

definition handlerOrThrow :: "(string, ('m, 'r, 'w) handler) jmap \<Rightarrow> string \<Rightarrow> string \<Rightarrow> (js_error, ('m, 'r, 'w) handler) res" where
  "handlerOrThrow handlers busKind messageType = (case jget handlers messageType of
     Some h \<Rightarrow> Inr h | None \<Rightarrow> Inl (kit (UnregisteredHandlerError busKind messageType)))"

section \<open>Expected errors\<close>

text \<open>
  What \<open>mapExpectedError\<close> returned: \<open>undefined\<close>, an object with an own \<open>error\<close>, or anything
  else; reading the \<open>error\<close> of a hostile object may throw.
\<close>

datatype 'e decision = Undefined | Decision 'e | NoDecision | HostileDecision js_error

type_synonym ('e, 'w) mapper = "js_error \<Rightarrow> 'w \<Rightarrow> (js_error, 'e decision) res \<times> 'w"

fun is_bus_wiring_error :: "js_error \<Rightarrow> bool" where
  "is_bus_wiring_error (KitError (UnregisteredHandlerError _ _) _) = True"
| "is_bus_wiring_error (KitError (ErrorMapperFailedError _) _) = True"
| "is_bus_wiring_error _ = False"

definition mapHandlerFailure :: "js_error \<Rightarrow> ('e, 'w) mapper option \<Rightarrow> string \<Rightarrow> 'w \<Rightarrow> (js_error, ('r, 'e) outcome) res \<times> 'w" where
  "mapHandlerFailure error mapExpectedError busKind w =
     (if is_bus_wiring_error error then (Inl error, w)
      else case mapExpectedError of
        None \<Rightarrow> (Inl error, w)
      | Some m \<Rightarrow> (case m error w of
          (Inr (Decision e), w') \<Rightarrow> (Inr (Err e), w')
        | (Inr Undefined, w') \<Rightarrow> (Inl error, w')
        | (_, w') \<Rightarrow> (Inl (KitError (ErrorMapperFailedError busKind) (Some error)), w')))"

section \<open>The buses\<close>

record ('m, 'r, 'e, 'w) command_bus =
  cmd_handlers :: "(string, ('m, ('r, 'e) outcome, 'w) handler) jmap"
  cmd_mapExpectedError :: "('e, 'w) mapper option"

definition new_command_bus :: "('e, 'w) mapper option \<Rightarrow> ('m, 'r, 'e, 'w) command_bus" where
  "new_command_bus mapper = \<lparr>cmd_handlers = [], cmd_mapExpectedError = mapper\<rparr>"

definition register_command :: "string \<Rightarrow> ('m, ('r, 'e) outcome, 'w) handler \<Rightarrow> ('m, 'r, 'e, 'w) command_bus
    \<Rightarrow> (js_error, ('m, 'r, 'e, 'w) command_bus) res" where
  "register_command commandType handler b =
     rbind (registerOnce handler ''command'' commandType (cmd_handlers b)) (\<lambda>hs. Inr (b\<lparr>cmd_handlers := hs\<rparr>))"

definition execute_command :: "('m, 'r, 'e, 'w) command_bus \<Rightarrow> string \<Rightarrow> 'm \<Rightarrow> 'w \<Rightarrow> (js_error, ('r, 'e) outcome) res \<times> 'w" where
  "execute_command b commandType command w = (case handlerOrThrow (cmd_handlers b) ''command'' commandType of
     Inl e \<Rightarrow> (Inl e, w)
   | Inr handler \<Rightarrow> (case handler command w of
       (Inr r, w') \<Rightarrow> (Inr r, w')
     | (Inl error, w') \<Rightarrow> mapHandlerFailure error (cmd_mapExpectedError b) ''command'' w'))"

record ('m, 'r, 'e, 'w) query_bus =
  qry_handlers :: "(string, ('m, 'r, 'w) handler) jmap"
  qry_mapExpectedError :: "('e, 'w) mapper option"

definition new_query_bus :: "('e, 'w) mapper option \<Rightarrow> ('m, 'r, 'e, 'w) query_bus" where
  "new_query_bus mapper = \<lparr>qry_handlers = [], qry_mapExpectedError = mapper\<rparr>"

definition register_query :: "string \<Rightarrow> ('m, 'r, 'w) handler \<Rightarrow> ('m, 'r, 'e, 'w) query_bus \<Rightarrow> (js_error, ('m, 'r, 'e, 'w) query_bus) res" where
  "register_query queryType handler b =
     rbind (registerOnce handler ''query'' queryType (qry_handlers b)) (\<lambda>hs. Inr (b\<lparr>qry_handlers := hs\<rparr>))"

definition execute_query :: "('m, 'r, 'e, 'w) query_bus \<Rightarrow> string \<Rightarrow> 'm \<Rightarrow> 'w \<Rightarrow> (js_error, ('r, 'e) outcome) res \<times> 'w" where
  "execute_query b queryType query w = (case handlerOrThrow (qry_handlers b) ''query'' queryType of
     Inl e \<Rightarrow> (Inl e, w)
   | Inr handler \<Rightarrow> (case handler query w of
       (Inr r, w') \<Rightarrow> (Inr (Ok r), w')
     | (Inl error, w') \<Rightarrow> mapHandlerFailure error (qry_mapExpectedError b) ''query'' w'))"

definition executeUnsafe :: "('m, 'r, 'e, 'w) query_bus \<Rightarrow> string \<Rightarrow> 'm \<Rightarrow> 'w \<Rightarrow> (js_error, 'r) res \<times> 'w" where
  "executeUnsafe b queryType query w = (case handlerOrThrow (qry_handlers b) ''query'' queryType of
     Inl e \<Rightarrow> (Inl e, w) | Inr handler \<Rightarrow> handler query w)"

section \<open>What a bus does with failures\<close>

text \<open>
  \<open>accounted e x\<close>: the thrown \<open>x\<close> is the failure \<open>e\<close> itself, or the mapper's failure with \<open>e\<close>
  as its cause.
\<close>

definition accounted :: "js_error \<Rightarrow> js_error \<Rightarrow> bool" where
  "accounted e x \<longleftrightarrow> x = e \<or> (\<exists>k. x = KitError (ErrorMapperFailedError k) (Some e))"

lemma mapHandlerFailure_cases:
  assumes "mapHandlerFailure error mapper kind w = (r, w')"
  shows "(case r of
      Inl x \<Rightarrow> accounted error x
    | Inr (Err e) \<Rightarrow> (\<exists>m. mapper = Some m \<and> m error w = (Inr (Decision e), w')) \<and> \<not> is_bus_wiring_error error
    | Inr (Ok _) \<Rightarrow> False)"
  using assms by (auto simp: mapHandlerFailure_def accounted_def split: if_splits option.splits prod.splits sum.splits decision.splits)

text \<open>Registering a list of handlers, whatever throws.\<close>

fun register_all :: "(string \<times> ('m, ('r, 'e) outcome, 'w) handler) list \<Rightarrow> ('m, 'r, 'e, 'w) command_bus
    \<Rightarrow> js_error option list \<times> ('m, 'r, 'e, 'w) command_bus" where
  "register_all [] b = ([], b)"
| "register_all ((t, h) # rs) b = (case register_command t h b of
     Inl e \<Rightarrow> (case register_all rs b of (es, b') \<Rightarrow> (Some e # es, b'))
   | Inr b1 \<Rightarrow> (case register_all rs b1 of (es, b') \<Rightarrow> (None # es, b')))"

lemma register_all_handlers:
  assumes "register_all rs b = (es, b')"
  shows "jget (cmd_handlers b') t = (case jget (cmd_handlers b) t of Some h \<Rightarrow> Some h | None \<Rightarrow> map_of rs t)"
    and "cmd_mapExpectedError b' = cmd_mapExpectedError b"
    and "es = map (\<lambda>i. if jhas (cmd_handlers b) (fst (rs ! i)) \<or> fst (rs ! i) \<in> fst ` set (take i rs)
         then Some (kit (DuplicateHandlerRegistrationError ''command'' (fst (rs ! i)))) else None) [0..<length rs]"
proof -
  have "jget (cmd_handlers b') t = (case jget (cmd_handlers b) t of Some h \<Rightarrow> Some h | None \<Rightarrow> map_of rs t)
    \<and> cmd_mapExpectedError b' = cmd_mapExpectedError b
    \<and> es = map (\<lambda>i. if jhas (cmd_handlers b) (fst (rs ! i)) \<or> fst (rs ! i) \<in> fst ` set (take i rs)
         then Some (kit (DuplicateHandlerRegistrationError ''command'' (fst (rs ! i)))) else None) [0..<length rs]" for t
    using assms
  proof (induction rs b arbitrary: es b' rule: register_all.induct)
    case (2 u h rs b)
    have shift: "map f [0..<length ((u, h) # rs)] = f 0 # map (\<lambda>i. f (Suc i)) [0..<length rs]" for f :: "nat \<Rightarrow> 'z"
      by (simp add: upt_conv_Cons map_Suc_upt[symmetric] o_def del: upt_Suc)
    show ?case
    proof (cases "jhas (cmd_handlers b) u")
      case True
      then have r: "register_command u h b = Inl (kit (DuplicateHandlerRegistrationError ''command'' u))"
        by (simp add: register_command_def registerOnce_def)
      with "2.prems" obtain es1 where e: "register_all rs b = (es1, b')" "es = Some (kit (DuplicateHandlerRegistrationError ''command'' u)) # es1"
        by (auto split: prod.splits)
      from "2.IH"(1)[OF r e(1)] True show ?thesis unfolding shift e(2) by (auto split: option.splits)
    next
      case False
      let ?b = "b\<lparr>cmd_handlers := jset u h (cmd_handlers b)\<rparr>"
      from False have r: "register_command u h b = Inr ?b" by (simp add: register_command_def registerOnce_def)
      with "2.prems" obtain es1 where e: "register_all rs ?b = (es1, b')" "es = None # es1" by (auto split: prod.splits)
      from "2.IH"(2)[OF r e(1)] False show ?thesis unfolding shift e(2) by (auto split: option.splits)
    qed
  qed (simp split: option.split)
  then show "jget (cmd_handlers b') t = (case jget (cmd_handlers b) t of Some h \<Rightarrow> Some h | None \<Rightarrow> map_of rs t)"
    "cmd_mapExpectedError b' = cmd_mapExpectedError b"
    "es = map (\<lambda>i. if jhas (cmd_handlers b) (fst (rs ! i)) \<or> fst (rs ! i) \<in> fst ` set (take i rs)
         then Some (kit (DuplicateHandlerRegistrationError ''command'' (fst (rs ! i)))) else None) [0..<length rs]"
    by blast+
qed

section \<open>Properties\<close>

text \<open>
  C33. The command bus routes by type to the first handler registered for it; every later
  registration of the type throws and changes nothing. What the handler returns is returned.
  A failure of the handler is never masked: it becomes an \<open>Err\<close> only when the mapper decided so
  on exactly this error, and otherwise the thrown value is that error or carries it as its
  cause. An unregistered type throws before any user code ran.
\<close>

theorem command_bus_dispatch:
  assumes "register_all rs (new_command_bus mapper) = (es, b)" "execute_command b t c w = (r, w')"
  shows "(case map_of rs t of
      None \<Rightarrow> r = Inl (kit (UnregisteredHandlerError ''command'' t)) \<and> w' = w
    | Some h \<Rightarrow> (case h c w of
        (Inr res, w1) \<Rightarrow> r = Inr res \<and> w' = w1
      | (Inl e, w1) \<Rightarrow> (case r of
          Inl x \<Rightarrow> accounted e x
        | Inr (Err e') \<Rightarrow> (\<exists>m. mapper = Some m \<and> m e w1 = (Inr (Decision e'), w')) \<and> \<not> is_bus_wiring_error e
        | Inr (Ok _) \<Rightarrow> False)))
    \<and> (\<forall>i < length rs. es ! i = (if fst (rs ! i) \<in> fst ` set (take i rs)
          then Some (kit (DuplicateHandlerRegistrationError ''command'' (fst (rs ! i)))) else None))"
proof -
  note b = register_all_handlers[OF assms(1)]
  have h: "jget (cmd_handlers b) t = map_of rs t" "cmd_mapExpectedError b = mapper"
    using b(1,2) by (simp_all add: new_command_bus_def)
  have "\<forall>i < length rs. es ! i = (if fst (rs ! i) \<in> fst ` set (take i rs)
      then Some (kit (DuplicateHandlerRegistrationError ''command'' (fst (rs ! i)))) else None)"
    unfolding b(3) by (simp add: new_command_bus_def)
  moreover have "case map_of rs t of
      None \<Rightarrow> r = Inl (kit (UnregisteredHandlerError ''command'' t)) \<and> w' = w
    | Some h \<Rightarrow> (case h c w of
        (Inr res, w1) \<Rightarrow> r = Inr res \<and> w' = w1
      | (Inl e, w1) \<Rightarrow> (case r of
          Inl x \<Rightarrow> accounted e x
        | Inr (Err e') \<Rightarrow> (\<exists>m. mapper = Some m \<and> m e w1 = (Inr (Decision e'), w')) \<and> \<not> is_bus_wiring_error e
        | Inr (Ok _) \<Rightarrow> False))"
  proof (cases "map_of rs t")
    case None
    with assms(2) h show ?thesis by (simp add: execute_command_def handlerOrThrow_def)
  next
    case (Some f)
    obtain q w1 where f: "f c w = (q, w1)" by force
    show ?thesis
    proof (cases q)
      case (Inl e)
      with assms(2) h Some f have "mapHandlerFailure e mapper ''command'' w1 = (r, w')"
        by (simp add: execute_command_def handlerOrThrow_def)
      from mapHandlerFailure_cases[OF this] Some f Inl show ?thesis by simp
    next
      case (Inr x)
      with assms(2) h Some f have "r = Inr x" "w' = w1" by (simp_all add: execute_command_def handlerOrThrow_def)
      with Some f Inr show ?thesis by simp
    qed
  qed
  ultimately show ?thesis by blast
qed

text \<open>
  The two ways of the query bus differ in the wrapping only: \<open>execute\<close> is \<open>executeUnsafe\<close>
  with the value wrapped and the failure put to the mapper.
\<close>

lemma query_execute_unsafe:
  "execute_query b t q w = (case executeUnsafe b t q w of
     (Inr r, w') \<Rightarrow> (Inr (Ok r), w')
   | (Inl e, w') \<Rightarrow> mapHandlerFailure e (qry_mapExpectedError b) ''query'' w')"
  by (auto simp: execute_query_def executeUnsafe_def handlerOrThrow_def mapHandlerFailure_def split: option.splits prod.splits sum.splits)

definition ex_refuse :: "(int, (int, string) outcome, nat) handler" where
  "ex_refuse c w = (if c < 0 then (Inl (UserError DOMAIN False 7), Suc w) else (Inr (Ok (c + 1)), Suc w))"

definition ex_mapper :: "(string, nat) mapper" where
  "ex_mapper e w = (Inr (if e = UserError DOMAIN False 7 then Decision ''negative'' else Undefined), w)"

definition ex_bus :: "js_error option list \<times> (int, int, string, nat) command_bus" where
  "ex_bus = register_all [(''add'', ex_refuse), (''add'', \<lambda>c w. (Inr (Ok 0), w))] (new_command_bus (Some ex_mapper))"

theorem command_bus_witness:
  "fst (execute_command (snd ex_bus) ''add'' 4 0) = Inr (Ok 5)
    \<and> fst ex_bus ! 1 = Some (kit (DuplicateHandlerRegistrationError ''command'' ''add''))"
proof -
  obtain r w where e: "execute_command (snd ex_bus) ''add'' 4 0 = (r, w)" by force
  have b: "register_all [(''add'', ex_refuse), (''add'', \<lambda>c w. (Inr (Ok 0), w))] (new_command_bus (Some ex_mapper)) = (fst ex_bus, snd ex_bus)"
    by (simp add: ex_bus_def)
  from command_bus_dispatch[OF b e] have "r = Inr (Ok 5)" "fst ex_bus ! 1 = Some (kit (DuplicateHandlerRegistrationError ''command'' ''add''))"
    by (auto simp: ex_refuse_def)
  with e show ?thesis by simp
qed

end
