(* ===== verification/Event_Bus.thy ===== *)
theory Event_Bus
  imports Errors "HOL-Library.Multiset"
begin

text \<open>
  The in-process event bus (src/events/event-bus.ts). The handler arrays are objects that
  unsubscribe closures hold on to, so they are kept in a store and named by their index; so are
  the closures (\<open>subscription\<close>) and the promises of \<open>once\<close>. A listener is known by its function's
  identity. What listeners do to the bus, what happens while publish waits for them, and when
  the publish is aborted is up to the environment.
\<close>

section \<open>State\<close>

text \<open>A listener of the user, or the closure of a \<open>once\<close> promise.\<close>

datatype listener = Listener nat | OnceListener nat

record subscription =
  sub_type :: "string option"
  sub_array :: nat
  sub_handler :: listener
  sub_removed :: bool

datatype 'e once_result = Resolved 'e | Rejected js_error

record 'e once_promise =
  on_subscription :: "nat option"
  on_timer :: bool
  on_signal :: "nat option"
  on_listener :: bool
  on_settled :: bool
  on_result :: "'e once_result option"

record 'e event_bus =
  eb_handlers :: "(string, nat) jmap"
  eb_arrays :: "listener list list"
  eb_catchAll :: "listener list"
  eb_subscriptions :: "subscription list"
  eb_promises :: "'e once_promise list"
  eb_aborted :: "(nat, js_error) jmap"

definition new_event_bus :: "'e event_bus" where
  "new_event_bus = \<lparr>eb_handlers = [], eb_arrays = [], eb_catchAll = [], eb_subscriptions = [], eb_promises = [], eb_aborted = []\<rparr>"

section \<open>Subscriptions\<close>

definition subscribe :: "string \<Rightarrow> listener \<Rightarrow> 'e event_bus \<Rightarrow> 'e event_bus" where
  "subscribe t h b =
     (let (a, b1) = (case jget (eb_handlers b) t of
            Some a \<Rightarrow> (a, b)
          | None \<Rightarrow> (length (eb_arrays b), b\<lparr>eb_handlers := jset t (length (eb_arrays b)) (eb_handlers b), eb_arrays := eb_arrays b @ [[]]\<rparr>))
      in b1\<lparr>eb_arrays := (eb_arrays b1)[a := eb_arrays b1 ! a @ [h]],
            eb_subscriptions := eb_subscriptions b1 @ [\<lparr>sub_type = Some t, sub_array = a, sub_handler = h, sub_removed = False\<rparr>]\<rparr>)"

definition subscribeAll :: "listener \<Rightarrow> 'e event_bus \<Rightarrow> 'e event_bus" where
  "subscribeAll h b = b\<lparr>eb_catchAll := eb_catchAll b @ [h],
     eb_subscriptions := eb_subscriptions b @ [\<lparr>sub_type = None, sub_array = 0, sub_handler = h, sub_removed = False\<rparr>]\<rparr>"

text \<open>The closure a subscription returned; one that was never returned cannot be called.\<close>

definition unsubscribe :: "nat \<Rightarrow> 'e event_bus \<Rightarrow> 'e event_bus" where
  "unsubscribe i b =
     (if length (eb_subscriptions b) \<le> i then b
      else let s = eb_subscriptions b ! i in
        if sub_removed s then b
        else (case sub_type s of
            Some t \<Rightarrow>
              let arr = eb_arrays b ! sub_array s;
                  b1 = (if sub_handler s \<in> set arr
                    then b\<lparr>eb_arrays := (eb_arrays b)[sub_array s := remove1 (sub_handler s) arr],
                           eb_subscriptions := (eb_subscriptions b)[i := s\<lparr>sub_removed := True\<rparr>]\<rparr>
                    else b)
              in (if eb_arrays b1 ! sub_array s = [] then b1\<lparr>eb_handlers := jdel t (eb_handlers b1)\<rparr> else b1)
          | None \<Rightarrow>
              if sub_handler s \<in> set (eb_catchAll b)
              then b\<lparr>eb_catchAll := remove1 (sub_handler s) (eb_catchAll b),
                     eb_subscriptions := (eb_subscriptions b)[i := s\<lparr>sub_removed := True\<rparr>]\<rparr>
              else b))"

section \<open>Once\<close>

definition update_promise :: "nat \<Rightarrow> ('e once_promise \<Rightarrow> 'e once_promise) \<Rightarrow> 'e event_bus \<Rightarrow> 'e event_bus" where
  "update_promise p f b = b\<lparr>eb_promises := (eb_promises b)[p := f (eb_promises b ! p)]\<rparr>"

text \<open>A promise keeps its first result.\<close>

definition settle_promise :: "nat \<Rightarrow> 'e once_result \<Rightarrow> 'e event_bus \<Rightarrow> 'e event_bus" where
  "settle_promise p r = update_promise p (\<lambda>x. case on_result x of None \<Rightarrow> x\<lparr>on_result := Some r\<rparr> | Some _ \<Rightarrow> x)"

definition cleanup :: "nat \<Rightarrow> 'e event_bus \<Rightarrow> 'e event_bus" where
  "cleanup p b =
     (if on_settled (eb_promises b ! p) then b
      else let b1 = update_promise p (\<lambda>x. x\<lparr>on_settled := True\<rparr>) b;
               b2 = (case on_subscription (eb_promises b ! p) of Some i \<Rightarrow> unsubscribe i b1 | None \<Rightarrow> b1)
           in update_promise p (\<lambda>x. x\<lparr>on_timer := False, on_listener := False\<rparr>) b2)"

text \<open>What every end of a promise does: clean up, then resolve or reject.\<close>

definition finish_promise :: "nat \<Rightarrow> 'e once_result \<Rightarrow> 'e event_bus \<Rightarrow> 'e event_bus" where
  "finish_promise p r b = settle_promise p r (cleanup p b)"

definition once :: "string \<Rightarrow> nat option \<Rightarrow> bool \<Rightarrow> 'e event_bus \<Rightarrow> 'e event_bus" where
  "once t signal timed b =
     (let p = length (eb_promises b)
      in case Option.bind signal (jget (eb_aborted b)) of
        Some reason \<Rightarrow> b\<lparr>eb_promises := eb_promises b @ [\<lparr>on_subscription = None, on_timer = False, on_signal = signal,
            on_listener = False, on_settled = False, on_result = Some (Rejected reason)\<rparr>]\<rparr>
      | None \<Rightarrow> subscribe t (OnceListener p) (b\<lparr>eb_promises := eb_promises b @ [\<lparr>on_subscription = Some (length (eb_subscriptions b)),
            on_timer = timed, on_signal = signal, on_listener = (signal \<noteq> None), on_settled = False, on_result = None\<rparr>]\<rparr>))"

definition timeout_fires :: "nat \<Rightarrow> 'e event_bus \<Rightarrow> 'e event_bus" where
  "timeout_fires p b =
     (if p < length (eb_promises b) \<and> on_timer (eb_promises b ! p)
      then finish_promise p (Rejected (PlainError ''Error'' None)) b else b)"

text \<open>A signal aborts once and calls the listeners that are still registered on it.\<close>

definition signal_aborts :: "nat \<Rightarrow> js_error \<Rightarrow> 'e event_bus \<Rightarrow> 'e event_bus" where
  "signal_aborts s reason b =
     (if jhas (eb_aborted b) s then b
      else fold (\<lambda>p b. if on_listener (eb_promises b ! p) \<and> on_signal (eb_promises b ! p) = Some s
             then finish_promise p (Rejected reason) b else b)
           [0..<length (eb_promises b)] (b\<lparr>eb_aborted := jset s reason (eb_aborted b)\<rparr>))"

section \<open>Operations of the environment\<close>

fun is_user_listener :: "listener \<Rightarrow> bool" where
  "is_user_listener (Listener n) = True"
| "is_user_listener (OnceListener p) = False"

text \<open>The unsubscribe closure of a \<open>once\<close> is private, so only those of user listeners are called.\<close>

datatype bus_op =
    Subscribe string nat
  | SubscribeAll nat
  | Unsubscribe nat
  | Once string "nat option" bool
  | TimeoutFires nat
  | SignalAborts nat js_error

fun run_bus_op :: "bus_op \<Rightarrow> 'e event_bus \<Rightarrow> 'e event_bus" where
  "run_bus_op (Subscribe t n) b = subscribe t (Listener n) b"
| "run_bus_op (SubscribeAll n) b = subscribeAll (Listener n) b"
| "run_bus_op (Unsubscribe i) b = (if i < length (eb_subscriptions b) \<and> is_user_listener (sub_handler (eb_subscriptions b ! i))
     then unsubscribe i b else b)"
| "run_bus_op (Once t s timed) b = once t s timed b"
| "run_bus_op (TimeoutFires p) b = timeout_fires p b"
| "run_bus_op (SignalAborts s r) b = signal_aborts s r b"

definition run_bus_ops :: "bus_op list \<Rightarrow> 'e event_bus \<Rightarrow> 'e event_bus" where
  "run_bus_ops ops b = fold run_bus_op ops b"

section \<open>Publishing\<close>

text \<open>
  \<open>react\<close>: what a listener does to the bus while it runs, and its failure. \<open>between\<close>: what
  else happens while publish waits for the listeners of the \<open>i\<close>-th event. \<open>before\<close> and
  \<open>after\<close>: the abort reason publish finds around the \<open>i\<close>-th event.
\<close>

record 'e bus_env =
  react :: "nat \<Rightarrow> 'e \<Rightarrow> bus_op list \<times> js_error option"
  between :: "nat \<Rightarrow> bus_op list"
  abort_before :: "nat \<Rightarrow> js_error option"
  abort_after :: "nat \<Rightarrow> js_error option"

definition handlers_for :: "'e event_bus \<Rightarrow> string \<Rightarrow> listener list" where
  "handlers_for b t = (case jget (eb_handlers b) t of Some a \<Rightarrow> eb_arrays b ! a | None \<Rightarrow> []) @ eb_catchAll b"

definition deliver :: "'e bus_env \<Rightarrow> 'e \<Rightarrow> listener \<Rightarrow> 'e event_bus \<Rightarrow> js_error option \<times> 'e event_bus" where
  "deliver env e h b = (case h of
     Listener n \<Rightarrow> (snd (react env n e), run_bus_ops (fst (react env n e)) b)
   | OnceListener p \<Rightarrow> (None, finish_promise p (Resolved e) b))"

text \<open>A rejection reason that is no \<open>Error\<close> is wrapped into one.\<close>

definition as_error :: "js_error \<Rightarrow> js_error" where
  "as_error reason = (case reason of Thrown n \<Rightarrow> PlainError ''Error'' (Some reason) | _ \<Rightarrow> reason)"

fun deliver_all :: "'e bus_env \<Rightarrow> 'e \<Rightarrow> listener list \<Rightarrow> 'e event_bus \<Rightarrow> js_error list \<times> (listener \<times> 'e) list \<times> 'e event_bus" where
  "deliver_all env e [] b = ([], [], b)"
| "deliver_all env e (h # hs) b =
     (case deliver env e h b of (failure, b1) \<Rightarrow>
      (case deliver_all env e hs b1 of (errors, calls, b2) \<Rightarrow>
        ((case failure of Some x \<Rightarrow> as_error x # errors | None \<Rightarrow> errors), (h, e) # calls, b2)))"

definition throw_errors :: "js_error list \<Rightarrow> (js_error, unit) res" where
  "throw_errors errors = (case errors of [] \<Rightarrow> Inr () | [x] \<Rightarrow> Inl x | _ \<Rightarrow> Inl (AggregateError errors))"

fun publishWithinContext :: "'e bus_env \<Rightarrow> ('e \<Rightarrow> string) \<Rightarrow> nat \<Rightarrow> 'e list \<Rightarrow> js_error list \<Rightarrow> 'e event_bus
    \<Rightarrow> (js_error, unit) res \<times> (listener \<times> 'e) list \<times> 'e event_bus" where
  "publishWithinContext env type_of i [] errors b = (throw_errors errors, [], b)"
| "publishWithinContext env type_of i (e # es) errors b =
     (case abort_before env i of
        Some reason \<Rightarrow> (Inl reason, [], b)
      | None \<Rightarrow> (case deliver_all env e (handlers_for b (type_of e)) b of (failed, calls, b1) \<Rightarrow>
          let b2 = run_bus_ops (between env i) b1
          in (case abort_after env i of
              Some reason \<Rightarrow> (Inl reason, calls, b2)
            | None \<Rightarrow> (case publishWithinContext env type_of (Suc i) es (errors @ failed) b2 of
                (r, calls', b3) \<Rightarrow> (r, calls @ calls', b3)))))"

definition publish :: "'e bus_env \<Rightarrow> ('e \<Rightarrow> string) \<Rightarrow> 'e list \<Rightarrow> 'e event_bus
    \<Rightarrow> (js_error, unit) res \<times> (listener \<times> 'e) list \<times> 'e event_bus" where
  "publish env type_of events b = publishWithinContext env type_of 0 events [] b"

section \<open>What the handler arrays hold\<close>

definition live_where :: "(subscription \<Rightarrow> bool) \<Rightarrow> subscription list \<Rightarrow> listener multiset" where
  "live_where P ss = image_mset sub_handler (filter_mset (\<lambda>s. \<not> sub_removed s \<and> P s) (mset ss))"

abbreviation on_array :: "nat \<Rightarrow> subscription \<Rightarrow> bool" where
  "on_array a s \<equiv> sub_type s \<noteq> None \<and> sub_array s = a"

definition arrays_ok :: "'e event_bus \<Rightarrow> bool" where
  "arrays_ok b \<longleftrightarrow>
     (\<forall>s \<in> set (eb_subscriptions b). sub_type s \<noteq> None \<longrightarrow> sub_array s < length (eb_arrays b))
     \<and> (\<forall>s \<in> set (eb_subscriptions b). \<forall>s' \<in> set (eb_subscriptions b).
          sub_type s \<noteq> None \<longrightarrow> sub_type s' \<noteq> None \<longrightarrow> sub_array s' = sub_array s \<longrightarrow> sub_type s' = sub_type s)
     \<and> (\<forall>a < length (eb_arrays b). mset (eb_arrays b ! a) = live_where (on_array a) (eb_subscriptions b))
     \<and> mset (eb_catchAll b) = live_where (\<lambda>s. sub_type s = None) (eb_subscriptions b)
     \<and> (\<forall>t a. jget (eb_handlers b) t = Some a \<longrightarrow>
          (\<exists>s \<in> set (eb_subscriptions b). \<not> sub_removed s \<and> sub_type s = Some t \<and> sub_array s = a))
     \<and> (\<forall>s \<in> set (eb_subscriptions b). \<forall>t. \<not> sub_removed s \<longrightarrow> sub_type s = Some t \<longrightarrow> jget (eb_handlers b) t = Some (sub_array s))"

lemma live_append [simp]: "live_where P (ss @ [s]) = live_where P ss + (if \<not> sub_removed s \<and> P s then {#sub_handler s#} else {#})"
  by (simp add: live_where_def)

lemma live_remove:
  assumes "i < length ss" "\<not> sub_removed (ss ! i)" "P (ss ! i)"
  shows "live_where P (ss[i := (ss ! i)\<lparr>sub_removed := True\<rparr>]) = live_where P ss - {#sub_handler (ss ! i)#}"
proof -
  have "ss ! i \<in># filter_mset (\<lambda>s. \<not> sub_removed s \<and> P s) (mset ss)" using assms by simp
  then show ?thesis using assms by (simp add: live_where_def mset_update filter_diff_mset image_mset_Diff)
qed

lemma live_other:
  assumes "i < length ss" "\<not> P (ss ! i)"
  shows "live_where P (ss[i := (ss ! i)\<lparr>sub_removed := True\<rparr>]) = live_where P ss"
  using assms by (simp add: live_where_def mset_update filter_diff_mset)

lemma live_mem: "i < length ss \<Longrightarrow> \<not> sub_removed (ss ! i) \<Longrightarrow> P (ss ! i) \<Longrightarrow> sub_handler (ss ! i) \<in># live_where P ss"
  by (auto simp: live_where_def)

lemma live_empty: "live_where P ss = {#} \<longleftrightarrow> (\<forall>s \<in> set ss. \<not> sub_removed s \<longrightarrow> \<not> P s)"
  by (auto simp: live_where_def simp flip: set_mset_eq_empty_iff)

lemma arrays_ok_new: "arrays_ok new_event_bus"
  by (simp add: arrays_ok_def new_event_bus_def live_where_def)

text \<open>The promises and signals play no part in it.\<close>

lemma arrays_ok_cong:
  assumes "eb_handlers b' = eb_handlers b" "eb_arrays b' = eb_arrays b" "eb_catchAll b' = eb_catchAll b"
    "eb_subscriptions b' = eb_subscriptions b"
  shows "arrays_ok b' = arrays_ok b"
  using assms by (simp add: arrays_ok_def)

lemma update_promise_fields [simp]:
  "eb_handlers (update_promise p f b) = eb_handlers b" "eb_arrays (update_promise p f b) = eb_arrays b"
  "eb_catchAll (update_promise p f b) = eb_catchAll b" "eb_subscriptions (update_promise p f b) = eb_subscriptions b"
  "eb_aborted (update_promise p f b) = eb_aborted b" "length (eb_promises (update_promise p f b)) = length (eb_promises b)"
  by (simp_all add: update_promise_def)

lemma update_promise_arrays [simp]: "arrays_ok (update_promise p f b) = arrays_ok b"
  by (rule arrays_ok_cong) simp_all

lemma arrays_okI:
  assumes "\<And>s. s \<in> set (eb_subscriptions b) \<Longrightarrow> sub_type s \<noteq> None \<Longrightarrow> sub_array s < length (eb_arrays b)"
    and "\<And>s s'. s \<in> set (eb_subscriptions b) \<Longrightarrow> s' \<in> set (eb_subscriptions b) \<Longrightarrow> sub_type s \<noteq> None \<Longrightarrow> sub_type s' \<noteq> None
      \<Longrightarrow> sub_array s' = sub_array s \<Longrightarrow> sub_type s' = sub_type s"
    and "\<And>a. a < length (eb_arrays b) \<Longrightarrow> mset (eb_arrays b ! a) = live_where (on_array a) (eb_subscriptions b)"
    and "mset (eb_catchAll b) = live_where (\<lambda>s. sub_type s = None) (eb_subscriptions b)"
    and "\<And>t a. jget (eb_handlers b) t = Some a \<Longrightarrow> \<exists>s \<in> set (eb_subscriptions b). \<not> sub_removed s \<and> sub_type s = Some t \<and> sub_array s = a"
    and "\<And>s t. s \<in> set (eb_subscriptions b) \<Longrightarrow> \<not> sub_removed s \<Longrightarrow> sub_type s = Some t \<Longrightarrow> jget (eb_handlers b) t = Some (sub_array s)"
  shows "arrays_ok b"
  unfolding arrays_ok_def by (intro conjI ballI allI impI; rule assms; assumption)

lemma arrays_okD:
  assumes "arrays_ok b"
  shows "s \<in> set (eb_subscriptions b) \<Longrightarrow> sub_type s \<noteq> None \<Longrightarrow> sub_array s < length (eb_arrays b)"
    and "s \<in> set (eb_subscriptions b) \<Longrightarrow> s' \<in> set (eb_subscriptions b) \<Longrightarrow> sub_type s \<noteq> None \<Longrightarrow> sub_type s' \<noteq> None
      \<Longrightarrow> sub_array s' = sub_array s \<Longrightarrow> sub_type s' = sub_type s"
    and "a < length (eb_arrays b) \<Longrightarrow> mset (eb_arrays b ! a) = live_where (on_array a) (eb_subscriptions b)"
    and "mset (eb_catchAll b) = live_where (\<lambda>s. sub_type s = None) (eb_subscriptions b)"
    and "jget (eb_handlers b) t = Some a \<Longrightarrow> \<exists>s \<in> set (eb_subscriptions b). \<not> sub_removed s \<and> sub_type s = Some t \<and> sub_array s = a"
    and "s \<in> set (eb_subscriptions b) \<Longrightarrow> \<not> sub_removed s \<Longrightarrow> sub_type s = Some t \<Longrightarrow> jget (eb_handlers b) t = Some (sub_array s)"
  using assms unfolding arrays_ok_def by metis+

text \<open>An array of the map belongs to its type: only subscriptions of the type are on it.\<close>

lemma array_of_type:
  assumes ok: "arrays_ok b" and a: "jget (eb_handlers b) t = Some a"
  shows "a < length (eb_arrays b)"
    and "s \<in> set (eb_subscriptions b) \<Longrightarrow> sub_type s \<noteq> None \<Longrightarrow> sub_array s = a \<Longrightarrow> sub_type s = Some t"
proof -
  from arrays_okD(5)[OF ok a] obtain s0 where s0: "s0 \<in> set (eb_subscriptions b)" "sub_type s0 = Some t" "sub_array s0 = a" by blast
  with arrays_okD(1)[OF ok s0(1)] show "a < length (eb_arrays b)" by simp
  assume "s \<in> set (eb_subscriptions b)" "sub_type s \<noteq> None" "sub_array s = a"
  with arrays_okD(2)[OF ok s0(1), of s] s0 show "sub_type s = Some t" by simp
qed

lemma subscribe_ok:
  assumes ok: "arrays_ok b"
  shows "arrays_ok (subscribe t h b)"
proof -
  note d = arrays_okD[OF ok]
  let ?new = "jget (eb_handlers b) t = None"
  let ?a = "case jget (eb_handlers b) t of Some a \<Rightarrow> a | None \<Rightarrow> length (eb_arrays b)"
  let ?arrays = "if ?new then eb_arrays b @ [[]] else eb_arrays b"
  let ?s = "\<lparr>sub_type = Some t, sub_array = ?a, sub_handler = h, sub_removed = False\<rparr>"
  let ?b = "subscribe t h b"
  have f: "eb_handlers ?b = (if ?new then jset t ?a (eb_handlers b) else eb_handlers b)"
    "eb_arrays ?b = ?arrays[?a := ?arrays ! ?a @ [h]]" "eb_catchAll ?b = eb_catchAll b" "eb_subscriptions ?b = eb_subscriptions b @ [?s]"
    by (auto simp: subscribe_def split: option.split)
  have a: "?a < length ?arrays" using array_of_type(1)[OF ok, of t] by (auto split: option.split)
  have own: "sub_type s = Some t" if "s \<in> set (eb_subscriptions b)" "sub_type s \<noteq> None" "sub_array s = ?a" for s
  proof (cases "jget (eb_handlers b) t")
    case None
    with that d(1)[of s] show ?thesis by simp
  next
    case (Some a)
    with that array_of_type(2)[OF ok Some, of s] show ?thesis by simp
  qed
  have old: "mset (?arrays ! c) = live_where (on_array c) (eb_subscriptions b)" if "c < length ?arrays" for c
  proof (cases "c < length (eb_arrays b)")
    case True
    then show ?thesis using d(3) by (simp add: nth_append)
  next
    case False
    with that have new: ?new by (cases "jget (eb_handlers b) t") simp_all
    with that False have c: "c = length (eb_arrays b)" by simp
    with new have e: "?arrays ! c = []" by simp
    have "\<not> on_array c s" if "s \<in> set (eb_subscriptions b)" for s using d(1)[OF that] c by auto
    then have "live_where (on_array c) (eb_subscriptions b) = {#}" by (simp add: live_empty)
    with e show ?thesis by simp
  qed
  show ?thesis
  proof (rule arrays_okI, unfold f)
    fix s s' assume s: "s \<in> set (eb_subscriptions b @ [?s])" "s' \<in> set (eb_subscriptions b @ [?s])" "sub_type s \<noteq> None" "sub_type s' \<noteq> None" "sub_array s' = sub_array s"
    then consider "s = ?s" "s' = ?s" | "s = ?s" "s' \<in> set (eb_subscriptions b)" | "s \<in> set (eb_subscriptions b)" "s' = ?s"
      | "s \<in> set (eb_subscriptions b)" "s' \<in> set (eb_subscriptions b)" by (simp only: set_append set_simps Un_iff insert_iff empty_iff) blast
    then show "sub_type s' = sub_type s"
    proof cases
      case 2
      with own[of s'] s show ?thesis by simp
    next
      case 3
      with own[of s] s show ?thesis by simp
    next
      case 4
      with d(2)[of s s'] s show ?thesis by simp
    qed simp
  next
    fix c assume "c < length (?arrays[?a := ?arrays ! ?a @ [h]])"
    then show "mset (?arrays[?a := ?arrays ! ?a @ [h]] ! c) = live_where (on_array c) (eb_subscriptions b @ [?s])"
      using old[of c] by (auto simp: nth_list_update)
  next
    fix u c assume u: "jget (if ?new then jset t ?a (eb_handlers b) else eb_handlers b) u = Some c"
    show "\<exists>s \<in> set (eb_subscriptions b @ [?s]). \<not> sub_removed s \<and> sub_type s = Some u \<and> sub_array s = c"
    proof (cases "u = t")
      case True
      with u have "c = ?a" by (auto split: if_splits)
      with True show ?thesis by simp
    next
      case False
      with u have "jget (eb_handlers b) u = Some c" by (simp split: if_splits)
      from d(5)[OF this] show ?thesis by auto
    qed
  next
    fix s u assume s: "s \<in> set (eb_subscriptions b @ [?s])" "\<not> sub_removed s" "sub_type s = Some u"
    show "jget (if ?new then jset t ?a (eb_handlers b) else eb_handlers b) u = Some (sub_array s)"
    proof (cases "s = ?s")
      case True
      with s show ?thesis by auto
    next
      case False
      with s have "jget (eb_handlers b) u = Some (sub_array s)" using d(6)[of s u] by simp
      then show ?thesis by auto
    qed
  next
    fix s assume "s \<in> set (eb_subscriptions b @ [?s])" "sub_type s \<noteq> None"
    then show "sub_array s < length (?arrays[?a := ?arrays ! ?a @ [h]])" using d(1)[of s] a by auto
  qed (use d(4) in simp)
qed

lemma subscribeAll_ok: "arrays_ok b \<Longrightarrow> arrays_ok (subscribeAll h b)"
  unfolding arrays_ok_def by (simp add: subscribeAll_def ball_Un)

text \<open>
  A live subscription is always found in its array, so unsubscribing removes exactly it; an
  array that becomes empty had only been of its type, and goes from the map.
\<close>

lemma unsubscribe_typed:
  assumes ok: "arrays_ok b" and i: "i < length (eb_subscriptions b)" "\<not> sub_removed (eb_subscriptions b ! i)"
    and t: "sub_type (eb_subscriptions b ! i) = Some t"
  defines "s \<equiv> eb_subscriptions b ! i"
  shows "eb_subscriptions (unsubscribe i b) = (eb_subscriptions b)[i := s\<lparr>sub_removed := True\<rparr>]"
    "eb_arrays (unsubscribe i b) = (eb_arrays b)[sub_array s := remove1 (sub_handler s) (eb_arrays b ! sub_array s)]"
    "eb_handlers (unsubscribe i b) = (if remove1 (sub_handler s) (eb_arrays b ! sub_array s) = [] then jdel t (eb_handlers b) else eb_handlers b)"
    "eb_catchAll (unsubscribe i b) = eb_catchAll b" "eb_promises (unsubscribe i b) = eb_promises b" "eb_aborted (unsubscribe i b) = eb_aborted b"
proof -
  have mem: "s \<in> set (eb_subscriptions b)" using i(1) by (simp add: s_def)
  from arrays_okD(1)[OF ok mem] t have a: "sub_array s < length (eb_arrays b)" by (simp add: s_def)
  have "sub_handler s \<in># live_where (on_array (sub_array s)) (eb_subscriptions b)"
    unfolding s_def by (rule live_mem[OF i]) (simp add: t)
  with arrays_okD(3)[OF ok a] have h: "sub_handler s \<in> set (eb_arrays b ! sub_array s)" by (metis set_mset_mset)
  have u: "unsubscribe i b = (let b1 = b\<lparr>eb_arrays := (eb_arrays b)[sub_array s := remove1 (sub_handler s) (eb_arrays b ! sub_array s)],
      eb_subscriptions := (eb_subscriptions b)[i := s\<lparr>sub_removed := True\<rparr>]\<rparr>
    in (if remove1 (sub_handler s) (eb_arrays b ! sub_array s) = [] then b1\<lparr>eb_handlers := jdel t (eb_handlers b1)\<rparr> else b1))"
    using i t h a by (simp add: unsubscribe_def Let_def s_def)
  show "eb_subscriptions (unsubscribe i b) = (eb_subscriptions b)[i := s\<lparr>sub_removed := True\<rparr>]"
    "eb_arrays (unsubscribe i b) = (eb_arrays b)[sub_array s := remove1 (sub_handler s) (eb_arrays b ! sub_array s)]"
    "eb_handlers (unsubscribe i b) = (if remove1 (sub_handler s) (eb_arrays b ! sub_array s) = [] then jdel t (eb_handlers b) else eb_handlers b)"
    "eb_catchAll (unsubscribe i b) = eb_catchAll b" "eb_promises (unsubscribe i b) = eb_promises b" "eb_aborted (unsubscribe i b) = eb_aborted b"
    unfolding u by (simp_all add: Let_def)
qed

lemma unsubscribe_untyped:
  assumes ok: "arrays_ok b" and i: "i < length (eb_subscriptions b)" "\<not> sub_removed (eb_subscriptions b ! i)"
    and t: "sub_type (eb_subscriptions b ! i) = None"
  defines "s \<equiv> eb_subscriptions b ! i"
  shows "eb_subscriptions (unsubscribe i b) = (eb_subscriptions b)[i := s\<lparr>sub_removed := True\<rparr>]"
    "eb_catchAll (unsubscribe i b) = remove1 (sub_handler s) (eb_catchAll b)"
    "eb_arrays (unsubscribe i b) = eb_arrays b" "eb_handlers (unsubscribe i b) = eb_handlers b"
    "eb_promises (unsubscribe i b) = eb_promises b" "eb_aborted (unsubscribe i b) = eb_aborted b"
proof -
  have "sub_handler (eb_subscriptions b ! i) \<in># live_where (\<lambda>s. sub_type s = None) (eb_subscriptions b)"
    by (rule live_mem[OF i]) (simp add: t)
  with arrays_okD(4)[OF ok] have "sub_handler (eb_subscriptions b ! i) \<in> set (eb_catchAll b)" by (metis set_mset_mset)
  then have u: "unsubscribe i b = b\<lparr>eb_catchAll := remove1 (sub_handler s) (eb_catchAll b),
      eb_subscriptions := (eb_subscriptions b)[i := s\<lparr>sub_removed := True\<rparr>]\<rparr>"
    using i t by (simp add: unsubscribe_def Let_def s_def)
  show "eb_subscriptions (unsubscribe i b) = (eb_subscriptions b)[i := s\<lparr>sub_removed := True\<rparr>]"
    "eb_catchAll (unsubscribe i b) = remove1 (sub_handler s) (eb_catchAll b)"
    "eb_arrays (unsubscribe i b) = eb_arrays b" "eb_handlers (unsubscribe i b) = eb_handlers b"
    "eb_promises (unsubscribe i b) = eb_promises b" "eb_aborted (unsubscribe i b) = eb_aborted b"
    unfolding u by simp_all
qed

lemma removed_mem:
  assumes "s' \<in> set (ss[i := (ss ! i)\<lparr>sub_removed := True\<rparr>])" "i < length ss"
  shows "\<exists>s \<in> set ss. sub_type s' = sub_type s \<and> sub_array s' = sub_array s \<and> (\<not> sub_removed s' \<longrightarrow> s' = s)"
proof (cases "s' \<in> set ss")
  case True
  then show ?thesis by blast
next
  case False
  with assms(1) set_update_subset_insert[of ss i "(ss ! i)\<lparr>sub_removed := True\<rparr>"] have "s' = (ss ! i)\<lparr>sub_removed := True\<rparr>" by blast
  then show ?thesis using assms(2) by (intro bexI[of _ "ss ! i"]) simp_all
qed

lemma other_mem: "s \<in> set ss \<Longrightarrow> s \<noteq> ss ! i \<Longrightarrow> s \<in> set (ss[i := x])"
  by (metis in_set_conv_nth length_list_update nth_list_update_neq)

lemma unsubscribe_ok:
  assumes ok: "arrays_ok b"
  shows "arrays_ok (unsubscribe i b)"
proof (cases "i < length (eb_subscriptions b) \<and> \<not> sub_removed (eb_subscriptions b ! i)")
  case False
  then have "unsubscribe i b = b" by (auto simp: unsubscribe_def Let_def)
  with ok show ?thesis by simp
next
  case True
  then have i: "i < length (eb_subscriptions b)" "\<not> sub_removed (eb_subscriptions b ! i)" by simp_all
  let ?s = "eb_subscriptions b ! i"
  note mem = removed_mem[OF _ i(1)]
  note d = arrays_okD[OF ok]
  have si: "?s \<in> set (eb_subscriptions b)" using i(1) by simp
  show ?thesis
  proof (cases "sub_type ?s")
    case None
    note u = unsubscribe_untyped[OF ok i None]
    let ?ss = "(eb_subscriptions b)[i := ?s\<lparr>sub_removed := True\<rparr>]"
    show ?thesis
    proof (rule arrays_okI, unfold u)
      show "mset (remove1 (sub_handler ?s) (eb_catchAll b)) = live_where (\<lambda>s. sub_type s = None) ?ss"
        using d(4) by (simp add: live_remove[OF i, of "\<lambda>s. sub_type s = None"] None)
    next
      fix c assume "c < length (eb_arrays b)"
      from d(3)[OF this] show "mset (eb_arrays b ! c) = live_where (on_array c) ?ss"
        by (simp only: live_other[OF i(1), of "on_array c"] None simp_thms)
    next
      fix t c assume "jget (eb_handlers b) t = Some c"
      from d(5)[OF this] obtain s where s: "s \<in> set (eb_subscriptions b)" "\<not> sub_removed s" "sub_type s = Some t" "sub_array s = c" by blast
      then have "s \<noteq> ?s" using None by auto
      with s(1) have "s \<in> set ?ss" by (blast intro: other_mem)
      with s show "\<exists>s \<in> set ?ss. \<not> sub_removed s \<and> sub_type s = Some t \<and> sub_array s = c" by blast
    next
      fix s assume "s \<in> set ?ss" "sub_type s \<noteq> None"
      with mem[of s] d(1) show "sub_array s < length (eb_arrays b)" by force
    next
      fix s s' assume "s \<in> set ?ss" "s' \<in> set ?ss" "sub_type s \<noteq> None" "sub_type s' \<noteq> None" "sub_array s' = sub_array s"
      with mem[of s] mem[of s'] show "sub_type s' = sub_type s" using d(2) by metis
    next
      fix s v assume s: "s \<in> set ?ss" "\<not> sub_removed s" "sub_type s = Some v"
      with mem[OF s(1)] have m: "s \<in> set (eb_subscriptions b)" by auto
      from d(6)[OF m s(2,3)] show "jget (eb_handlers b) v = Some (sub_array s)" .
    qed
  next
    case (Some t)
    note u = unsubscribe_typed[OF ok i Some]
    let ?a = "sub_array ?s" let ?ss = "(eb_subscriptions b)[i := ?s\<lparr>sub_removed := True\<rparr>]"
    let ?arr = "remove1 (sub_handler ?s) (eb_arrays b ! ?a)"
    from d(1)[OF si] Some have a: "?a < length (eb_arrays b)" by simp
    have arr: "mset ?arr = live_where (on_array ?a) ?ss"
    proof -
      have "on_array ?a ?s" by (simp add: Some)
      from live_remove[OF i, of "on_array ?a", OF this] show ?thesis unfolding mset_remove1 d(3)[OF a] by (rule sym)
    qed
    show ?thesis
    proof (rule arrays_okI, unfold u)
      fix c assume c: "c < length ((eb_arrays b)[?a := ?arr])"
      show "mset ((eb_arrays b)[?a := ?arr] ! c) = live_where (on_array c) ?ss"
      proof (cases "c = ?a")
        case True
        with a arr show ?thesis by simp
      next
        case False
        then have "\<not> on_array c ?s" by simp
        note o = live_other[OF i(1), of "on_array c", OF this]
        from c have "c < length (eb_arrays b)" by simp
        from d(3)[OF this] False show ?thesis unfolding o by simp
      qed
    next
      show "mset (eb_catchAll b) = live_where (\<lambda>s. sub_type s = None) ?ss"
        using d(4) by (simp add: live_other[OF i(1), of "\<lambda>s. sub_type s = None"] Some)
    next
      fix v c assume "jget (if ?arr = [] then jdel t (eb_handlers b) else eb_handlers b) v = Some c"
      then have v: "jget (eb_handlers b) v = Some c" "?arr = [] \<Longrightarrow> v \<noteq> t" by (auto split: if_splits)
      from d(5)[OF v(1)] obtain s where s: "s \<in> set (eb_subscriptions b)" "\<not> sub_removed s" "sub_type s = Some v" "sub_array s = c" by blast
      show "\<exists>s \<in> set ?ss. \<not> sub_removed s \<and> sub_type s = Some v \<and> sub_array s = c"
      proof (cases "v = t")
        case True
        with v(2) have "?arr \<noteq> []" by blast
        then have "mset ?arr \<noteq> {#}" by (metis mset_zero_iff)
        then have "live_where (on_array ?a) ?ss \<noteq> {#}" unfolding arr .
        then obtain s' where s': "s' \<in> set ?ss" "\<not> sub_removed s'" "on_array ?a s'" by (auto simp: live_empty)
        from mem[OF s'(1)] s'(2) have "s' \<in> set (eb_subscriptions b)" by auto
        with s' d(2)[OF si, of s'] Some have "sub_type s' = Some t" by simp
        moreover from d(6)[OF si i(2) Some] v(1) True have "c = ?a" by simp
        ultimately show ?thesis using s' True by blast
      next
        case False
        with s Some have "s \<noteq> ?s" by auto
        with s(1) have "s \<in> set ?ss" by (blast intro: other_mem)
        with s show ?thesis by blast
      qed
    next
      fix s v assume s: "s \<in> set ?ss" "\<not> sub_removed s" "sub_type s = Some v"
      with mem[OF s(1)] have m: "s \<in> set (eb_subscriptions b)" by auto
      have "v \<noteq> t" if "?arr = []"
      proof
        assume "v = t"
        with d(6)[OF m s(2,3)] d(6)[OF si i(2) Some] have "on_array ?a s" using s(3) by simp
        moreover from arr have "live_where (on_array ?a) ?ss = {#}" unfolding that by simp
        ultimately show False using s(1,2) by (auto simp: live_empty)
      qed
      with d(6)[OF m s(2,3)] show "jget (if ?arr = [] then jdel t (eb_handlers b) else eb_handlers b) v = Some (sub_array s)" by simp
    next
      fix s assume "s \<in> set ?ss" "sub_type s \<noteq> None"
      with mem[of s] d(1) show "sub_array s < length ((eb_arrays b)[?a := ?arr])" by force
    next
      fix s s' assume "s \<in> set ?ss" "s' \<in> set ?ss" "sub_type s \<noteq> None" "sub_type s' \<noteq> None" "sub_array s' = sub_array s"
      with mem[of s] mem[of s'] show "sub_type s' = sub_type s" using d(2) by metis
    qed
  qed
qed

section \<open>Promises\<close>

text \<open>
  A promise is pending with a live subscription of its own, or has its result and nothing left
  behind: no subscription, no timer, no listener on its signal.
\<close>

definition promise_ok :: "subscription list \<Rightarrow> nat \<Rightarrow> 'e once_promise \<Rightarrow> bool" where
  "promise_ok ss p x \<longleftrightarrow> (case on_subscription x of
     None \<Rightarrow> on_result x \<noteq> None \<and> \<not> on_timer x \<and> \<not> on_listener x
   | Some i \<Rightarrow> i < length ss \<and> sub_handler (ss ! i) = OnceListener p \<and> sub_removed (ss ! i) = on_settled x
       \<and> (on_settled x \<longleftrightarrow> on_result x \<noteq> None) \<and> (on_settled x \<longrightarrow> \<not> on_timer x \<and> \<not> on_listener x))"

definition promises_ok :: "'e event_bus \<Rightarrow> bool" where
  "promises_ok b \<longleftrightarrow> (\<forall>p < length (eb_promises b). promise_ok (eb_subscriptions b) p (eb_promises b ! p))
     \<and> (\<forall>i < length (eb_subscriptions b). \<forall>p. sub_handler (eb_subscriptions b ! i) = OnceListener p \<longrightarrow>
          p < length (eb_promises b) \<and> on_subscription (eb_promises b ! p) = Some i)"

definition bus_ok :: "'e event_bus \<Rightarrow> bool" where
  "bus_ok b \<longleftrightarrow> arrays_ok b \<and> promises_ok b"

text \<open>What a step keeps of the promises that were there: their subscription and their result.\<close>

definition keeps_promises :: "'e event_bus \<Rightarrow> 'e event_bus \<Rightarrow> bool" where
  "keeps_promises b b' \<longleftrightarrow> length (eb_promises b) \<le> length (eb_promises b')
     \<and> (\<forall>p < length (eb_promises b). on_subscription (eb_promises b' ! p) = on_subscription (eb_promises b ! p)
          \<and> (\<forall>r. on_result (eb_promises b ! p) = Some r \<longrightarrow> on_result (eb_promises b' ! p) = Some r))"

lemma keeps_promises_refl [simp]: "keeps_promises b b"
  by (simp add: keeps_promises_def)

lemma keeps_promises_trans: "keeps_promises b b1 \<Longrightarrow> keeps_promises b1 b2 \<Longrightarrow> keeps_promises b b2"
  unfolding keeps_promises_def by (auto dest: less_le_trans)

lemma keeps_promises_same: "eb_promises b' = eb_promises b \<Longrightarrow> keeps_promises b b'"
  by (simp add: keeps_promises_def)

lemma unsubscribe_subscriptions:
  assumes "arrays_ok b" "i < length (eb_subscriptions b)" "\<not> sub_removed (eb_subscriptions b ! i)"
  shows "eb_subscriptions (unsubscribe i b) = (eb_subscriptions b)[i := (eb_subscriptions b ! i)\<lparr>sub_removed := True\<rparr>]"
    "eb_promises (unsubscribe i b) = eb_promises b"
proof -
  have "eb_subscriptions (unsubscribe i b) = (eb_subscriptions b)[i := (eb_subscriptions b ! i)\<lparr>sub_removed := True\<rparr>]
    \<and> eb_promises (unsubscribe i b) = eb_promises b"
  proof (cases "sub_type (eb_subscriptions b ! i)")
    case None
    with unsubscribe_untyped(1,5)[OF assms] show ?thesis by blast
  next
    case (Some t)
    with unsubscribe_typed(1,5)[OF assms] show ?thesis by blast
  qed
  then show "eb_subscriptions (unsubscribe i b) = (eb_subscriptions b)[i := (eb_subscriptions b ! i)\<lparr>sub_removed := True\<rparr>]"
    "eb_promises (unsubscribe i b) = eb_promises b" by blast+
qed

lemma update_promise_id: "f (eb_promises b ! p) = eb_promises b ! p \<Longrightarrow> update_promise p f b = b"
  unfolding update_promise_def by (cases b) simp

lemma finish_settled:
  assumes "promises_ok b" "p < length (eb_promises b)" "on_settled (eb_promises b ! p)" "on_subscription (eb_promises b ! p) \<noteq> None"
  shows "finish_promise p r b = b"
proof -
  from assms(1,2) have "promise_ok (eb_subscriptions b) p (eb_promises b ! p)" by (simp add: promises_ok_def)
  with assms(3,4) obtain q where "on_result (eb_promises b ! p) = Some q" by (auto simp: promise_ok_def)
  then show ?thesis using assms(3) by (simp add: finish_promise_def cleanup_def settle_promise_def update_promise_id)
qed

lemma finish_pending:
  assumes ok: "bus_ok b" and p: "p < length (eb_promises b)" "\<not> on_settled (eb_promises b ! p)" "on_subscription (eb_promises b ! p) = Some i"
  shows "arrays_ok (finish_promise p r b)"
    "eb_subscriptions (finish_promise p r b) = (eb_subscriptions b)[i := (eb_subscriptions b ! i)\<lparr>sub_removed := True\<rparr>]"
    "eb_promises (finish_promise p r b) = (eb_promises b)[p := (eb_promises b ! p)\<lparr>on_settled := True, on_timer := False, on_listener := False, on_result := Some r\<rparr>]"
proof -
  let ?x = "eb_promises b ! p"
  let ?b1 = "update_promise p (\<lambda>x. x\<lparr>on_settled := True\<rparr>) b"
  from ok p have x: "promise_ok (eb_subscriptions b) p ?x" by (simp add: bus_ok_def promises_ok_def)
  with p have i: "i < length (eb_subscriptions b)" "\<not> sub_removed (eb_subscriptions b ! i)" and n: "on_result ?x = None"
    by (simp_all add: promise_ok_def)
  have a1: "arrays_ok ?b1" using ok by (simp add: bus_ok_def)
  note u = unsubscribe_subscriptions[OF a1, of i] unsubscribe_ok[OF a1, of i]
  have f: "finish_promise p r b = settle_promise p r (update_promise p (\<lambda>x. x\<lparr>on_timer := False, on_listener := False\<rparr>) (unsubscribe i ?b1))"
    using p by (simp add: finish_promise_def cleanup_def Let_def)
  show "arrays_ok (finish_promise p r b)" unfolding f settle_promise_def using u(3) by simp
  show "eb_subscriptions (finish_promise p r b) = (eb_subscriptions b)[i := (eb_subscriptions b ! i)\<lparr>sub_removed := True\<rparr>]"
    unfolding f settle_promise_def using u(1) i by simp
  show "eb_promises (finish_promise p r b) = (eb_promises b)[p := ?x\<lparr>on_settled := True, on_timer := False, on_listener := False, on_result := Some r\<rparr>]"
    unfolding f settle_promise_def using u(2) i p n by (simp add: update_promise_def)
qed

lemma finish_ok:
  assumes ok: "bus_ok b" and p: "p < length (eb_promises b)" "on_subscription (eb_promises b ! p) \<noteq> None"
  shows "bus_ok (finish_promise p r b) \<and> keeps_promises b (finish_promise p r b)"
proof (cases "on_settled (eb_promises b ! p)")
  case True
  with finish_settled[of b p r] ok p show ?thesis by (simp add: bus_ok_def)
next
  case False
  from p(2) obtain i where i: "on_subscription (eb_promises b ! p) = Some i" by blast
  note f = finish_pending[OF ok p(1) False i, of r]
  let ?b = "finish_promise p r b" and ?x = "eb_promises b ! p"
  from ok have pr: "\<And>q. q < length (eb_promises b) \<Longrightarrow> promise_ok (eb_subscriptions b) q (eb_promises b ! q)"
    and own: "\<And>j q. j < length (eb_subscriptions b) \<Longrightarrow> sub_handler (eb_subscriptions b ! j) = OnceListener q \<Longrightarrow>
      q < length (eb_promises b) \<and> on_subscription (eb_promises b ! q) = Some j" by (simp_all add: bus_ok_def promises_ok_def)
  from pr[OF p(1)] i False have x: "i < length (eb_subscriptions b)" "sub_handler (eb_subscriptions b ! i) = OnceListener p" "on_result ?x = None"
    by (simp_all add: promise_ok_def)
  have h: "sub_handler (eb_subscriptions ?b ! j) = sub_handler (eb_subscriptions b ! j)" if "j < length (eb_subscriptions b)" for j
    unfolding f using that x(1) by (simp add: nth_list_update)
  have "promise_ok (eb_subscriptions ?b) q (eb_promises ?b ! q)" if q: "q < length (eb_promises ?b)" for q
  proof (cases "q = p")
    case True
    with i x p(1) show ?thesis unfolding f by (simp add: promise_ok_def)
  next
    case False
    from q have q': "q < length (eb_promises b)" unfolding f by simp
    have "on_subscription (eb_promises b ! q) \<noteq> Some i"
    proof
      assume "on_subscription (eb_promises b ! q) = Some i"
      with pr[OF q'] have "sub_handler (eb_subscriptions b ! i) = OnceListener q" by (simp add: promise_ok_def)
      with x(2) False show False by simp
    qed
    with pr[OF q'] False show ?thesis unfolding f by (auto simp: promise_ok_def nth_list_update split: option.splits)
  qed
  moreover have "q < length (eb_promises ?b) \<and> on_subscription (eb_promises ?b ! q) = Some j"
    if "j < length (eb_subscriptions ?b)" "sub_handler (eb_subscriptions ?b ! j) = OnceListener q" for j q
  proof -
    from that(1) have j: "j < length (eb_subscriptions b)" unfolding f by simp
    from own[OF j] that(2) h[OF j] p(1) show ?thesis unfolding f by (auto simp: nth_list_update)
  qed
  ultimately have "promises_ok ?b" by (simp add: promises_ok_def)
  moreover have "keeps_promises b ?b" unfolding keeps_promises_def f using x(3) p(1) by (simp add: nth_list_update)
  ultimately show ?thesis using f(1) by (simp add: bus_ok_def)
qed

subsection \<open>Every operation keeps the invariant\<close>

lemma promise_ok_more:
  assumes "promise_ok ss p x"
  shows "promise_ok (ss @ [s]) p x"
  using assms by (auto simp: promise_ok_def nth_append split: option.splits)

lemma subscribe_subscriptions:
  "\<exists>a. eb_subscriptions (subscribe t h b) = eb_subscriptions b @ [\<lparr>sub_type = Some t, sub_array = a, sub_handler = h, sub_removed = False\<rparr>]"
  "eb_promises (subscribe t h b) = eb_promises b"
  by (auto simp: subscribe_def split: option.split)

lemma listener_promises:
  assumes "promises_ok b" "eb_subscriptions b' = eb_subscriptions b @ [s]" "eb_promises b' = eb_promises b" "is_user_listener (sub_handler s)"
  shows "promises_ok b'"
  using assms by (auto simp: promises_ok_def nth_append less_Suc_eq intro: promise_ok_more)

lemma once_ok:
  assumes ok: "bus_ok b"
  shows "bus_ok (once t signal timed b) \<and> keeps_promises b (once t signal timed b)"
proof (cases "Option.bind signal (jget (eb_aborted b))")
  case (Some reason)
  let ?x = "\<lparr>on_subscription = None, on_timer = False, on_signal = signal, on_listener = False, on_settled = False, on_result = Some (Rejected reason)\<rparr>"
  have o: "once t signal timed b = b\<lparr>eb_promises := eb_promises b @ [?x]\<rparr>" using Some by (simp add: once_def)
  from ok have "promises_ok (b\<lparr>eb_promises := eb_promises b @ [?x]\<rparr>)"
    by (auto simp: bus_ok_def promises_ok_def nth_append less_Suc_eq promise_ok_def)
  moreover have "arrays_ok (b\<lparr>eb_promises := eb_promises b @ [?x]\<rparr>)" using ok by (simp add: bus_ok_def arrays_ok_def)
  ultimately show ?thesis unfolding o by (simp add: bus_ok_def keeps_promises_def nth_append)
next
  case None
  let ?n = "length (eb_promises b)" and ?i = "length (eb_subscriptions b)"
  let ?x = "\<lparr>on_subscription = Some ?i, on_timer = timed, on_signal = signal, on_listener = (signal \<noteq> None), on_settled = False, on_result = None\<rparr>"
  let ?b = "b\<lparr>eb_promises := eb_promises b @ [?x]\<rparr>"
  have o: "once t signal timed b = subscribe t (OnceListener ?n) ?b" using None by (simp add: once_def)
  have "arrays_ok ?b" using ok by (simp add: bus_ok_def arrays_ok_def)
  then have a: "arrays_ok (once t signal timed b)" unfolding o by (rule subscribe_ok)
  obtain c where s: "eb_subscriptions (once t signal timed b) = eb_subscriptions b @ [\<lparr>sub_type = Some t, sub_array = c, sub_handler = OnceListener ?n, sub_removed = False\<rparr>]"
    using subscribe_subscriptions(1)[of t "OnceListener ?n" ?b] unfolding o by auto
  have p: "eb_promises (once t signal timed b) = eb_promises b @ [?x]" unfolding o by (simp add: subscribe_subscriptions(2))
  have "promises_ok (once t signal timed b)"
    using ok unfolding promises_ok_def s p bus_ok_def
    by (auto simp: nth_append less_Suc_eq promise_ok_def[of _ "length (eb_promises b)"] intro: promise_ok_more)
  with a show ?thesis unfolding keeps_promises_def p by (simp add: bus_ok_def nth_append)
qed

lemma unsubscribe_user_ok:
  assumes ok: "bus_ok b" and h: "i < length (eb_subscriptions b)" "is_user_listener (sub_handler (eb_subscriptions b ! i))"
  shows "bus_ok (unsubscribe i b) \<and> keeps_promises b (unsubscribe i b)"
proof (cases "sub_removed (eb_subscriptions b ! i)")
  case True
  with ok h show ?thesis by (simp add: unsubscribe_def Let_def)
next
  case False
  from ok have a: "arrays_ok b" by (simp add: bus_ok_def)
  note u = unsubscribe_subscriptions[OF a h(1) False]
  have other: "q \<noteq> i \<Longrightarrow> eb_subscriptions (unsubscribe i b) ! q = eb_subscriptions b ! q" for q unfolding u by simp
  have same: "sub_handler (eb_subscriptions (unsubscribe i b) ! q) = sub_handler (eb_subscriptions b ! q)" for q
    unfolding u using h(1) by (cases "q = i") simp_all
  have "promise_ok (eb_subscriptions (unsubscribe i b)) p (eb_promises b ! p)" if p: "p < length (eb_promises b)" for p
  proof (cases "on_subscription (eb_promises b ! p)")
    case None
    with ok p show ?thesis by (auto simp: bus_ok_def promises_ok_def promise_ok_def)
  next
    case (Some j)
    with ok p have j: "promise_ok (eb_subscriptions b) p (eb_promises b ! p)" "sub_handler (eb_subscriptions b ! j) = OnceListener p"
      by (auto simp: bus_ok_def promises_ok_def promise_ok_def)
    with h(2) have "j \<noteq> i" by auto
    with j(1) Some other[of j] show ?thesis by (simp add: promise_ok_def u(1))
  qed
  moreover have "length (eb_subscriptions (unsubscribe i b)) = length (eb_subscriptions b)" unfolding u by simp
  ultimately have "promises_ok (unsubscribe i b)" using ok same unfolding promises_ok_def u(2) bus_ok_def by metis
  with unsubscribe_ok[OF a] keeps_promises_same[OF u(2)] show ?thesis by (simp add: bus_ok_def)
qed

definition finish_if :: "('e once_promise \<Rightarrow> bool) \<Rightarrow> 'e once_result \<Rightarrow> nat \<Rightarrow> 'e event_bus \<Rightarrow> 'e event_bus" where
  "finish_if P r p b = (if P (eb_promises b ! p) then finish_promise p r b else b)"

lemma finish_if_ok:
  assumes ok: "bus_ok b" and p: "p < length (eb_promises b)" and P: "\<And>x. P x \<Longrightarrow> on_timer x \<or> on_listener x"
  shows "bus_ok (finish_if P r p b) \<and> keeps_promises b (finish_if P r p b)"
proof (cases "P (eb_promises b ! p)")
  case True
  from ok p have "promise_ok (eb_subscriptions b) p (eb_promises b ! p)" by (simp add: bus_ok_def promises_ok_def)
  with P[OF True] have "on_subscription (eb_promises b ! p) \<noteq> None" by (auto simp: promise_ok_def split: option.splits)
  from finish_ok[OF ok p this] True show ?thesis by (simp add: finish_if_def)
qed (use ok in \<open>simp add: finish_if_def\<close>)

lemma finish_all_ok:
  assumes P: "\<And>x. P x \<Longrightarrow> on_timer x \<or> on_listener x"
  shows "bus_ok b \<Longrightarrow> \<forall>p \<in> set ps. p < length (eb_promises b) \<Longrightarrow>
    bus_ok (fold (finish_if P r) ps b) \<and> keeps_promises b (fold (finish_if P r) ps b)"
proof (induction ps arbitrary: b)
  case (Cons p ps)
  from finish_if_ok[where P = P and p = p and r = r, OF Cons.prems(1) _ P] Cons.prems(2)
  have s: "bus_ok (finish_if P r p b)" "keeps_promises b (finish_if P r p b)" by auto
  from s(2) Cons.prems(2) have "\<forall>q \<in> set ps. q < length (eb_promises (finish_if P r p b))" by (auto simp: keeps_promises_def)
  from Cons.IH[OF s(1) this] s(2) show ?case by (auto intro: keeps_promises_trans)
qed simp

lemma signal_aborts_ok:
  assumes ok: "bus_ok b"
  shows "bus_ok (signal_aborts s reason b) \<and> keeps_promises b (signal_aborts s reason b)"
proof (cases "jhas (eb_aborted b) s")
  case False
  let ?b = "b\<lparr>eb_aborted := jset s reason (eb_aborted b)\<rparr>"
  let ?P = "\<lambda>x. on_listener x \<and> on_signal x = Some s"
  have b: "bus_ok ?b" using ok by (simp add: bus_ok_def arrays_ok_def promises_ok_def)
  have e: "signal_aborts s reason b = fold (finish_if ?P (Rejected reason)) [0..<length (eb_promises b)] ?b"
    using False by (simp add: signal_aborts_def finish_if_def[abs_def])
  have "bus_ok (signal_aborts s reason b) \<and> keeps_promises ?b (signal_aborts s reason b)"
    unfolding e by (rule finish_all_ok[OF _ b]) simp_all
  then show ?thesis by (simp add: keeps_promises_def)
qed (use ok in \<open>simp add: signal_aborts_def\<close>)

lemma run_bus_op_ok [state_invs]:
  assumes ok: "bus_ok b"
  shows "bus_ok (run_bus_op op b) \<and> keeps_promises b (run_bus_op op b)"
proof (cases op)
  case (Subscribe t n)
  from subscribe_subscriptions[of t "Listener n" b] obtain s where s: "eb_subscriptions (subscribe t (Listener n) b) = eb_subscriptions b @ [s]"
    "is_user_listener (sub_handler s)" by auto
  from listener_promises[OF _ s(1) subscribe_subscriptions(2) s(2)] ok subscribe_ok[of b t "Listener n"] show ?thesis
    by (simp add: Subscribe bus_ok_def keeps_promises_same subscribe_subscriptions)
next
  case (SubscribeAll n)
  have "promises_ok (subscribeAll (Listener n) b)"
    by (rule listener_promises[where b = b and s = "\<lparr>sub_type = None, sub_array = 0, sub_handler = Listener n, sub_removed = False\<rparr>"]) (use ok in \<open>simp_all add: subscribeAll_def bus_ok_def\<close>)
  with ok subscribeAll_ok[of b "Listener n"] show ?thesis by (simp add: SubscribeAll bus_ok_def) (simp add: keeps_promises_def subscribeAll_def)
next
  case (Unsubscribe i)
  with unsubscribe_user_ok[OF ok] ok show ?thesis by simp
next
  case (Once t s timed)
  with once_ok[OF ok] show ?thesis by simp
next
  case (TimeoutFires p)
  show ?thesis
  proof (cases "p < length (eb_promises b)")
    case True
    from finish_if_ok[where P = on_timer and r = "Rejected (PlainError ''Error'' None)", OF ok True] show ?thesis
      using True by (simp add: TimeoutFires timeout_fires_def finish_if_def)
  qed (use ok in \<open>simp add: TimeoutFires timeout_fires_def\<close>)
next
  case (SignalAborts s r)
  with signal_aborts_ok[OF ok] show ?thesis by simp
qed

lemma run_bus_ops_ok: "bus_ok b \<Longrightarrow> bus_ok (run_bus_ops ops b) \<and> keeps_promises b (run_bus_ops ops b)"
proof (induction ops arbitrary: b)
  case (Cons op ops)
  from run_bus_op_ok[OF Cons.prems, of op] have s: "bus_ok (run_bus_op op b)" "keeps_promises b (run_bus_op op b)" by simp_all
  from Cons.IH[OF s(1)] s(2) show ?case by (auto simp: run_bus_ops_def intro: keeps_promises_trans)
qed (simp add: run_bus_ops_def)

subsection \<open>Deliveries\<close>

text \<open>A listener that was in an array: if it is a promise's, the promise is there.\<close>

definition known :: "'e event_bus \<Rightarrow> listener \<Rightarrow> bool" where
  "known b h \<longleftrightarrow> (\<forall>p. h = OnceListener p \<longrightarrow> p < length (eb_promises b) \<and> on_subscription (eb_promises b ! p) \<noteq> None)"

lemma known_keeps: "known b h \<Longrightarrow> keeps_promises b b' \<Longrightarrow> known b' h"
  by (auto simp: known_def keeps_promises_def)

lemma live_known:
  assumes "bus_ok b" "h \<in># live_where P (eb_subscriptions b)"
  shows "known b h"
proof -
  from assms(2) obtain i where "i < length (eb_subscriptions b)" "sub_handler (eb_subscriptions b ! i) = h"
    by (auto simp: live_where_def in_set_conv_nth)
  with assms(1) show ?thesis by (auto simp: bus_ok_def promises_ok_def known_def)
qed

lemma handlers_for_live:
  assumes "arrays_ok b"
  shows "mset (handlers_for b t) = live_where (\<lambda>s. sub_type s = Some t) (eb_subscriptions b) + live_where (\<lambda>s. sub_type s = None) (eb_subscriptions b)"
proof (cases "jget (eb_handlers b) t")
  case None
  then have "\<forall>s \<in> set (eb_subscriptions b). \<not> sub_removed s \<longrightarrow> sub_type s \<noteq> Some t"
    using arrays_okD(6)[OF assms] by force
  then have "live_where (\<lambda>s. sub_type s = Some t) (eb_subscriptions b) = {#}" by (simp add: live_empty)
  with None arrays_okD(4)[OF assms] show ?thesis by (simp add: handlers_for_def)
next
  case (Some a)
  have "on_array a s \<longleftrightarrow> sub_type s = Some t" if "s \<in> set (eb_subscriptions b)" "\<not> sub_removed s" for s
    using array_of_type(2)[OF assms Some that(1)] arrays_okD(6)[OF assms that, of t] Some by auto
  then have "live_where (on_array a) (eb_subscriptions b) = live_where (\<lambda>s. sub_type s = Some t) (eb_subscriptions b)"
    unfolding live_where_def by (intro arg_cong[where f = "image_mset sub_handler"] filter_mset_cong) auto
  with arrays_okD(3)[OF assms array_of_type(1)[OF assms Some]] arrays_okD(4)[OF assms] Some show ?thesis
    by (simp add: handlers_for_def)
qed

lemma deliver_ok:
  assumes ok: "bus_ok b" and h: "known b h" and d: "deliver env e h b = (f, b')"
  shows "bus_ok b' \<and> keeps_promises b b'"
proof (cases h)
  case (Listener n)
  with d run_bus_ops_ok[OF ok] show ?thesis by (auto simp: deliver_def)
next
  case (OnceListener p)
  with h finish_ok[OF ok, of p "Resolved e"] d show ?thesis by (auto simp: deliver_def known_def)
qed

definition listener_failure :: "'e bus_env \<Rightarrow> listener \<Rightarrow> 'e \<Rightarrow> js_error option" where
  "listener_failure env h e = (case h of Listener n \<Rightarrow> snd (react env n e) | OnceListener p \<Rightarrow> None)"

definition failures :: "'e bus_env \<Rightarrow> (listener \<times> 'e) list \<Rightarrow> js_error list" where
  "failures env calls = List.map_filter (\<lambda>c. listener_failure env (fst c) (snd c)) calls"

lemma deliver_all_ok:
  assumes "bus_ok b" "\<forall>h \<in> set hs. known b h" "deliver_all env e hs b = (errors, calls, b')"
  shows "bus_ok b' \<and> keeps_promises b b' \<and> calls = map (\<lambda>h. (h, e)) hs
    \<and> errors = map as_error (failures env calls)"
  using assms
proof (induction hs arbitrary: b errors calls b')
  case (Cons h hs)
  obtain f b1 where d: "deliver env e h b = (f, b1)" by force
  obtain errors1 calls1 b2 where r: "deliver_all env e hs b1 = (errors1, calls1, b2)" by (cases "deliver_all env e hs b1") auto
  have s: "bus_ok b1" "keeps_promises b b1" using deliver_ok[OF Cons.prems(1) _ d] Cons.prems(2) by simp_all
  have "\<forall>h \<in> set hs. known b1 h" using Cons.prems(2) known_keeps[OF _ s(2)] by simp
  from Cons.IH[OF s(1) this r] s(2) d r Cons.prems(3) show ?case
    by (auto simp: map_filter_simps deliver_def failures_def listener_failure_def split: option.splits listener.splits prod.splits
        intro: keeps_promises_trans)
qed (simp add: map_filter_simps failures_def)

lemma publishWithinContext_ok:
  assumes "bus_ok b" "publishWithinContext env type_of i es errors b = (r, calls, b')"
  shows "bus_ok b' \<and> keeps_promises b b'"
  using assms
proof (induction es arbitrary: i errors b r calls b')
  case (Cons e es)
  obtain failed calls1 b1 where d: "deliver_all env e (handlers_for b (type_of e)) b = (failed, calls1, b1)"
    by (cases "deliver_all env e (handlers_for b (type_of e)) b") auto
  have "\<forall>h \<in> set (handlers_for b (type_of e)). known b h"
  proof
    fix h assume "h \<in> set (handlers_for b (type_of e))"
    then have "h \<in># mset (handlers_for b (type_of e))" by simp
    with handlers_for_live[of b] Cons.prems(1) live_known[OF Cons.prems(1)] show "known b h" by (auto simp: bus_ok_def)
  qed
  from deliver_all_ok[OF Cons.prems(1) this d] run_bus_ops_ok[of b1 "between env i"]
  have s: "bus_ok (run_bus_ops (between env i) b1)" "keeps_promises b (run_bus_ops (between env i) b1)"
    by (auto intro: keeps_promises_trans)
  obtain r2 calls2 b3 where p: "publishWithinContext env type_of (Suc i) es (errors @ failed) (run_bus_ops (between env i) b1) = (r2, calls2, b3)"
    by (cases "publishWithinContext env type_of (Suc i) es (errors @ failed) (run_bus_ops (between env i) b1)") auto
  show ?case
  proof (cases "abort_before env i = None \<and> abort_after env i = None")
    case True
    with Cons.prems(2) d p have "b' = b3" by simp
    with Cons.IH[OF s(1) p] s(2) show ?thesis by (auto intro: keeps_promises_trans)
  next
    case False
    with Cons.prems(2) d have "b' = b \<or> b' = run_bus_ops (between env i) b1" by (auto split: option.splits)
    with s Cons.prems(1) show ?thesis by auto
  qed
qed simp

text \<open>The states of a bus: any operations, and any publishing, whatever the listeners do.\<close>

inductive bus_from :: "'e event_bus \<Rightarrow> 'e event_bus \<Rightarrow> bool" for b where
  start: "bus_from b b"
| operated: "bus_from b b1 \<Longrightarrow> bus_from b (run_bus_op op b1)"
| published: "bus_from b b1 \<Longrightarrow> publish env type_of es b1 = (r, calls, b2) \<Longrightarrow> bus_from b b2"

lemma bus_from_ok:
  assumes "bus_from b b'" "bus_ok b"
  shows "bus_ok b' \<and> keeps_promises b b'"
  using assms
proof (induction rule: bus_from.induct)
  case (operated b1 op)
  with run_bus_op_ok[of b1 op] show ?case by (auto intro: keeps_promises_trans)
next
  case (published b1 env type_of es r calls b2)
  from published.IH[OF published.prems] have s: "bus_ok b1" "keeps_promises b b1" by simp_all
  from publishWithinContext_ok[OF s(1) published.hyps(2)[unfolded publish_def]] s(2) show ?case by (auto intro: keeps_promises_trans)
qed simp

lemma new_event_bus_ok: "bus_ok new_event_bus"
  using arrays_ok_new by (simp add: bus_ok_def promises_ok_def new_event_bus_def)

section \<open>Properties\<close>


text \<open>
  C32. A promise of \<open>once\<close> settles at most once, with whichever of the event, the timeout and the
  abort comes first: from then on its result never changes, however the bus is used, and nothing
  of it is left behind, no subscription, no timer and no listener on its signal.
\<close>

theorem once_settles_once:
  assumes "bus_from new_event_bus b" "p < length (eb_promises b)" "on_result (eb_promises b ! p) = Some res" "bus_from b b'"
  shows "on_result (eb_promises b' ! p) = Some res \<and> \<not> on_timer (eb_promises b' ! p) \<and> \<not> on_listener (eb_promises b' ! p)
    \<and> OnceListener p \<notin> set (handlers_for b' t)"
proof -
  from bus_from_ok[OF assms(1) new_event_bus_ok] have ok: "bus_ok b" by blast
  from bus_from_ok[OF assms(4) ok] have ok': "bus_ok b'" and k: "keeps_promises b b'" by simp_all
  from k assms(2,3) have p: "p < length (eb_promises b')" "on_result (eb_promises b' ! p) = Some res"
    by (auto simp: keeps_promises_def)
  from ok' p(1) have x: "promise_ok (eb_subscriptions b') p (eb_promises b' ! p)" by (simp add: bus_ok_def promises_ok_def)
  have dead: "sub_removed (eb_subscriptions b' ! i)" if i: "i < length (eb_subscriptions b')" "sub_handler (eb_subscriptions b' ! i) = OnceListener p" for i
  proof -
    from ok' i have "on_subscription (eb_promises b' ! p) = Some i" by (auto simp: bus_ok_def promises_ok_def)
    with x p(2) show ?thesis by (simp add: promise_ok_def)
  qed
  have "OnceListener p \<notin># mset (handlers_for b' t)"
  proof
    assume "OnceListener p \<in># mset (handlers_for b' t)"
    with handlers_for_live[of b' t] ok' obtain P where "OnceListener p \<in># live_where P (eb_subscriptions b')" by (auto simp: bus_ok_def)
    then obtain i where "i < length (eb_subscriptions b')" "\<not> sub_removed (eb_subscriptions b' ! i)" "sub_handler (eb_subscriptions b' ! i) = OnceListener p"
      by (auto simp: live_where_def in_set_conv_nth)
    with dead show False by blast
  qed
  moreover from x p(2) have "\<not> on_timer (eb_promises b' ! p) \<and> \<not> on_listener (eb_promises b' ! p)"
    by (auto simp: promise_ok_def split: option.splits)
  ultimately show ?thesis using p(2) by simp
qed

text \<open>
  Listener 0 fails, listener 1 unsubscribes itself while it runs, and a promise waits with a
  timeout and a signal.
\<close>

definition ex_bus_env :: "string bus_env" where
  "ex_bus_env = \<lparr>react = (\<lambda>n e. if n = 0 then ([], Some (Thrown 3)) else ([Unsubscribe 1], None)), between = (\<lambda>i. []),
     abort_before = (\<lambda>i. None), abort_after = (\<lambda>i. None)\<rparr>"

definition ex_event_bus :: "string event_bus" where
  "ex_event_bus = run_bus_op (Once ''placed'' (Some 0) True) (run_bus_op (SubscribeAll 1) (run_bus_op (Subscribe ''placed'' 0) new_event_bus))"

definition ex_published :: "(js_error, unit) res \<times> (listener \<times> string) list \<times> string event_bus" where
  "ex_published = publish ex_bus_env (\<lambda>e. ''placed'') [''e''] ex_event_bus"

lemma ex_event_bus_from: "bus_from new_event_bus ex_event_bus"
  unfolding ex_event_bus_def by (intro bus_from.operated bus_from.start)


theorem once_settles_witness:
  "on_result (eb_promises (run_bus_op (TimeoutFires 0) (snd (snd ex_published))) ! 0) = Some (Resolved ''e'')"
proof -
  have p: "publish ex_bus_env (\<lambda>e. ''placed'') [''e''] ex_event_bus = (fst ex_published, fst (snd ex_published), snd (snd ex_published))"
    by (simp add: ex_published_def)
  have b: "bus_from new_event_bus (snd (snd ex_published))" by (rule bus_from.published[OF ex_event_bus_from p])
  have l: "0 < length (eb_promises (snd (snd ex_published)))" and r: "on_result (eb_promises (snd (snd ex_published)) ! 0) = Some (Resolved ''e'')"
    by code_simp+
  from once_settles_once[OF b l r bus_from.operated[OF bus_from.start, of "snd (snd ex_published)" "TimeoutFires 0"]] show ?thesis by blast
qed

end
