(* ===== verification/Json_Values.thy ===== *)
theory Json_Values
  imports Value_Object
begin

text \<open>
  JSON values of integration messages (src/events/integration-message.ts): the check
  \<open>assertJsonValue\<close> on the object graph, the tree a checked value stands for, what
  \<open>JSON.stringify\<close> makes of it and the objects \<open>JSON.parse\<close> builds. A JSON text is known by the tree it
  parses to.
\<close>

section \<open>JSON trees\<close>

datatype json =
    JsonNull | JsonBool bool | JsonNum js_num | JsonStr string | JsonArr "json list" | JsonObj "(string \<times> json) list"

section \<open>Own properties\<close>

text \<open>
  \<open>Reflect.ownKeys\<close> with the descriptors: the elements of a typed array and the characters of
  a string object are own properties too, and the latter has a \<open>length\<close> that is not enumerable. The
  \<open>length\<close> of an array is left out, as the check skips it.
\<close>

definition data_prop :: "jval \<Rightarrow> bool \<Rightarrow> jprop" where
  "data_prop v e = \<lparr>pr_value = v, pr_accessor = False, pr_writable = True, pr_enumerable = e, pr_configurable = True\<rparr>"

definition index_entries :: "jval list \<Rightarrow> (jkey \<times> jprop) list" where
  "index_entries vs = map (\<lambda>i. (PStr (nat_str i), data_prop (vs ! i) True)) [0..<length vs]"

fun exotic_entries :: "jslot \<Rightarrow> (jkey \<times> jprop) list" where
  "exotic_entries (TypedArraySlot _ xs) = index_entries xs"
| "exotic_entries (BoxSlot (JStr s)) =
     index_entries (map (\<lambda>c. JStr [c]) s) @ [(PStr ''length'', data_prop (JNum (Num (of_nat (length s)))) False)]"
| "exotic_entries _ = []"

definition own_entries :: "jheap \<Rightarrow> nat \<Rightarrow> (jkey \<times> jprop) list" where
  "own_entries h r = exotic_entries (slot (obj_at h r)) @ props (obj_at h r)"

section \<open>The check\<close>

abbreviation invalid :: "string \<Rightarrow> js_error" where
  "invalid path \<equiv> kit (InvalidIntegrationMessageError path)"

definition is_index :: "nat \<Rightarrow> string \<Rightarrow> bool" where
  "is_index n key \<longleftrightarrow> list_all is_digit key \<and> nat_str (digits_val key) = key \<and> digits_val key < n"

text \<open>
  One object of the walk as the list of its steps, in the order of the code: a step throws, or names a value to
  check with its path.
\<close>

type_synonym json_step = "(js_error, string \<times> jval) res"

definition named_step :: "string \<Rightarrow> nat \<Rightarrow> jkey \<Rightarrow> json_step list" where
  "named_step path n key = (case key of
     PSym _ \<Rightarrow> [Inl (invalid path)]
   | PStr k \<Rightarrow> if is_index n k then [] else [Inl (invalid (path @ ''.'' @ k))])"

definition element_path :: "string \<Rightarrow> nat \<Rightarrow> string" where
  "element_path path i = path @ ''['' @ nat_str i @ '']''"

definition element_step :: "string \<Rightarrow> (jkey \<times> jprop) list \<Rightarrow> nat \<Rightarrow> json_step" where
  "element_step path es i = (case map_of es (PStr (nat_str i)) of
     None \<Rightarrow> Inl (invalid (element_path path i))
   | Some p \<Rightarrow> if pr_accessor p \<or> \<not> pr_enumerable p then Inl (invalid (element_path path i))
       else Inr (element_path path i, pr_value p))"

definition property_step :: "string \<Rightarrow> jkey \<times> jprop \<Rightarrow> json_step" where
  "property_step path kp = (case kp of (key, p) \<Rightarrow> (case key of
     PSym _ \<Rightarrow> Inl (invalid path)
   | PStr k \<Rightarrow> if k = ''__proto__'' then Inl (invalid (path @ ''.'' @ k))
       else if pr_accessor p \<or> \<not> pr_enumerable p then Inl (invalid (path @ ''.'' @ k))
       else Inr (path @ ''.'' @ k, pr_value p)))"

definition plain_prototype :: "realm \<Rightarrow> jheap \<Rightarrow> nat \<Rightarrow> bool" where
  "plain_prototype realm h r \<longleftrightarrow> prototype (obj_at h r) = Some (realm ''Object'') \<or> prototype (obj_at h r) = None"

definition json_steps :: "realm \<Rightarrow> jheap \<Rightarrow> string \<Rightarrow> nat \<Rightarrow> json_step list" where
  "json_steps realm h path r = (case array_length (slot (obj_at h r)) of
     Some n \<Rightarrow> concat (map (named_step path n \<circ> fst) (own_entries h r)) @ map (element_step path (own_entries h r)) [0..<n]
   | None \<Rightarrow> if \<not> plain_prototype realm h r then [Inl (invalid path)]
       else map (property_step path) (own_entries h r))"

text \<open>
  The walk. \<open>active\<close> holds the objects that contain the current one, as the weak set does at that
  moment. Fuel bounds the depth, which the cycle check bounds by the number of objects.
\<close>

fun check_value :: "realm \<Rightarrow> jheap \<Rightarrow> nat \<Rightarrow> nat list \<Rightarrow> string \<Rightarrow> jval \<Rightarrow> (js_error, unit) res"
  and check_steps :: "realm \<Rightarrow> jheap \<Rightarrow> nat \<Rightarrow> nat list \<Rightarrow> json_step list \<Rightarrow> (js_error, unit) res" where
  "check_value realm h 0 active path v = Inl rangeError"
| "check_value realm h (Suc fuel) active path v = (case v of
     JNull \<Rightarrow> Inr ()
   | JStr s \<Rightarrow> Inr ()
   | JBool b \<Rightarrow> Inr ()
   | JNum x \<Rightarrow> guard_res (is_finite x) (invalid path)
   | JObj r \<Rightarrow> if r \<in> set active then Inl (invalid path)
       else check_steps realm h fuel (r # active) (json_steps realm h path r)
   | _ \<Rightarrow> Inl (invalid path))"
| "check_steps realm h fuel active [] = Inr ()"
| "check_steps realm h fuel active (Inl e # steps) = Inl e"
| "check_steps realm h fuel active (Inr (path, v) # steps) =
     rbind (check_value realm h fuel active path v) (\<lambda>_. check_steps realm h fuel active steps)"

definition assertJsonValue :: "realm \<Rightarrow> jheap \<Rightarrow> jval \<Rightarrow> string \<Rightarrow> (js_error, unit) res" where
  "assertJsonValue realm h v path = check_value realm h (length (objects h) + 2) [] path v"

section \<open>Serialisation and parsing\<close>

text \<open>
  \<open>JSON.stringify\<close>. \<open>special\<close> is the answer of an object that has a callable \<open>toJSON\<close> or is a primitive's box, \<open>None\<close> in
  it an undefined result; it is user code, so a parameter. A value that is not JSON is undefined, too deep a
  graph has a cycle and throws.
\<close>

fun serialise :: "(nat \<Rightarrow> (js_error, json option) res option) \<Rightarrow> jheap \<Rightarrow> nat \<Rightarrow> jval \<Rightarrow> (js_error, json option) res"
  and serialise_all :: "(nat \<Rightarrow> (js_error, json option) res option) \<Rightarrow> jheap \<Rightarrow> nat \<Rightarrow> jval list \<Rightarrow> (js_error, json option list) res" where
  "serialise special h 0 v = Inl typeError"
| "serialise special h (Suc fuel) v = (case v of
     JNull \<Rightarrow> Inr (Some JsonNull)
   | JStr s \<Rightarrow> Inr (Some (JsonStr s))
   | JBool b \<Rightarrow> Inr (Some (JsonBool b))
   | JNum x \<Rightarrow> Inr (Some (if is_finite x then JsonNum x else JsonNull))
   | JBig i \<Rightarrow> Inl typeError
   | JObj r \<Rightarrow> (case special r of
       Some answer \<Rightarrow> answer
     | None \<Rightarrow> (case array_length (slot (obj_at h r)) of
         Some n \<Rightarrow> rbind (serialise_all special h fuel (map (\<lambda>i. get_value h r (PStr (nat_str i))) [0..<n])) (\<lambda>js.
           Inr (Some (JsonArr (map (\<lambda>j. case j of Some x \<Rightarrow> x | None \<Rightarrow> JsonNull) js))))
       | None \<Rightarrow> let es = concat (map (\<lambda>(k, p). case k of
               PStr s \<Rightarrow> if pr_enumerable p then [(s, pr_value p)] else [] | PSym _ \<Rightarrow> []) (own_entries h r))
           in rbind (serialise_all special h fuel (map snd es)) (\<lambda>js.
             Inr (Some (JsonObj (concat (map (\<lambda>(k, j). case j of Some x \<Rightarrow> [(k, x)] | None \<Rightarrow> []) (zip (map fst es) js))))))))
   | _ \<Rightarrow> Inr None)"
| "serialise_all special h fuel [] = Inr []"
| "serialise_all special h fuel (v # vs) = rbind (serialise special h fuel v) (\<lambda>j.
     rbind (serialise_all special h fuel vs) (\<lambda>js. Inr (j # js)))"

definition is_callable :: "jval \<Rightarrow> bool" where
  "is_callable v = (case v of JFun _ \<Rightarrow> True | _ \<Rightarrow> False)"

fun is_box :: "jslot \<Rightarrow> bool" where
  "is_box (BoxSlot _) = True"
| "is_box _ = False"

definition special_objects :: "jheap \<Rightarrow> (nat \<Rightarrow> (js_error, json option) res) \<Rightarrow> nat \<Rightarrow> (js_error, json option) res option" where
  "special_objects h host r =
     (if is_callable (get_value h r (PStr ''toJSON'')) \<or> is_box (slot (obj_at h r)) then Some (host r) else None)"

definition json_stringify :: "jheap \<Rightarrow> (nat \<Rightarrow> (js_error, json option) res) \<Rightarrow> jval \<Rightarrow> (js_error, json option) res" where
  "json_stringify h host = serialise (special_objects h host) h (length (objects h) + 2)"

text \<open>The value of a checked graph as its properties are read, without those exceptions.\<close>

definition json_of :: "jheap \<Rightarrow> jval \<Rightarrow> json option" where
  "json_of h v = (case serialise (\<lambda>_. None) h (length (objects h) + 2) v of Inr j \<Rightarrow> j | Inl _ \<Rightarrow> None)"

text \<open>The objects \<open>JSON.parse\<close> builds.\<close>

definition parsed_array :: "realm \<Rightarrow> jval list \<Rightarrow> jobj" where
  "parsed_array realm vs = \<lparr>slot = ArraySlot (length vs), prototype = Some (realm ''Array''), props = index_entries vs, extensible = True\<rparr>"

definition parsed_object :: "realm \<Rightarrow> (string \<times> jval) list \<Rightarrow> jobj" where
  "parsed_object realm kvs = \<lparr>slot = Ordinary, prototype = Some (realm ''Object''),
     props = map (\<lambda>(k, v). (PStr k, data_prop v True)) kvs, extensible = True\<rparr>"

fun build :: "realm \<Rightarrow> json \<Rightarrow> jheap \<Rightarrow> jval \<times> jheap"
  and build_all :: "realm \<Rightarrow> json list \<Rightarrow> jheap \<Rightarrow> jval list \<times> jheap" where
  "build realm JsonNull h = (JNull, h)"
| "build realm (JsonBool b) h = (JBool b, h)"
| "build realm (JsonNum x) h = (JNum x, h)"
| "build realm (JsonStr s) h = (JStr s, h)"
| "build realm (JsonArr js) h = (case build_all realm js h of (vs, h1) \<Rightarrow>
     (case allocate (parsed_array realm vs) h1 of (r, h2) \<Rightarrow> (JObj r, h2)))"
| "build realm (JsonObj es) h = (case build_all realm (map snd es) h of (vs, h1) \<Rightarrow>
     (case allocate (parsed_object realm (zip (map fst es) vs)) h1 of (r, h2) \<Rightarrow> (JObj r, h2)))"
| "build_all realm [] h = ([], h)"
| "build_all realm (j # js) h = (case build realm j h of (v, h1) \<Rightarrow>
     (case build_all realm js h1 of (vs, h2) \<Rightarrow> (v # vs, h2)))"

section \<open>What the check accepts\<close>

text \<open>
  A value denotes a tree when all of it is JSON: enumerable data properties only, the indices and
  nothing else on an array, string keys and a plain prototype on an object. Being inductive, it
  holds of no cyclic graph.
\<close>

definition plain_value :: "jprop \<Rightarrow> jval \<Rightarrow> bool" where
  "plain_value p v \<longleftrightarrow> \<not> pr_accessor p \<and> pr_enumerable p \<and> pr_value p = v"

definition array_values :: "jheap \<Rightarrow> nat \<Rightarrow> jval list \<Rightarrow> bool" where
  "array_values h r vs \<longleftrightarrow> slot (obj_at h r) = ArraySlot (length vs)
     \<and> (\<forall>k \<in> fst ` set (own_entries h r). \<exists>s. k = PStr s \<and> is_index (length vs) s)
     \<and> (\<forall>i < length vs. \<exists>p. map_of (own_entries h r) (PStr (nat_str i)) = Some p \<and> plain_value p (vs ! i))"

definition object_values :: "realm \<Rightarrow> jheap \<Rightarrow> nat \<Rightarrow> (string \<times> jval) list \<Rightarrow> bool" where
  "object_values realm h r kvs \<longleftrightarrow> array_length (slot (obj_at h r)) = None \<and> plain_prototype realm h r
     \<and> list_all2 (\<lambda>(k, p) (s, v). k = PStr s \<and> s \<noteq> ''__proto__'' \<and> plain_value p v) (own_entries h r) kvs"

inductive denotes :: "realm \<Rightarrow> jheap \<Rightarrow> jval \<Rightarrow> json \<Rightarrow> bool" for realm h where
  null: "denotes realm h JNull JsonNull"
| bool: "denotes realm h (JBool b) (JsonBool b)"
| num: "is_finite x \<Longrightarrow> denotes realm h (JNum x) (JsonNum x)"
| str: "denotes realm h (JStr s) (JsonStr s)"
| arr: "array_values h r vs \<Longrightarrow> list_all2 (denotes realm h) vs js \<Longrightarrow> denotes realm h (JObj r) (JsonArr js)"
| obj: "object_values realm h r kvs \<Longrightarrow> list_all2 (denotes realm h) (map snd kvs) js \<Longrightarrow>
    denotes realm h (JObj r) (JsonObj (zip (map fst kvs) js))"

inductive_cases denotes_cases: "denotes realm h JNull j" "denotes realm h (JBool b) j" "denotes realm h (JNum x) j"
  "denotes realm h (JStr s) j"
inductive_cases denotes_obj: "denotes realm h (JObj r) j"

text \<open>The steps of an object, when it is one of the two shapes and only then.\<close>

lemma array_steps:
  assumes "array_values h r vs"
  shows "json_steps realm h path r = map (\<lambda>i. Inr (element_path path i, vs ! i)) [0..<length vs]"
proof -
  let ?es = "own_entries h r"
  note a = assms[unfolded array_values_def]
  from a have "named_step path (length vs) k = []" if "k \<in> fst ` set ?es" for k
    using that by (auto simp: named_step_def)
  then have "concat (map (named_step path (length vs) \<circ> fst) ?es) = []" by auto
  moreover have "map (element_step path ?es) [0..<length vs] = map (\<lambda>i. Inr (element_path path i, vs ! i)) [0..<length vs]"
  proof (rule map_cong[OF refl])
    fix i assume "i \<in> set [0..<length vs]"
    with a show "element_step path ?es i = Inr (element_path path i, vs ! i)"
      by (force simp: element_step_def plain_value_def)
  qed
  moreover from a have "array_length (slot (obj_at h r)) = Some (length vs)" by simp
  ultimately show ?thesis unfolding json_steps_def by (simp only: option.case append_Nil)
qed

lemma object_steps:
  assumes "object_values realm h r kvs"
  shows "json_steps realm h path r = map (\<lambda>(k, v). Inr (path @ ''.'' @ k, v)) kvs"
proof -
  have "map (property_step path) es = map (\<lambda>(k, v). Inr (path @ ''.'' @ k, v)) kvs"
    if "list_all2 (\<lambda>(k, p) (s, v). k = PStr s \<and> s \<noteq> ''__proto__'' \<and> plain_value p v) es kvs" for es
    using that by (induction rule: list_all2_induct) (auto simp: property_step_def plain_value_def)
  with assms show ?thesis by (simp add: object_values_def json_steps_def)
qed

lemma steps_shape:
  assumes "\<forall>x \<in> set (json_steps realm h path r). \<exists>y. x = Inr y"
  shows "(\<exists>vs. array_values h r vs) \<or> (\<exists>kvs. object_values realm h r kvs)"
proof (cases "array_length (slot (obj_at h r))")
  case (Some n)
  let ?es = "own_entries h r"
  from Some have sl: "slot (obj_at h r) = ArraySlot n" by (cases "slot (obj_at h r)") auto
  from assms Some have st: "\<forall>x \<in> set (concat (map (named_step path n \<circ> fst) ?es)). \<exists>y. x = Inr y"
    "\<forall>i < n. \<exists>y. element_step path ?es i = Inr y" by (auto simp: json_steps_def)
  have "\<exists>s. k = PStr s \<and> is_index n s" if "k \<in> fst ` set ?es" for k
  proof -
    from st(1) that have "\<forall>x \<in> set (named_step path n k). \<exists>y. x = Inr y" by auto
    then show ?thesis by (auto simp: named_step_def split: jkey.splits if_splits)
  qed
  moreover have "\<exists>p. map_of ?es (PStr (nat_str i)) = Some p
      \<and> plain_value p (map (\<lambda>i. pr_value (the (map_of ?es (PStr (nat_str i))))) [0..<n] ! i)" if "i < n" for i
    using st(2) that by (fastforce simp: element_step_def plain_value_def split: option.splits if_splits)
  ultimately have "array_values h r (map (\<lambda>i. pr_value (the (map_of ?es (PStr (nat_str i))))) [0..<n])"
    using sl by (simp add: array_values_def)
  then show ?thesis by blast
next
  case None
  let ?es = "own_entries h r"
  from assms None have pp: "plain_prototype realm h r" and st: "\<forall>kp \<in> set ?es. \<exists>y. property_step path kp = Inr y"
    by (auto simp: json_steps_def split: if_splits)
  have "list_all2 (\<lambda>(k, p) (s, v). k = PStr s \<and> s \<noteq> ''__proto__'' \<and> plain_value p v) ?es
      (map (\<lambda>(k, p). (case k of PStr s \<Rightarrow> s, pr_value p)) ?es)"
    using st by (fastforce simp: list_all2_map2 list_all2_same property_step_def plain_value_def split: jkey.splits if_splits)
  with None pp show ?thesis unfolding object_values_def by blast
qed

lemma check_steps_ok:
  "check_steps realm h fuel active steps = Inr () \<longleftrightarrow>
     (\<forall>x \<in> set steps. \<exists>p v. x = Inr (p, v) \<and> check_value realm h fuel active p v = Inr ())"
proof (induction steps)
  case (Cons x steps)
  then show ?case by (cases x) auto
qed simp

lemma list_all2_choice: "(\<forall>x \<in> set xs. \<exists>y. P x y) \<Longrightarrow> \<exists>ys. list_all2 P xs ys"
  by (induction xs) (auto simp: list_all2_Cons1)

lemma check_denotes: "check_value realm h fuel active path v = Inr () \<Longrightarrow> \<exists>j. denotes realm h v j"
proof (induction fuel arbitrary: active path v)
  case (Suc fuel)
  show ?case
  proof (cases v)
    case (JObj r)
    with Suc.prems have c: "check_steps realm h fuel (r # active) (json_steps realm h path r) = Inr ()"
      by (auto split: if_splits)
    then have ok: "\<forall>x \<in> set (json_steps realm h path r). \<exists>p v. x = Inr (p, v) \<and> check_value realm h fuel (r # active) p v = Inr ()"
      by (simp add: check_steps_ok)
    then have "\<forall>x \<in> set (json_steps realm h path r). \<exists>y. x = Inr y" by blast
    from steps_shape[OF this] show ?thesis
    proof (elim disjE exE)
      fix vs assume a: "array_values h r vs"
      with ok have "\<forall>w \<in> set vs. \<exists>j. denotes realm h w j"
        using Suc.IH by (fastforce simp: array_steps[OF a] in_set_conv_nth)
      from list_all2_choice[OF this] obtain js where "list_all2 (denotes realm h) vs js" by blast
      with a JObj show ?thesis by (blast intro: denotes.arr)
    next
      fix kvs assume o: "object_values realm h r kvs"
      with ok have "\<forall>w \<in> set (map snd kvs). \<exists>j. denotes realm h w j"
        using Suc.IH by (fastforce simp: object_steps[OF o])
      from list_all2_choice[OF this] obtain js where "list_all2 (denotes realm h) (map snd kvs) js" by blast
      with o JObj show ?thesis by (blast intro: denotes.obj)
    qed
  qed (use Suc.prems in \<open>auto intro: denotes.intros\<close>)
qed simp

section \<open>A value denotes at most one tree\<close>

lemma array_values_unique:
  assumes "array_values h r vs" "array_values h r ws"
  shows "vs = ws"
proof (rule nth_equalityI)
  from assms show l: "length vs = length ws" by (simp add: array_values_def)
  fix i assume "i < length vs"
  with assms l show "vs ! i = ws ! i" by (auto simp: array_values_def plain_value_def) (metis option.inject)
qed

lemma list_all2_unique:
  "list_all2 P xs ys \<Longrightarrow> list_all2 Q xs zs \<Longrightarrow> (\<And>x y z. P x y \<Longrightarrow> Q x z \<Longrightarrow> y = z) \<Longrightarrow> ys = zs"
proof (induction arbitrary: zs rule: list_all2_induct)
  case (Cons x xs y ys)
  then show ?case by (auto simp: list_all2_Cons1)
qed simp

lemma object_values_unique:
  assumes "object_values realm h r kvs" "object_values realm h r kws"
  shows "kvs = kws"
proof (rule list_all2_unique)
  show "list_all2 (\<lambda>(k, p) (s, v). k = PStr s \<and> s \<noteq> ''__proto__'' \<and> plain_value p v) (own_entries h r) kvs"
    "list_all2 (\<lambda>(k, p) (s, v). k = PStr s \<and> s \<noteq> ''__proto__'' \<and> plain_value p v) (own_entries h r) kws"
    using assms by (simp_all add: object_values_def)
qed (auto simp: plain_value_def)

lemma not_both_shapes: "array_values h r vs \<Longrightarrow> \<not> object_values realm h r kvs"
  by (simp add: array_values_def object_values_def)

lemma denotes_unique: "denotes realm h v j \<Longrightarrow> denotes realm h v j' \<Longrightarrow> j = j'"
proof (induction arbitrary: j' rule: denotes.induct)
  case (arr r vs js)
  from arr.prems show ?case
  proof (rule denotes_obj)
    fix ws js' assume j: "j' = JsonArr js'" "array_values h r ws" "list_all2 (denotes realm h) ws js'"
    with array_values_unique[OF arr.hyps(1)] have "list_all2 (denotes realm h) vs js'" by blast
    from list_all2_unique[OF arr.IH this] j(1) show ?thesis by blast
  next
    fix kvs assume "object_values realm h r kvs"
    with not_both_shapes[OF arr.hyps(1)] show ?thesis by blast
  qed
next
  case (obj r kvs js)
  from obj.prems show ?case
  proof (rule denotes_obj)
    fix ws assume "array_values h r ws"
    from not_both_shapes[OF this] obj.hyps(1) show ?thesis by blast
  next
    fix kws js' assume j: "j' = JsonObj (zip (map fst kws) js')" "object_values realm h r kws" "list_all2 (denotes realm h) (map snd kws) js'"
    from object_values_unique[OF obj.hyps(1) j(2)] have k: "kws = kvs" by simp
    with j(3) have "list_all2 (denotes realm h) (map snd kvs) js'" by simp
    from list_all2_unique[OF obj.IH this] j(1) k show ?thesis by blast
  qed
qed (auto elim: denotes_cases)

section \<open>The check accepts what denotes a tree, and serialising gives that tree\<close>

lemma size_elements: "j \<in> set js \<Longrightarrow> size j < size (JsonArr js)"
  by (simp add: size_list_estimation' less_Suc_eq_le)

lemma size_members: "length ks = length js \<Longrightarrow> j \<in> set js \<Longrightarrow> size j < size (JsonObj (zip ks js))"
proof -
  assume "length ks = length js" "j \<in> set js"
  then obtain i where i: "i < length js" "j = js ! i" by (auto simp: in_set_conv_nth)
  with \<open>length ks = length js\<close> have "(ks ! i, j) \<in> set (zip ks js)" by (auto simp: set_zip)
  then show ?thesis by (auto simp: less_Suc_eq_le intro: size_list_estimation')
qed

text \<open>The objects that contain the current one, as a list of their references.\<close>

definition enclosing :: "realm \<Rightarrow> jheap \<Rightarrow> nat list \<Rightarrow> json \<Rightarrow> bool" where
  "enclosing realm h active j \<longleftrightarrow> distinct active \<and> set active \<subseteq> heap_refs h
     \<and> (\<forall>a \<in> set active. \<exists>ja. denotes realm h (JObj a) ja \<and> size j < size ja)"

lemma enclosing_fresh: "enclosing realm h active j \<Longrightarrow> denotes realm h (JObj r) j \<Longrightarrow> r \<notin> set active"
  using denotes_unique by (fastforce simp: enclosing_def)

lemma enclosing_child:
  assumes "enclosing realm h active j" "denotes realm h (JObj r) j" "r \<in> heap_refs h" "size j' < size j"
  shows "enclosing realm h (r # active) j'"
  using assms enclosing_fresh[OF assms(1,2)] unfolding enclosing_def by fastforce

lemma enclosing_length: "enclosing realm h active j \<Longrightarrow> length active \<le> length (objects h)"
proof -
  assume "enclosing realm h active j"
  then have "length active = card (set active)" "set active \<subseteq> heap_refs h" by (simp_all add: enclosing_def distinct_card)
  moreover have "card (heap_refs h) \<le> length (objects h)" unfolding heap_refs_def by (metis card_length length_map)
  ultimately show ?thesis by (metis card_mono heap_refs_def le_trans List.finite_set)
qed

lemma in_heap: "jget (objects h) r = Some x \<Longrightarrow> r \<in> heap_refs h"
  unfolding heap_refs_def by (force dest: map_of_SomeD)

lemma own_entries_in_heap: "own_entries h r \<noteq> [] \<Longrightarrow> r \<in> heap_refs h"
  by (cases "jget (objects h) r") (auto simp: own_entries_def obj_at_def intro: in_heap)

lemma array_in_heap: "array_values h r vs \<Longrightarrow> r \<in> heap_refs h"
  by (cases "jget (objects h) r") (auto simp: array_values_def obj_at_def intro: in_heap)

lemma serialise_all_ok:
  "list_all2 (\<lambda>v j. serialise special h fuel v = Inr (Some j)) vs js \<Longrightarrow> serialise_all special h fuel vs = Inr (map Some js)"
  by (induction rule: list_all2_induct) auto

lemma get_value_own:
  assumes "r \<in> heap_refs h" "map_of (props (obj_at h r)) k = Some p"
  shows "get_value h r k = pr_value p"
proof -
  from assms have "\<exists>ps. filter (\<lambda>q. own_prop h q k \<noteq> None) (proto_chain h [] r) = r # ps"
    by (subst proto_chain.simps) (auto simp: heap_refs_def own_prop_def)
  with assms(2) show ?thesis by (auto simp: get_value_def findPropertyDescriptor_def own_prop_def)
qed

lemma array_elements:
  assumes "array_values h r vs"
  shows "map (\<lambda>i. get_value h r (PStr (nat_str i))) [0..<length vs] = vs"
proof (rule nth_equalityI)
  fix i assume "i < length (map (\<lambda>i. get_value h r (PStr (nat_str i))) [0..<length vs])"
  then have i: "i < length vs" by simp
  with assms obtain p where "map_of (props (obj_at h r)) (PStr (nat_str i)) = Some p" "pr_value p = vs ! i"
    by (force simp: array_values_def own_entries_def plain_value_def)
  with get_value_own[OF array_in_heap[OF assms]] i
  show "map (\<lambda>i. get_value h r (PStr (nat_str i))) [0..<length vs] ! i = vs ! i" by simp
qed simp

lemma object_members:
  assumes "object_values realm h r kvs"
  shows "concat (map (\<lambda>(k, p). case k of PStr s \<Rightarrow> if pr_enumerable p then [(s, pr_value p)] else [] | PSym _ \<Rightarrow> [])
    (own_entries h r)) = kvs"
proof -
  have "concat (map (\<lambda>(k, p). case k of PStr s \<Rightarrow> if pr_enumerable p then [(s, pr_value p)] else [] | PSym _ \<Rightarrow> []) es) = kvs"
    if "list_all2 (\<lambda>(k, p) (s, v). k = PStr s \<and> s \<noteq> ''__proto__'' \<and> plain_value p v) es kvs" for es
    using that by (induction rule: list_all2_induct) (auto simp: plain_value_def)
  with assms show ?thesis by (simp add: object_values_def)
qed

lemma present_members:
  "length ks = length js \<Longrightarrow> concat (map (\<lambda>(k, j). case j of Some x \<Rightarrow> [(k, x)] | None \<Rightarrow> []) (zip ks (map Some js))) = zip ks js"
  by (induction ks js rule: list_induct2) auto

definition unspecial :: "realm \<Rightarrow> jheap \<Rightarrow> (nat \<Rightarrow> (js_error, json option) res option) \<Rightarrow> bool" where
  "unspecial realm h special \<longleftrightarrow> (\<forall>r j. denotes realm h (JObj r) j \<longrightarrow> special r = None)"

text \<open>What both walks do with a value that denotes a tree.\<close>

definition walks :: "realm \<Rightarrow> jheap \<Rightarrow> nat \<Rightarrow> nat list \<Rightarrow> jval \<Rightarrow> json \<Rightarrow> bool" where
  "walks realm h fuel active v j \<longleftrightarrow> (\<forall>path. check_value realm h fuel active path v = Inr ())
     \<and> (\<forall>special. unspecial realm h special \<longrightarrow> serialise special h fuel v = Inr (Some j))"

lemma walks_all:
  assumes "list_all2 (walks realm h fuel active) vs js" "unspecial realm h special"
  shows "serialise_all special h fuel vs = Inr (map Some js)"
  by (rule serialise_all_ok, rule list_all2_mono[OF assms(1)]) (use assms(2) in \<open>simp add: walks_def\<close>)

lemma walks_checked:
  assumes "list_all2 (walks realm h fuel active) vs js" "v \<in> set vs"
  shows "check_value realm h fuel active path v = Inr ()"
  using assms by (induction rule: list_all2_induct) (auto simp: walks_def)

text \<open>The step from the members of an object to the object.\<close>

lemma walks_children:
  assumes ih: "list_all2 (\<lambda>v j. denotes realm h v j \<and> (\<forall>active. enclosing realm h active j \<longrightarrow>
      (\<forall>fuel. length (objects h) + 2 \<le> fuel + length active \<longrightarrow> walks realm h fuel active v j))) vs js"
    and d: "denotes realm h (JObj r) ja" and enc: "enclosing realm h active ja"
    and fuel: "length (objects h) + 2 \<le> Suc f + length active"
    and h: "vs \<noteq> [] \<Longrightarrow> r \<in> heap_refs h" and size: "\<And>j. j \<in> set js \<Longrightarrow> size j < size ja"
  shows "list_all2 (walks realm h f (r # active)) vs js"
proof (rule list.rel_mono_strong[OF ih])
  fix v j assume v: "v \<in> set vs" "j \<in> set js" and ih: "denotes realm h v j \<and> (\<forall>active. enclosing realm h active j \<longrightarrow>
      (\<forall>fuel. length (objects h) + 2 \<le> fuel + length active \<longrightarrow> walks realm h fuel active v j))"
  from v(1) have "vs \<noteq> []" by auto
  from h[OF this] have "r \<in> heap_refs h" .
  from enclosing_child[OF enc d this size[OF v(2)]] ih fuel show "walks realm h f (r # active) v j" by simp
qed

lemma fuel_left:
  assumes "enclosing realm h active j" "length (objects h) + 2 \<le> fuel + length active"
  obtains f where "fuel = Suc f"
  using enclosing_length[OF assms(1)] assms(2) by (cases fuel) auto

lemma denotes_walks:
  "denotes realm h v j \<Longrightarrow> enclosing realm h active j \<Longrightarrow> length (objects h) + 2 \<le> fuel + length active \<Longrightarrow>
    walks realm h fuel active v j"
proof (induction arbitrary: active fuel rule: denotes.induct)
  case (arr r vs js)
  from arr.IH have vj: "list_all2 (denotes realm h) vs js" by (rule list_all2_mono) simp
  have d: "denotes realm h (JObj r) (JsonArr js)" by (rule denotes.arr[OF arr.hyps vj])
  from arr.prems obtain f where f: "fuel = Suc f" by (rule fuel_left)
  have w: "list_all2 (walks realm h f (r # active)) vs js"
    by (rule walks_children[OF arr.IH d arr.prems(1)]) (use arr.prems(2) f array_in_heap[OF arr.hyps] size_elements in auto)
  from arr.hyps have len: "array_length (slot (obj_at h r)) = Some (length vs)" by (simp add: array_values_def)
  have "check_steps realm h f (r # active) (json_steps realm h path r) = Inr ()" for path
    using walks_checked[OF w] unfolding check_steps_ok array_steps[OF arr.hyps] by simp
  then have "check_value realm h fuel active path (JObj r) = Inr ()" for path
    using enclosing_fresh[OF arr.prems(1) d] by (simp add: f)
  moreover have "serialise special h fuel (JObj r) = Inr (Some (JsonArr js))" if u: "unspecial realm h special" for special
  proof -
    from u d have "special r = None" by (auto simp: unspecial_def)
    then show ?thesis by (simp add: f len array_elements[OF arr.hyps] walks_all[OF w u] o_def)
  qed
  ultimately show ?case by (simp add: walks_def)
next
  case (obj r kvs js)
  from obj.IH have vj: "list_all2 (denotes realm h) (map snd kvs) js" by (rule list_all2_mono) simp
  have d: "denotes realm h (JObj r) (JsonObj (zip (map fst kvs) js))" by (rule denotes.obj[OF obj.hyps vj])
  from obj.prems obtain f where f: "fuel = Suc f" by (rule fuel_left)
  from vj have l: "length (map fst kvs) = length js" by (auto dest: list_all2_lengthD)
  have "own_entries h r \<noteq> []" if "map snd kvs \<noteq> []" using that obj.hyps by (auto simp: object_values_def)
  with own_entries_in_heap have rh: "map snd kvs \<noteq> [] \<Longrightarrow> r \<in> heap_refs h" by blast
  have w: "list_all2 (walks realm h f (r # active)) (map snd kvs) js"
    by (rule walks_children[OF obj.IH d obj.prems(1) _ rh]) (use obj.prems(2) f size_members[OF l] in auto)
  from obj.hyps have len: "array_length (slot (obj_at h r)) = None" by (simp add: object_values_def)
  have "check_steps realm h f (r # active) (json_steps realm h path r) = Inr ()" for path
    using walks_checked[OF w] by (simp add: check_steps_ok object_steps[OF obj.hyps] split_def)
  then have "check_value realm h fuel active path (JObj r) = Inr ()" for path
    using enclosing_fresh[OF obj.prems(1) d] by (simp add: f)
  moreover have "serialise special h fuel (JObj r) = Inr (Some (JsonObj (zip (map fst kvs) js)))" if u: "unspecial realm h special" for special
  proof -
    from u d have "special r = None" by (auto simp: unspecial_def)
    then show ?thesis by (simp add: f len object_members[OF obj.hyps] walks_all[OF w u] Let_def present_members[OF l])
  qed
  ultimately show ?case by (simp add: walks_def)
qed (auto simp: walks_def elim: fuel_left)

lemma not_enclosed [simp]: "enclosing realm h [] j"
  by (simp add: enclosing_def)

text \<open>A throw of the check is the message error: the fuel is never used up.\<close>

definition message_error :: "(js_error, 'a) res \<Rightarrow> bool" where
  "message_error r \<longleftrightarrow> (\<forall>e. r = Inl e \<longrightarrow> (\<exists>p. e = invalid p))"

lemma message_error_simps [simp]: "message_error (Inr x)" "message_error (Inl e) \<longleftrightarrow> (\<exists>p. e = invalid p)"
  by (simp_all add: message_error_def)

lemma step_errors: "Inl e \<in> set (json_steps realm h path r) \<Longrightarrow> \<exists>p. e = invalid p"
proof -
  have n: "Inl e \<in> set (named_step path n k) \<Longrightarrow> \<exists>p. e = invalid p" for n k
    by (cases k) (auto simp: named_step_def split: if_splits)
  have "element_step path es i = Inl e \<Longrightarrow> \<exists>p. e = invalid p" for es i
    by (auto simp: element_step_def split: option.splits if_splits)
  moreover have "property_step path kp = Inl e \<Longrightarrow> \<exists>p. e = invalid p" for kp
    by (cases kp; cases "fst kp") (auto simp: property_step_def split: if_splits)
  moreover assume "Inl e \<in> set (json_steps realm h path r)"
  ultimately show ?thesis using n
    by (fastforce simp: json_steps_def image_iff dest: sym split: option.splits if_splits)
qed

lemma check_steps_error:
  assumes "\<forall>x \<in> set steps. \<forall>e. x = Inl e \<longrightarrow> (\<exists>p. e = invalid p)"
    and "\<forall>x \<in> set steps. \<forall>p v. x = Inr (p, v) \<longrightarrow> message_error (check_value realm h fuel active p v)"
  shows "message_error (check_steps realm h fuel active steps)"
  using assms
proof (induction steps)
  case (Cons x steps)
  then show ?case
  proof (cases x)
    case (Inr pv)
    obtain p v where pv: "pv = (p, v)" by (cases pv)
    with Inr Cons.prems(2) have "message_error (check_value realm h fuel active p v)" by simp
    with Cons Inr pv show ?thesis by (cases "check_value realm h fuel active p v") auto
  qed simp
qed simp

lemma steps_in_heap: "Inr pv \<in> set (json_steps realm h path r) \<Longrightarrow> r \<in> heap_refs h"
proof (rule own_entries_in_heap, rule notI)
  assume "own_entries h r = []" "Inr pv \<in> set (json_steps realm h path r)"
  then show False by (auto simp: json_steps_def element_step_def split: option.splits if_splits)
qed

lemma check_value_error:
  assumes "distinct active" "set active \<subseteq> heap_refs h" "length (objects h) + 2 \<le> fuel + length active"
  shows "message_error (check_value realm h fuel active path v)"
  using assms
proof (induction fuel arbitrary: active path v)
  case 0
  then have "length active = card (set active)" by (simp add: distinct_card)
  moreover have "card (set active) \<le> card (heap_refs h)" using 0 by (intro card_mono) (simp_all add: heap_refs_def)
  moreover have "card (heap_refs h) \<le> length (objects h)" unfolding heap_refs_def by (metis card_length length_map)
  ultimately show ?case using 0 by simp
next
  case (Suc fuel)
  show ?case
  proof (cases "\<exists>r. v = JObj r \<and> r \<notin> set active")
    case True
    then obtain r where r: "v = JObj r" "r \<notin> set active" by blast
    have "message_error (check_steps realm h fuel (r # active) (json_steps realm h path r))"
    proof (rule check_steps_error)
      show "\<forall>x \<in> set (json_steps realm h path r). \<forall>p v. x = Inr (p, v) \<longrightarrow> message_error (check_value realm h fuel (r # active) p v)"
        using steps_in_heap Suc.prems r by (auto intro!: Suc.IH)
    qed (use step_errors in blast)
    with r show ?thesis by simp
  next
    case False
    then show ?thesis by (cases v) (auto simp: guard_res_def)
  qed
qed

definition no_special_objects :: "realm \<Rightarrow> jheap \<Rightarrow> bool" where
  "no_special_objects realm h \<longleftrightarrow> (\<forall>r j. denotes realm h (JObj r) j \<longrightarrow>
     \<not> is_callable (get_value h r (PStr ''toJSON'')) \<and> \<not> is_box (slot (obj_at h r)))"

lemma no_special_unspecial: "no_special_objects realm h \<Longrightarrow> unspecial realm h (special_objects h host)"
  by (auto simp: no_special_objects_def unspecial_def special_objects_def)

lemma denotes_checked:
  assumes "denotes realm h v j"
  shows "assertJsonValue realm h v path = Inr ()" "json_of h v = Some j"
    "no_special_objects realm h \<Longrightarrow> json_stringify h host v = Inr (Some j)"
proof -
  have w: "walks realm h (length (objects h) + 2) [] v j" by (rule denotes_walks[OF assms]) simp_all
  then show "assertJsonValue realm h v path = Inr ()" by (simp add: walks_def assertJsonValue_def)
  have "unspecial realm h (\<lambda>_. None)" by (simp add: unspecial_def)
  with w have "serialise (\<lambda>_. None) h (length (objects h) + 2) v = Inr (Some j)" unfolding walks_def by blast
  then show "json_of h v = Some j" by (simp add: json_of_def)
  assume "no_special_objects realm h"
  from no_special_unspecial[OF this] w show "json_stringify h host v = Inr (Some j)"
    unfolding walks_def json_stringify_def by blast
qed

section \<open>Parsed values\<close>

text \<open>What JSON text can hold and a message cannot: a number too large for a double, and the key of the prototype accessor.\<close>

fun clean :: "json \<Rightarrow> bool" where
  "clean (JsonNum x) = is_finite x"
| "clean (JsonArr js) \<longleftrightarrow> (\<forall>j \<in> set js. clean j)"
| "clean (JsonObj es) \<longleftrightarrow> (\<forall>e \<in> set es. fst e \<noteq> ''__proto__'' \<and> clean (snd e))"
| "clean _ = True"

lemma denotes_clean: "denotes realm h v j \<Longrightarrow> clean j"
proof (induction rule: denotes.induct)
  case (arr r vs js)
  have "list_all2 (\<lambda>v j. clean j) vs js" by (rule list_all2_mono[OF arr.IH]) simp
  then show ?case by (auto simp: list_all2_conv_all_nth in_set_conv_nth)
next
  case (obj r kvs js)
  have c: "list_all2 (\<lambda>v j. clean j) (map snd kvs) js" by (rule list_all2_mono[OF obj.IH]) simp
  have "list_all2 (\<lambda>(k, p) (s, v). k = PStr s \<and> s \<noteq> ''__proto__'' \<and> plain_value p v) (own_entries h r) kvs"
    using obj.hyps by (simp add: object_values_def)
  then have "\<forall>k \<in> set (map fst kvs). k \<noteq> ''__proto__''" by (induction rule: list_all2_induct) auto
  with c have "list_all2 (\<lambda>v j. clean j) (map snd kvs) js" "\<forall>i < length kvs. fst (kvs ! i) \<noteq> ''__proto__''" by auto
  then show ?case by (auto simp: list_all2_conv_all_nth set_zip)
qed simp_all

definition extends :: "jheap \<Rightarrow> jheap \<Rightarrow> bool" where
  "extends h h' \<longleftrightarrow> (\<forall>r \<in> heap_refs h. r \<in> heap_refs h' \<and> obj_at h' r = obj_at h r)"

lemma extends_refl [simp]: "extends h h"
  by (simp add: extends_def)

lemma extends_trans: "extends h h1 \<Longrightarrow> extends h1 h2 \<Longrightarrow> extends h h2"
  by (simp add: extends_def)

lemma allocate_extends:
  assumes "allocate x h = (r, h1)"
  shows "extends h h1" "extends h1 h' \<Longrightarrow> obj_at h' r = x"
  using allocate_heap[OF assms] by (auto simp: extends_def)

lemma index_entries_at: "i < length vs \<Longrightarrow> map_of (index_entries vs) (PStr (nat_str i)) = Some (data_prop (vs ! i) True)"
proof -
  have "map_of (map (\<lambda>i. (PStr (nat_str i), f i)) xs) (PStr (nat_str i)) = (if i \<in> set xs then Some (f i) else None)" for f :: "nat \<Rightarrow> jprop" and xs i
    by (induction xs) (auto simp: nat_str_inj)
  then show "i < length vs \<Longrightarrow> ?thesis" by (simp add: index_entries_def)
qed

lemma is_index_nat_str: "i < n \<Longrightarrow> is_index n (nat_str i)"
  by (simp add: is_index_def nat_str_digits digits_val_nat_str)

lemma parsed_array_values:
  assumes "obj_at h r = parsed_array realm vs"
  shows "array_values h r vs"
proof -
  have "own_entries h r = index_entries vs" by (simp add: own_entries_def assms parsed_array_def)
  moreover have "slot (obj_at h r) = ArraySlot (length vs)" by (simp add: assms parsed_array_def)
  ultimately show ?thesis
    by (auto simp: array_values_def index_entries_at plain_value_def data_prop_def)
      (auto simp: index_entries_def is_index_nat_str)
qed

lemma parsed_object_values:
  assumes "obj_at h r = parsed_object realm kvs" "\<forall>k \<in> fst ` set kvs. k \<noteq> ''__proto__''"
  shows "object_values realm h r kvs"
proof -
  have "own_entries h r = map (\<lambda>(k, v). (PStr k, data_prop v True)) kvs" by (simp add: own_entries_def assms(1) parsed_object_def)
  moreover have "list_all2 (\<lambda>(k, p) (s, v). k = PStr s \<and> s \<noteq> ''__proto__'' \<and> plain_value p v) (map (\<lambda>(k, v). (PStr k, data_prop v True)) kvs) kvs"
    using assms(2) by (induction kvs) (auto simp: plain_value_def data_prop_def)
  ultimately show ?thesis by (simp add: object_values_def plain_prototype_def assms(1) parsed_object_def)
qed

definition built :: "realm \<Rightarrow> jheap \<Rightarrow> jval \<Rightarrow> json \<Rightarrow> bool" where
  "built realm h v j \<longleftrightarrow> (\<forall>h'. extends h h' \<longrightarrow> denotes realm h' v j)"

lemma built_mono: "built realm h v j \<Longrightarrow> extends h h' \<Longrightarrow> built realm h' v j"
  using extends_trans unfolding built_def by blast

lemma build_ok:
  "clean j \<Longrightarrow> build realm j h = (v, h1) \<Longrightarrow> extends h h1 \<and> built realm h1 v j"
  "\<forall>j \<in> set js. clean j \<Longrightarrow> build_all realm js h = (vs, h1) \<Longrightarrow> extends h h1 \<and> list_all2 (built realm h1) vs js"
proof (induction realm j h and realm js h arbitrary: v h1 and vs h1 rule: build_build_all.induct)
  case (5 realm js h)
  obtain ws h2 where b: "build_all realm js h = (ws, h2)" by force
  with 5 have ih: "extends h h2" "list_all2 (built realm h2) ws js" by auto
  obtain r where al: "allocate (parsed_array realm ws) h2 = (r, h1)" "v = JObj r"
    using 5(3) b by (auto split: prod.splits)
  have "denotes realm h' (JObj r) (JsonArr js)" if e: "extends h1 h'" for h'
  proof (rule denotes.arr)
    show "array_values h' r ws" by (rule parsed_array_values[OF allocate_extends(2)[OF al(1) e]])
    show "list_all2 (denotes realm h') ws js"
      by (rule list_all2_mono[OF ih(2)]) (use extends_trans[OF allocate_extends(1)[OF al(1)] e] in \<open>simp add: built_def\<close>)
  qed
  with al(2) extends_trans[OF ih(1) allocate_extends(1)[OF al(1)]] show ?case by (simp add: built_def)
next
  case (6 realm es h)
  obtain ws h2 where b: "build_all realm (map snd es) h = (ws, h2)" by force
  with 6 have ih: "extends h h2" "list_all2 (built realm h2) ws (map snd es)" by auto
  then have l: "length ws = length es" by (auto dest: list_all2_lengthD)
  obtain r where al: "allocate (parsed_object realm (zip (map fst es) ws)) h2 = (r, h1)" "v = JObj r"
    using 6(3) b by (auto split: prod.splits)
  have "denotes realm h' (JObj r) (JsonObj es)" if e: "extends h1 h'" for h'
  proof -
    have k: "map fst (zip (map fst es) ws) = map fst es" "map snd (zip (map fst es) ws) = ws" by (simp_all add: l)
    have "object_values realm h' r (zip (map fst es) ws)"
      by (rule parsed_object_values[OF allocate_extends(2)[OF al(1) e]]) (use 6(2) in \<open>auto simp: set_zip l\<close>)
    moreover have "list_all2 (denotes realm h') ws (map snd es)"
      by (rule list_all2_mono[OF ih(2)]) (use extends_trans[OF allocate_extends(1)[OF al(1)] e] in \<open>simp add: built_def\<close>)
    ultimately have "denotes realm h' (JObj r) (JsonObj (zip (map fst es) (map snd es)))"
      using denotes.obj[of realm h' r "zip (map fst es) ws" "map snd es"] k by simp
    then show ?thesis by (simp add: zip_map_fst_snd)
  qed
  with al(2) extends_trans[OF ih(1) allocate_extends(1)[OF al(1)]] show ?case by (simp add: built_def)
next
  case (8 realm j js h)
  obtain w h2 where b: "build realm j h = (w, h2)" by force
  obtain ws h3 where bs: "build_all realm js h2 = (ws, h3)" by force
  from 8 b bs have "extends h h2" "built realm h2 w j" "extends h2 h3" "list_all2 (built realm h3) ws js" "vs = w # ws" "h1 = h3" by auto
  then show ?case using built_mono extends_trans by auto
qed (auto simp: built_def intro: denotes.intros)

text \<open>A graph of data has no special objects, and parsing adds only data.\<close>

definition data_object :: "jobj \<Rightarrow> bool" where
  "data_object x \<longleftrightarrow> \<not> is_box (slot x) \<and> (\<forall>kp \<in> set (props x). \<not> is_callable (pr_value (snd kp)))"

definition data_only :: "jheap \<Rightarrow> bool" where
  "data_only h \<longleftrightarrow> (\<forall>rx \<in> set (objects h). data_object (snd rx))"

lemma data_only_object: "data_only h \<Longrightarrow> data_object (obj_at h r)"
  unfolding data_only_def obj_at_def
  by (cases "jget (objects h) r") (force dest: jget_mem simp: data_object_def)+

lemma data_only_unspecial:
  assumes "data_only h"
  shows "no_special_objects realm h"
proof -
  have "\<not> is_callable (get_value h r k)" for r k
  proof (cases "findPropertyDescriptor h r k")
    case (Some p)
    then obtain q where "own_prop h q k = Some p" by (auto simp: findPropertyDescriptor_def split: list.splits)
    then have "(k, p) \<in> set (props (obj_at h q))" by (auto simp: own_prop_def dest: jget_mem)
    with data_only_object[OF assms, of q] Some show ?thesis by (auto simp: get_value_def data_object_def)
  qed (simp add: get_value_def is_callable_def)
  moreover from data_only_object[OF assms] have "\<not> is_box (slot (obj_at h r))" for r by (simp add: data_object_def)
  ultimately show ?thesis by (simp add: no_special_objects_def)
qed

lemma allocate_data:
  "data_only h \<Longrightarrow> allocate x h = (r, h1) \<Longrightarrow> data_object x \<Longrightarrow> data_only h1"
  by (auto simp: data_only_def allocate_def)

lemma build_data:
  "build realm j h = (v, h1) \<Longrightarrow> data_only h \<Longrightarrow> data_only h1 \<and> \<not> is_callable v"
  "build_all realm js h = (vs, h1) \<Longrightarrow> data_only h \<Longrightarrow> data_only h1 \<and> (\<forall>v \<in> set vs. \<not> is_callable v)"
proof (induction realm j h and realm js h arbitrary: v h1 and vs h1 rule: build_build_all.induct)
  case (5 realm js h)
  obtain ws h2 where b: "build_all realm js h = (ws, h2)" by force
  with 5 have "data_only h2" "\<forall>v \<in> set ws. \<not> is_callable v" by auto
  moreover from this(2) have "data_object (parsed_array realm ws)"
    by (auto simp: data_object_def parsed_array_def index_entries_def data_prop_def)
  ultimately show ?case using 5(2) b allocate_data[of h2 "parsed_array realm ws"]
    by (auto simp: is_callable_def split: prod.splits)
next
  case (6 realm es h)
  obtain ws h2 where b: "build_all realm (map snd es) h = (ws, h2)" by force
  with 6 have "data_only h2" "\<forall>v \<in> set ws. \<not> is_callable v" by auto
  moreover from this(2) have "data_object (parsed_object realm (zip (map fst es) ws))"
    by (auto simp: data_object_def parsed_object_def data_prop_def dest: set_zip_rightD)
  ultimately show ?case using 6(2) b allocate_data[of h2 "parsed_object realm (zip (map fst es) ws)"]
    by (auto simp: is_callable_def split: prod.splits)
qed (auto simp: is_callable_def split: prod.splits)

definition empty_heap :: jheap where
  "empty_heap = \<lparr>objects = [], funs = [], intrinsic_sources = []\<rparr>"

lemma build_empty:
  assumes "build realm j empty_heap = (v, h)"
  shows "no_special_objects realm h" "clean j \<Longrightarrow> denotes realm h v j"
  using build_data(1)[OF assms] data_only_unspecial build_ok(1)[of j realm empty_heap v h] assms
  by (auto simp: empty_heap_def data_only_def built_def)

section \<open>Properties\<close>


definition ex_json :: json where
  "ex_json = JsonObj [(''a'', JsonArr [JsonNum (Num 1), JsonNull]), (''b'', JsonStr ''x'')]"

definition ex_realm :: realm where
  "ex_realm name = (if name = ''Object'' then 1000 else 1001)"


text \<open>
  An array of a subclass passes the check, which looks at the prototypes of other objects only;
  serialising then calls the \<open>toJSON\<close> it inherits, and the text is not that of the value checked.
\<close>

definition ex_subclass_array :: jheap where
  "ex_subclass_array = \<lparr>objects =
     [(0, \<lparr>slot = ArraySlot 0, prototype = Some 1, props = [], extensible = True\<rparr>),
      (1, \<lparr>slot = Ordinary, prototype = None, props = [(PStr ''toJSON'', data_prop (JFun 0) False)], extensible = True\<rparr>)],
     funs = [], intrinsic_sources = []\<rparr>"

lemma subclass_array_bypasses_check:
  "assertJsonValue ex_realm ex_subclass_array (JObj 0) ''$'' = Inr ()
   \<and> json_of ex_subclass_array (JObj 0) = Some (JsonArr [])
   \<and> json_stringify ex_subclass_array (\<lambda>_. Inr (Some (JsonStr ''other''))) (JObj 0) = Inr (Some (JsonStr ''other''))"
  by code_simp

end
