(* ===== verification/Timestamps.thy ===== *)
theory Timestamps
  imports Js_Objects
begin

text \<open>
  The timestamps of integration messages (src/events/integration-message.ts): the canonical
  form \<open>Date.prototype.toISOString\<close> prints and the RFC 3339 form accepted from the wire, over
  the proleptic Gregorian calendar of ECMAScript. A valid time is its milliseconds since the
  epoch.
\<close>

section \<open>The calendar\<close>

text \<open>The number of the day, from the epoch, on which a year begins.\<close>

definition day_from_year :: "int \<Rightarrow> int" where
  "day_from_year y = 365 * (y - 1970) + (y - 1969) div 4 - (y - 1901) div 100 + (y - 1601) div 400"

definition daysInMonth :: "int \<Rightarrow> nat \<Rightarrow> nat" where
  "daysInMonth year month =
     (if month = 2 then (if year mod 4 = 0 \<and> (year mod 100 \<noteq> 0 \<or> year mod 400 = 0) then 29 else 28)
      else if month = 4 \<or> month = 6 \<or> month = 9 \<or> month = 11 then 30 else 31)"

definition days_before_month :: "int \<Rightarrow> nat \<Rightarrow> nat" where
  "days_before_month y m = sum_list (map (daysInMonth y) [1..<m])"

record date_time =
  dt_year :: int
  dt_month :: nat
  dt_day :: nat
  dt_hour :: nat
  dt_minute :: nat
  dt_second :: nat
  dt_ms :: nat

definition valid_date_time :: "date_time \<Rightarrow> bool" where
  "valid_date_time x \<longleftrightarrow> 1 \<le> dt_month x \<and> dt_month x \<le> 12 \<and> 1 \<le> dt_day x
     \<and> dt_day x \<le> daysInMonth (dt_year x) (dt_month x)
     \<and> dt_hour x \<le> 23 \<and> dt_minute x \<le> 59 \<and> dt_second x \<le> 59 \<and> dt_ms x \<le> 999"

definition make_day :: "int \<Rightarrow> nat \<Rightarrow> nat \<Rightarrow> int" where
  "make_day y m d = day_from_year y + int (days_before_month y m) + int d - 1"

definition make_clock :: "nat \<Rightarrow> nat \<Rightarrow> nat \<Rightarrow> nat \<Rightarrow> nat" where
  "make_clock hour minute second ms = ((hour * 60 + minute) * 60 + second) * 1000 + ms"

definition make_time :: "date_time \<Rightarrow> int" where
  "make_time x = make_day (dt_year x) (dt_month x) (dt_day x) * 86400000
     + int (make_clock (dt_hour x) (dt_minute x) (dt_second x) (dt_ms x))"

text \<open>The year of a day: an estimate from the mean length of a year, then one step.\<close>

definition year_from_day :: "int \<Rightarrow> int" where
  "year_from_day d =
     (let y = 1970 + 400 * d div 146097
      in if d < day_from_year y then y - 1 else if day_from_year (y + 1) \<le> d then y + 1 else y)"

function month_from :: "int \<Rightarrow> nat \<Rightarrow> nat \<Rightarrow> nat \<times> nat" where
  "month_from y m d =
     (if 12 \<le> m \<or> d < daysInMonth y m then (m, Suc d) else month_from y (Suc m) (d - daysInMonth y m))"
  by pat_completeness auto
termination by (relation "measure (\<lambda>(y, m, d). 12 - m)") auto

declare month_from.simps [simp del]

definition split_time :: "int \<Rightarrow> date_time" where
  "split_time t =
     (let d = t div 86400000; c = nat (t mod 86400000); y = year_from_day d;
          md = month_from y 1 (nat (d - day_from_year y))
      in \<lparr>dt_year = y, dt_month = fst md, dt_day = snd md, dt_hour = c div 3600000,
          dt_minute = c div 60000 mod 60, dt_second = c div 1000 mod 60, dt_ms = c mod 1000\<rparr>)"

section \<open>Days and civil dates determine each other\<close>

lemma div_bounds: "0 < k \<Longrightarrow> k * (x div k) \<le> (x :: int)" "0 < k \<Longrightarrow> x < k * (x div k) + k"
  using mult_div_mod_eq[of k x] pos_mod_sign[of k x] pos_mod_bound[of k x] by linarith+

lemma div_step:
  assumes "0 < (k :: int)" "k dvd c"
  shows "(y - c) div k = (y - c - 1) div k + (if k dvd y then 1 else 0)"
proof -
  from assms(2) obtain n where c: "c = k * n" by (rule dvdE)
  have step: "y div k = (y - 1) div k + (if k dvd y then 1 else 0)"
  proof (cases "k dvd y")
    case True
    then obtain m where m: "y = k * m" by (rule dvdE)
    have "(k * m - 1) div k = m - 1"
      by (rule int_div_pos_eq[of _ _ _ "k - 1"]) (use assms(1) in \<open>auto simp: algebra_simps\<close>)
    with m True assms(1) show ?thesis by simp
  next
    case False
    then have "y mod k \<noteq> 0" by (simp add: dvd_eq_mod_eq_0)
    with assms(1) pos_mod_sign[of k y] have r: "1 \<le> y mod k" by linarith
    have "(y - 1) div k = y div k"
      using mult_div_mod_eq[of k y] pos_mod_bound[of k y] assms(1) r
      by (intro int_div_pos_eq[of _ _ _ "y mod k - 1"]) linarith+
    with False show ?thesis by simp
  qed
  have shift: "(y - c) div k = y div k - n" "(y - c - 1) div k = (y - 1) div k - n"
    using assms(1) div_mult_self2[of k y "- n"] div_mult_self2[of k "y - 1" "- n"] by (simp_all add: c algebra_simps)
  show ?thesis by (simp add: shift step)
qed

lemma year_length: "day_from_year (y + 1) - day_from_year y = (if daysInMonth y 2 = 29 then 366 else 365)"
proof -
  define a b c where abc: "a = (y - 1969) div 4" "b = (y - 1901) div 100" "c = (y - 1601) div 400"
  have steps: "(y - 1968) div 4 = a + (if 4 dvd y then 1 else 0)" "(y - 1900) div 100 = b + (if 100 dvd y then 1 else 0)"
    "(y - 1600) div 400 = c + (if 400 dvd y then 1 else 0)"
    using div_step[of 4 1968 y] div_step[of 100 1900 y] div_step[of 400 1600 y] by (simp_all add: abc)
  have shift: "y + 1 - 1969 = y - 1968" "y + 1 - 1901 = y - 1900" "y + 1 - 1601 = y - 1600" by simp_all
  have "day_from_year (y + 1) - day_from_year y
      = 365 + (if 4 dvd y then 1 else 0) - (if 100 dvd y then 1 else 0) + (if 400 dvd y then 1 else 0)"
    unfolding day_from_year_def shift steps abc[symmetric] by (simp add: algebra_simps)
  moreover have "100 dvd y \<longrightarrow> 4 dvd y" "400 dvd y \<longrightarrow> 100 dvd y"
    using dvd_trans[of 4 100 y] dvd_trans[of 100 400 y] by simp_all
  ultimately show ?thesis unfolding daysInMonth_def dvd_eq_mod_eq_0[symmetric] by (auto simp only: split: if_splits)
qed

lemma year_step: "day_from_year y + 365 \<le> day_from_year (y + 1)" "day_from_year (y + 1) \<le> day_from_year y + 366"
  using year_length[of y] by (auto split: if_splits)

lemma day_from_year_bounds:
  "400 * day_from_year y \<le> 146097 * (y - 1970) + 589" "146097 * (y - 1970) - 507 \<le> 400 * day_from_year y"
proof -
  define a b c where abc: "a = (y - 1969) div 4" "b = (y - 1901) div 100" "c = (y - 1601) div 400"
  have B: "4 * a \<le> y - 1969" "y - 1969 < 4 * a + 4" "100 * b \<le> y - 1901" "y - 1901 < 100 * b + 100"
    "400 * c \<le> y - 1601" "y - 1601 < 400 * c + 400"
    unfolding abc by (rule div_bounds, simp)+
  have D: "day_from_year y = 365 * (y - 1970) + a - b + c" by (simp add: day_from_year_def abc)
  show "400 * day_from_year y \<le> 146097 * (y - 1970) + 589" unfolding D using B(1,4,5) by (simp add: algebra_simps)
  show "146097 * (y - 1970) - 507 \<le> 400 * day_from_year y" unfolding D using B(2,3,6) by (simp add: algebra_simps)
qed

lemma year_from_day: "day_from_year (year_from_day d) \<le> d \<and> d < day_from_year (year_from_day d + 1)"
proof -
  define e where "e = 400 * d div 146097"
  have e: "146097 * e \<le> 400 * d" "400 * d < 146097 * e + 146097"
    using div_bounds[of 146097 "400 * d"] by (auto simp: e_def)
  have "day_from_year (1970 + e - 1) \<le> d" "d < day_from_year (1970 + e + 2)"
    using day_from_year_bounds[of "1970 + e - 1"] day_from_year_bounds[of "1970 + e + 2"] e by auto
  then show ?thesis by (auto simp: year_from_day_def Let_def e_def[symmetric] add.assoc)
qed

lemma day_from_year_mono: "y \<le> z \<Longrightarrow> day_from_year y \<le> day_from_year z"
proof (induction z rule: int_ge_induct)
  case (step i)
  with year_step(1)[of i] show ?case by simp
qed simp

lemma year_from_day_unique:
  assumes "day_from_year y \<le> d" "d < day_from_year (y + 1)"
  shows "year_from_day d = y"
proof (rule ccontr)
  assume "year_from_day d \<noteq> y"
  then consider "year_from_day d + 1 \<le> y" | "y + 1 \<le> year_from_day d" by linarith
  then show False
  proof cases
    case 1
    from day_from_year_mono[OF this] year_from_day[of d] assms show ?thesis by linarith
  next
    case 2
    from day_from_year_mono[OF this] year_from_day[of d] assms show ?thesis by linarith
  qed
qed

lemma daysInMonth_pos [simp]: "0 < daysInMonth y m"
  by (simp add: daysInMonth_def)

definition days_between :: "int \<Rightarrow> nat \<Rightarrow> nat \<Rightarrow> nat" where
  "days_between y m n = sum_list (map (daysInMonth y) [m..<n])"

lemma days_between_same [simp]: "days_between y m m = 0"
  by (simp add: days_between_def)

lemma days_between_step: "m < n \<Longrightarrow> days_between y m n = daysInMonth y m + days_between y (Suc m) n"
  by (simp add: days_between_def upt_conv_Cons)

lemma days_of_year: "int (days_between y 1 13) = day_from_year (y + 1) - day_from_year y"
  unfolding year_length by (simp add: days_between_def upt_rec daysInMonth_def)

lemma month_from_days:
  assumes "m \<le> 12" "d < days_between y m 13" "month_from y m d = (n, k)"
  shows "m \<le> n \<and> n \<le> 12 \<and> 1 \<le> k \<and> k \<le> daysInMonth y n \<and> days_between y m n + k = Suc d"
  using assms
proof (induction y m d rule: month_from.induct)
  case (1 y m d)
  show ?case
  proof (cases "12 \<le> m \<or> d < daysInMonth y m")
    case True
    with "1.prems" have "d < daysInMonth y m" by (auto simp: days_between_def)
    with True "1.prems" show ?thesis by (subst (asm) month_from.simps) auto
  next
    case False
    then have m: "m < 12" "daysInMonth y m \<le> d" by simp_all
    with "1.prems"(2) have "d - daysInMonth y m < days_between y (Suc m) 13" using days_between_step[of m 13 y] by simp
    moreover from False "1.prems"(3) have "month_from y (Suc m) (d - daysInMonth y m) = (n, k)"
      by (subst (asm) month_from.simps) simp
    ultimately have ih: "Suc m \<le> n \<and> n \<le> 12 \<and> 1 \<le> k \<and> k \<le> daysInMonth y n
        \<and> days_between y (Suc m) n + k = Suc (d - daysInMonth y m)"
      using "1.IH"[OF False] m by simp
    moreover from ih have "days_between y m n = daysInMonth y m + days_between y (Suc m) n" by (simp add: days_between_step)
    ultimately show ?thesis using m by linarith
  qed
qed

lemma month_from_unique:
  assumes "m \<le> n" "n \<le> 12" "1 \<le> k" "k \<le> daysInMonth y n"
  shows "month_from y m (days_between y m n + k - 1) = (n, k)"
  using assms
proof (induction "n - m" arbitrary: m)
  case 0
  then have "m = n" by simp
  with 0 show ?case by (subst month_from.simps) auto
next
  case (Suc j)
  then have m: "m < n" "j = n - Suc m" by simp_all
  let ?d = "days_between y m n + k - 1"
  from m Suc.prems have d: "?d = daysInMonth y m + (days_between y (Suc m) n + k - 1)"
    using days_between_step[of m n y] by simp
  from Suc.prems have "\<not> (12 \<le> m \<or> ?d < daysInMonth y m)" using m d by linarith
  then have "month_from y m ?d = month_from y (Suc m) (?d - daysInMonth y m)" by (subst month_from.simps) simp
  with Suc.hyps(1)[OF m(2)] m Suc.prems d show ?case by simp
qed

lemma clock_parts:
  assumes "h \<le> 23" "mi \<le> 59" "s \<le> 59" "ms \<le> 999"
  shows "make_clock h mi s ms div 3600000 = h" "make_clock h mi s ms div 60000 mod 60 = mi"
    "make_clock h mi s ms div 1000 mod 60 = s" "make_clock h mi s ms mod 1000 = ms"
    "make_clock h mi s ms < 86400000"
proof -
  have "make_clock h mi s ms = h * 3600000 + (mi * 60000 + (s * 1000 + ms))" by (simp add: make_clock_def algebra_simps)
  with assms show "make_clock h mi s ms div 3600000 = h" "make_clock h mi s ms < 86400000" by simp_all
  have "make_clock h mi s ms = (h * 60 + mi) * 60000 + (s * 1000 + ms)" by (simp add: make_clock_def algebra_simps)
  with assms have "make_clock h mi s ms div 60000 = h * 60 + mi" by simp
  with assms show "make_clock h mi s ms div 60000 mod 60 = mi" by simp
  have c: "make_clock h mi s ms = ((h * 60 + mi) * 60 + s) * 1000 + ms" by (simp add: make_clock_def)
  with assms have "make_clock h mi s ms div 1000 = (h * 60 + mi) * 60 + s" by simp
  with assms(3) show "make_clock h mi s ms div 1000 mod 60 = s" by (simp only: mod_mult_self3 mod_less)
  from assms(4) have "ms < 1000" by simp
  then show "make_clock h mi s ms mod 1000 = ms" unfolding c by (simp only: mod_mult_self3 mod_less)
qed

lemma make_day_between: "make_day y m d = day_from_year y + int (days_between y 1 m) + int d - 1"
  by (simp add: make_day_def days_before_month_def days_between_def)

lemma days_before_year_end:
  assumes "1 \<le> m" "m \<le> 12" "d \<le> daysInMonth y m"
  shows "days_between y 1 m + d \<le> days_between y 1 13"
proof -
  from assms have "[1..<13] = [1..<m] @ [m..<13]" "[m..<13] = m # [Suc m..<13]"
    using upt_add_eq_append[of 1 m "13 - m"] upt_conv_Cons[of m 13] by simp_all
  with assms(3) show ?thesis by (simp add: days_between_def)
qed

lemma split_make:
  assumes "valid_date_time x"
  shows "split_time (make_time x) = x"
proof -
  let ?c = "make_clock (dt_hour x) (dt_minute x) (dt_second x) (dt_ms x)"
  let ?d = "make_day (dt_year x) (dt_month x) (dt_day x)"
  note v = assms[unfolded valid_date_time_def]
  have c: "?c < 86400000" by (rule clock_parts(5)) (use v in auto)
  have t: "make_time x div 86400000 = ?d" "nat (make_time x mod 86400000) = ?c"
    using c by (simp_all add: make_time_def)
  have "day_from_year (dt_year x) \<le> ?d" "?d < day_from_year (dt_year x + 1)"
    using v days_before_year_end[of "dt_month x" "dt_day x" "dt_year x"] days_of_year[of "dt_year x"]
    by (auto simp: make_day_between)
  from year_from_day_unique[OF this] have y: "year_from_day ?d = dt_year x" .
  have "nat (?d - day_from_year (dt_year x)) = days_between (dt_year x) 1 (dt_month x) + dt_day x - 1"
    using v by (simp add: make_day_between nat_diff_distrib' nat_add_distrib)
  with month_from_unique[of 1 "dt_month x" "dt_day x" "dt_year x"] v
  have "month_from (dt_year x) 1 (nat (?d - day_from_year (dt_year x))) = (dt_month x, dt_day x)" by simp
  with v show ?thesis unfolding split_time_def t Let_def y by (simp add: clock_parts)
qed

lemma make_split: "make_time (split_time t) = t" "valid_date_time (split_time t)"
proof -
  define d c y where dcy: "d = t div 86400000" "c = nat (t mod 86400000)" "y = year_from_day d"
  obtain m k where mk: "month_from y 1 (nat (d - day_from_year y)) = (m, k)" by fastforce
  from year_from_day[of d] have yd: "day_from_year y \<le> d" "d < day_from_year (y + 1)" by (simp_all add: dcy)
  then have "nat (d - day_from_year y) < days_between y 1 13" using days_of_year[of y] by linarith
  from month_from_days[OF _ this mk]
  have m: "1 \<le> m" "m \<le> 12" "1 \<le> k" "k \<le> daysInMonth y m" "days_between y 1 m + k = Suc (nat (d - day_from_year y))"
    by simp_all
  have c: "c < 86400000" using pos_mod_bound[of 86400000 t] by (simp add: dcy(2))
  have t: "t = d * 86400000 + int c" by (simp add: dcy)
  have s: "split_time t = \<lparr>dt_year = y, dt_month = m, dt_day = k, dt_hour = c div 3600000,
      dt_minute = c div 60000 mod 60, dt_second = c div 1000 mod 60, dt_ms = c mod 1000\<rparr>"
    unfolding split_time_def Let_def dcy(1,2)[symmetric] unfolding dcy(3)[symmetric] mk by simp
  have "c div 60000 = c div 3600000 * 60 + c div 60000 mod 60" "c div 1000 = c div 60000 * 60 + c div 1000 mod 60"
    using div_mult2_eq[of c 60000 60] div_mult2_eq[of c 1000 60] by (simp_all add: mult.commute)
  then have "make_clock (c div 3600000) (c div 60000 mod 60) (c div 1000 mod 60) (c mod 1000) = c"
    by (simp add: make_clock_def)
  moreover have "make_day y m k = d" using m(5) yd(1) by (simp add: make_day_between)
  ultimately show "make_time (split_time t) = t" unfolding s make_time_def by (simp add: t)
  from c have "c div 3600000 \<le> 23" by (simp add: div_le_mono less_mult_imp_div_less[of c 24 3600000, simplified] Suc_le_eq[symmetric])
  moreover have "c div 60000 mod 60 < 60" "c div 1000 mod 60 < 60" "c mod 1000 < 1000" by simp_all
  ultimately show "valid_date_time (split_time t)" using m by (simp add: s valid_date_time_def Suc_le_eq[symmetric])
qed

section \<open>Canonical text\<close>

definition padded :: "nat \<Rightarrow> nat \<Rightarrow> string" where
  "padded k n = padStart k CHR ''0'' (nat_str n)"

definition max_time :: int where
  "max_time = 8640000000000000"

definition valid_time :: "int \<Rightarrow> bool" where
  "valid_time t \<longleftrightarrow> \<bar>t\<bar> \<le> max_time"

definition year_text :: "int \<Rightarrow> string" where
  "year_text y =
     (if 0 \<le> y \<and> y \<le> 9999 then padded 4 (nat y)
      else (if y < 0 then CHR ''-'' else CHR ''+'') # padded 6 (nat \<bar>y\<bar>))"

definition clock_text :: "date_time \<Rightarrow> string" where
  "clock_text x = CHR ''-'' # padded 2 (dt_month x) @ CHR ''-'' # padded 2 (dt_day x) @ CHR ''T'' # padded 2 (dt_hour x)
     @ CHR '':'' # padded 2 (dt_minute x) @ CHR '':'' # padded 2 (dt_second x) @ CHR ''.'' # padded 3 (dt_ms x) @ ''Z''"

definition toISOString :: "int \<Rightarrow> string" where
  "toISOString t = year_text (dt_year (split_time t)) @ clock_text (split_time t)"

text \<open>Reading fields of a fixed number of digits and separators.\<close>

definition digits :: "nat \<Rightarrow> string \<Rightarrow> (nat \<times> string) option" where
  "digits k s = (if length (take k s) = k \<and> list_all is_digit (take k s) then Some (digits_val (take k s), drop k s) else None)"

fun literal :: "char \<Rightarrow> string \<Rightarrow> string option" where
  "literal c (x # s) = (if x = c then Some s else None)"
| "literal c [] = None"

definition field :: "char \<Rightarrow> nat \<Rightarrow> string \<Rightarrow> (nat \<times> string) option" where
  "field c k s = Option.bind (literal c s) (digits k)"

text \<open>
  \<open>new Date(value)\<close> on the form \<open>toISOString\<close> prints; what an engine makes of any other text is never
  equal to its rendering.
\<close>

definition parse_year :: "string \<Rightarrow> (int \<times> string) option" where
  "parse_year s = (case s of
     [] \<Rightarrow> None
   | c # r \<Rightarrow>
       if c = CHR ''-'' then map_option (\<lambda>(n, r). (- int n, r)) (digits 6 r)
       else if c = CHR ''+'' then map_option (\<lambda>(n, r). (int n, r)) (digits 6 r)
       else map_option (\<lambda>(n, r). (int n, r)) (digits 4 s))"

definition parse_iso :: "string \<Rightarrow> date_time option" where
  "parse_iso s = Option.bind (parse_year s) (\<lambda>(y, s). Option.bind (field CHR ''-'' 2 s) (\<lambda>(m, s).
     Option.bind (field CHR ''-'' 2 s) (\<lambda>(d, s). Option.bind (field CHR ''T'' 2 s) (\<lambda>(h, s).
     Option.bind (field CHR '':'' 2 s) (\<lambda>(mi, s). Option.bind (field CHR '':'' 2 s) (\<lambda>(sec, s).
     Option.bind (field CHR ''.'' 3 s) (\<lambda>(ms, s). if s = ''Z'' then
       Some \<lparr>dt_year = y, dt_month = m, dt_day = d, dt_hour = h, dt_minute = mi, dt_second = sec, dt_ms = ms\<rparr>
     else None)))))))"

definition isCanonicalIsoTimestamp :: "string \<Rightarrow> bool" where
  "isCanonicalIsoTimestamp value = (case parse_iso value of
     Some x \<Rightarrow> valid_time (make_time x) \<and> toISOString (make_time x) = value
   | None \<Rightarrow> False)"

section \<open>Wire text\<close>

record wire_match =
  wm_date :: date_time
  wm_offset :: "(bool \<times> nat \<times> nat) option"

text \<open>The optional fraction of one to three digits, as milliseconds.\<close>

definition parse_fraction :: "string \<Rightarrow> (nat \<times> string) option" where
  "parse_fraction s = (case literal CHR ''.'' s of
     None \<Rightarrow> Some (0, s)
   | Some r \<Rightarrow> let ds = takeWhile is_digit r
       in if 1 \<le> length ds \<and> length ds \<le> 3 then Some (digits_val ds * 10 ^ (3 - length ds), drop (length ds) r) else None)"

definition parse_offset :: "string \<Rightarrow> (bool \<times> nat \<times> nat) option option" where
  "parse_offset s = (case s of
     [] \<Rightarrow> None
   | c # r \<Rightarrow>
       if c = CHR ''Z'' then (if r = [] then Some None else None)
       else if c = CHR ''+'' \<or> c = CHR ''-'' then
         Option.bind (digits 2 r) (\<lambda>(h, r). Option.bind (field CHR '':'' 2 r) (\<lambda>(m, r).
           if r = [] then Some (Some (c = CHR ''-'', h, m)) else None))
       else None)"

definition wire_timestamp :: "string \<Rightarrow> wire_match option" where
  "wire_timestamp s = Option.bind (digits 4 s) (\<lambda>(y, s). Option.bind (field CHR ''-'' 2 s) (\<lambda>(m, s).
     Option.bind (field CHR ''-'' 2 s) (\<lambda>(d, s). Option.bind (field CHR ''T'' 2 s) (\<lambda>(h, s).
     Option.bind (field CHR '':'' 2 s) (\<lambda>(mi, s). Option.bind (field CHR '':'' 2 s) (\<lambda>(sec, s).
     Option.bind (parse_fraction s) (\<lambda>(ms, s). Option.bind (parse_offset s) (\<lambda>offset.
       Some \<lparr>wm_date = \<lparr>dt_year = int y, dt_month = m, dt_day = d, dt_hour = h, dt_minute = mi, dt_second = sec, dt_ms = ms\<rparr>,
             wm_offset = offset\<rparr>))))))))"

definition offset_ms :: "(bool \<times> nat \<times> nat) option \<Rightarrow> int" where
  "offset_ms offset = (case offset of
     None \<Rightarrow> 0
   | Some (negative, h, m) \<Rightarrow> (if negative then - 1 else 1) * int ((h * 60 + m) * 60000))"

definition wire_time :: "wire_match \<Rightarrow> int" where
  "wire_time w = make_time (wm_date w) - offset_ms (wm_offset w)"

definition normalizeWireTimestamp :: "string \<Rightarrow> string option" where
  "normalizeWireTimestamp value = (case wire_timestamp value of
     None \<Rightarrow> None
   | Some w \<Rightarrow>
       let x = wm_date w
       in if dt_month x < 1 \<or> dt_month x > 12 \<or> dt_day x < 1 \<or> dt_day x > daysInMonth (dt_year x) (dt_month x)
           \<or> dt_hour x > 23 \<or> dt_minute x > 59 \<or> dt_second x > 59
           \<or> (case wm_offset w of None \<Rightarrow> False | Some (_, h, m) \<Rightarrow> h > 23 \<or> m > 59) then None
         else if valid_time (wire_time w) then Some (toISOString (wire_time w)) else None)"

section \<open>Printing and reading are inverse\<close>

lemma padded_ok:
  assumes "0 < k" "n < 10 ^ k"
  shows "length (padded k n) = k" "list_all is_digit (padded k n)" "digits_val (padded k n) = n"
  using length_nat_str[OF assms] nat_str_digits[of n]
  by (auto simp: padded_def padStart_def digits_val_zeros digits_val_nat_str list_all_iff)

lemma digits_padded: "0 < k \<Longrightarrow> n < 10 ^ k \<Longrightarrow> digits k (padded k n @ r) = Some (n, r)"
  by (simp add: digits_def padded_ok)

lemma field_padded: "0 < k \<Longrightarrow> n < 10 ^ k \<Longrightarrow> field c k (c # padded k n @ r) = Some (n, r)"
  by (simp add: field_def digits_padded)

lemma padded_Cons: "0 < k \<Longrightarrow> n < 10 ^ k \<Longrightarrow> \<exists>c cs. padded k n = c # cs \<and> is_digit c"
  using padded_ok[of k n] by (cases "padded k n") auto

lemma parse_year_text:
  assumes "\<bar>y\<bar> < 10 ^ 6"
  shows "parse_year (year_text y @ r) = Some (y, r)"
proof (cases "0 \<le> y \<and> y \<le> 9999")
  case True
  then have n: "nat y < 10 ^ 4" by (simp add: nat_less_iff)
  from padded_Cons[OF _ n] obtain c cs where c: "padded 4 (nat y) = c # cs" "is_digit c" by auto
  then have "c \<noteq> CHR ''-''" "c \<noteq> CHR ''+''" by (auto simp: is_digit_def)
  with True c digits_padded[OF _ n, of r] show ?thesis by (simp add: parse_year_def year_text_def)
next
  case False
  from assms have n: "nat \<bar>y\<bar> < 10 ^ 6" by simp
  from False digits_padded[OF _ n, of r] show ?thesis by (auto simp: parse_year_def year_text_def)
qed

lemma year_bound:
  assumes "valid_time t"
  shows "\<bar>dt_year (split_time t)\<bar> < 10 ^ 6"
proof -
  let ?d = "t div 86400000" and ?y = "dt_year (split_time t)"
  define d where "d = ?d"
  have d: "- 100000000 \<le> d" "d \<le> 100000000" unfolding d_def using assms by (auto simp: valid_time_def max_time_def)
  have "?y = year_from_day ?d" by (simp add: split_time_def Let_def)
  with year_from_day[of d] have y: "day_from_year ?y \<le> d" "d < day_from_year (?y + 1)" by (simp_all add: d_def)
  from d y day_from_year_bounds(2)[of ?y]
  have "?y < 1000000" by (simp add: algebra_simps)
  moreover from d y have "- 1000000 < ?y" using day_from_year_bounds(1)[of "?y + 1"] by (simp add: algebra_simps)
  ultimately show ?thesis by simp
qed

lemma split_fields:
  "dt_month (split_time t) < 10 ^ 2" "dt_day (split_time t) < 10 ^ 2" "dt_hour (split_time t) < 10 ^ 2"
  "dt_minute (split_time t) < 10 ^ 2" "dt_second (split_time t) < 10 ^ 2" "dt_ms (split_time t) < 10 ^ 3"
proof -
  have "daysInMonth y m < 100" for y m by (simp add: daysInMonth_def)
  with make_split(2)[of t] show "dt_month (split_time t) < 10 ^ 2" "dt_day (split_time t) < 10 ^ 2"
    "dt_hour (split_time t) < 10 ^ 2" "dt_minute (split_time t) < 10 ^ 2" "dt_second (split_time t) < 10 ^ 2"
    "dt_ms (split_time t) < 10 ^ 3"
    by (auto simp: valid_date_time_def intro: le_less_trans)
qed

lemmas read_clock = field_padded[OF _ split_fields(1)] field_padded[OF _ split_fields(2)] field_padded[OF _ split_fields(3)]
  field_padded[OF _ split_fields(4)] field_padded[OF _ split_fields(5)] field_padded[OF _ split_fields(6)]

lemma parse_iso_text:
  assumes "valid_time t"
  shows "parse_iso (toISOString t) = Some (split_time t)"
  by (simp add: parse_iso_def toISOString_def clock_text_def parse_year_text[OF year_bound[OF assms]] read_clock)

lemma canonical_iff: "isCanonicalIsoTimestamp s \<longleftrightarrow> (\<exists>t. valid_time t \<and> s = toISOString t)"
  by (auto simp: isCanonicalIsoTimestamp_def parse_iso_text make_split split: option.splits)

lemma parse_fraction_padded: "n < 10 ^ 3 \<Longrightarrow> parse_fraction (CHR ''.'' # padded 3 n @ ''Z'') = Some (n, ''Z'')"
proof -
  assume n: "n < 10 ^ 3"
  have "\<not> is_digit CHR ''Z''" by (simp add: is_digit_def)
  with padded_ok[OF _ n] have "takeWhile is_digit (padded 3 n @ ''Z'') = padded 3 n"
    by (simp add: takeWhile_append2 list_all_iff)
  with padded_ok[OF _ n] show ?thesis by (simp add: parse_fraction_def Let_def)
qed

lemma wire_timestamp_text:
  assumes "0 \<le> dt_year (split_time t)" "dt_year (split_time t) \<le> 9999"
  shows "wire_timestamp (toISOString t) = Some \<lparr>wm_date = split_time t, wm_offset = None\<rparr>"
proof -
  have "nat (dt_year (split_time t)) < 10 ^ 4" using assms by simp
  with assms digits_padded[OF _ this] show ?thesis
    by (simp add: wire_timestamp_def toISOString_def year_text_def clock_text_def read_clock
        parse_fraction_padded[OF split_fields(6)] parse_offset_def)
qed

lemma normalize_text:
  assumes "valid_time t" "0 \<le> dt_year (split_time t)" "dt_year (split_time t) \<le> 9999"
  shows "normalizeWireTimestamp (toISOString t) = Some (toISOString t)"
proof -
  have "wire_time \<lparr>wm_date = split_time t, wm_offset = None\<rparr> = t" by (simp add: wire_time_def offset_ms_def make_split)
  with make_split(2)[of t] assms(1) show ?thesis
    by (simp add: normalizeWireTimestamp_def wire_timestamp_text[OF assms(2,3)] valid_date_time_def)
qed

text \<open>A year in four digits is how a rendered time starts exactly when no sign precedes it.\<close>

definition expanded_year :: "string \<Rightarrow> bool" where
  "expanded_year s \<longleftrightarrow> (\<exists>r. s = CHR ''+'' # r) \<or> (\<exists>r. s = CHR ''-'' # r)"

lemma expanded_year_text:
  "expanded_year (toISOString t) \<longleftrightarrow> \<not> (0 \<le> dt_year (split_time t) \<and> dt_year (split_time t) \<le> 9999)"
proof (cases "0 \<le> dt_year (split_time t) \<and> dt_year (split_time t) \<le> 9999")
  case True
  then have "nat (dt_year (split_time t)) < 10 ^ 4" by (simp add: nat_less_iff)
  from padded_Cons[OF _ this] True show ?thesis
    by (auto simp: expanded_year_def toISOString_def year_text_def is_digit_def)
next
  case False
  then show ?thesis by (auto simp: expanded_year_def toISOString_def year_text_def)
qed

lemma normalize_canonical: "isCanonicalIsoTimestamp s \<Longrightarrow> \<not> expanded_year s \<Longrightarrow> normalizeWireTimestamp s = Some s"
  by (auto simp: canonical_iff expanded_year_text intro: normalize_text)

lemma normalize_is_canonical:
  assumes "normalizeWireTimestamp s = Some u"
  obtains w where "wire_timestamp s = Some w" "u = toISOString (wire_time w)" "valid_time (wire_time w)"
  using assms by (auto simp: normalizeWireTimestamp_def Let_def split: option.splits if_splits)

subsection \<open>Evaluation\<close>

lemma digit_chars:
  "digit_char 0 = CHR ''0''" "digit_char 1 = CHR ''1''" "digit_char 2 = CHR ''2''" "digit_char 3 = CHR ''3''"
  "digit_char 4 = CHR ''4''" "digit_char 5 = CHR ''5''" "digit_char 6 = CHR ''6''" "digit_char 7 = CHR ''7''"
  "digit_char 8 = CHR ''8''" "digit_char 9 = CHR ''9''" "digit_char (Suc 0) = CHR ''1''"
  by code_simp+

lemmas evaluate_text = toISOString_def year_text_def clock_text_def padded_def padStart_def nat_str.simps digit_chars
lemmas evaluate_time = make_time_def make_day_def make_clock_def day_from_year_def days_before_month_def daysInMonth_def
  upt_rec valid_date_time_def
lemmas evaluate_wire = wire_timestamp_def parse_iso_def parse_year_def digits_def field_def digits_val_def digit_val_def
  is_digit_def parse_fraction_def parse_offset_def

text \<open>The parts of a time, from what makes it.\<close>

lemma split_of_make: "valid_date_time x \<Longrightarrow> make_time x = t \<Longrightarrow> split_time t = x"
  using split_make by blast

section \<open>Properties\<close>


lemma ex_split: "split_time 1709159400500 = \<lparr>dt_year = 2024, dt_month = 2, dt_day = 28, dt_hour = 22, dt_minute = 30,
    dt_second = 0, dt_ms = 500\<rparr>"
  by (rule split_of_make) (simp_all add: evaluate_time)


text \<open>
  A time beyond the year 9999 is canonical, so a message with it is encoded, but the form the
  decoder accepts has four digits for the year.
\<close>

lemma ex_far_split: "split_time 253402300800000 = \<lparr>dt_year = 10000, dt_month = 1, dt_day = 1, dt_hour = 0, dt_minute = 0,
    dt_second = 0, dt_ms = 0\<rparr>"
  by (rule split_of_make) (simp_all add: evaluate_time)

lemma far_future_not_decodable:
  "isCanonicalIsoTimestamp ''+010000-01-01T00:00:00.000Z'' \<and> normalizeWireTimestamp ''+010000-01-01T00:00:00.000Z'' = None"
proof
  have "toISOString 253402300800000 = ''+010000-01-01T00:00:00.000Z''" by (simp add: ex_far_split evaluate_text numeral_2_eq_2)
  moreover have "valid_time 253402300800000" by (simp add: valid_time_def max_time_def)
  ultimately show "isCanonicalIsoTimestamp ''+010000-01-01T00:00:00.000Z''" by (metis canonical_iff)
  show "normalizeWireTimestamp ''+010000-01-01T00:00:00.000Z'' = None"
    by (simp add: normalizeWireTimestamp_def evaluate_wire)
qed

end
