(* ===== verification/Integration_Message.thy ===== *)
theory Integration_Message
  imports Json_Values Timestamps Outbox
begin

text \<open>
  Integration messages (src/events/integration-message.ts): creating one from a committed
  domain event, the validation of the envelope, encoding, decoding, and turning a message
  into a committed event of the receiver. A stable message is a fresh frozen copy that nobody else
  refers to, so it is known by its JSON tree; a message an application passes in is a value of the object
  graph.
\<close>

section \<open>The envelope\<close>

definition RELATIONSHIP_FIELDS :: "string list" where
  "RELATIONSHIP_FIELDS = [''correlationId'', ''conversationId'', ''causationId'']"

fun field_of :: "json \<Rightarrow> string \<Rightarrow> json option" where
  "field_of (JsonObj es) k = map_of es k"
| "field_of _ k = None"

fun isJsonObject :: "json \<Rightarrow> bool" where
  "isJsonObject (JsonObj es) = True"
| "isJsonObject _ = False"

definition sub_field :: "json \<Rightarrow> string \<Rightarrow> string \<Rightarrow> json option" where
  "sub_field m k l = Option.bind (field_of m k) (\<lambda>j. field_of j l)"

definition non_empty_string :: "json option \<Rightarrow> bool" where
  "non_empty_string j = (case j of Some (JsonStr s) \<Rightarrow> s \<noteq> [] | _ \<Rightarrow> False)"

text \<open>\<open>Number.isInteger\<close>.\<close>

definition integer_of :: "json option \<Rightarrow> int option" where
  "integer_of j = (case j of Some (JsonNum (Num q)) \<Rightarrow> if of_int \<lfloor>q\<rfloor> = q then Some \<lfloor>q\<rfloor> else None | _ \<Rightarrow> None)"

definition integer_where :: "(int \<Rightarrow> bool) \<Rightarrow> json option \<Rightarrow> bool" where
  "integer_where P j = (case integer_of j of Some i \<Rightarrow> P i | None \<Rightarrow> False)"

definition timestamp_ok :: "bool \<Rightarrow> json option \<Rightarrow> bool" where
  "timestamp_ok wire j = (case j of
     Some (JsonStr s) \<Rightarrow> if wire then normalizeWireTimestamp s \<noteq> None else isCanonicalIsoTimestamp s
   | _ \<Rightarrow> False)"

text \<open>
  The checks in the order of the code, with the path the error names. They read the value after it passed
  \<open>assertJsonValue\<close>, so its properties are those of its tree.
\<close>

definition position_checks :: "json \<Rightarrow> (bool \<times> string) list" where
  "position_checks m =
     (let pos = sub_field m ''position''; version = integer_of (pos ''aggregateVersion''); sequence = integer_of (pos ''commitSequence'')
      in [(integer_where (\<lambda>i. 0 \<le> i) (pos ''aggregateVersion''), ''$.position.aggregateVersion''),
          (integer_where (\<lambda>i. 0 \<le> i) (pos ''commitSequence''), ''$.position.commitSequence''),
          (integer_where (\<lambda>i. sequence \<noteq> None \<and> the sequence < i) (pos ''commitSize''), ''$.position.commitSize''),
          (pos ''previousEventfulAggregateVersion'' \<noteq> None, ''$.position.previousEventfulAggregateVersion''),
          (pos ''previousEventfulAggregateVersion'' = Some JsonNull
             \<or> integer_where (\<lambda>i. 0 \<le> i \<and> version \<noteq> None \<and> i < the version) (pos ''previousEventfulAggregateVersion''),
           ''$.position.previousEventfulAggregateVersion'')])"

definition envelope_checks :: "bool \<Rightarrow> json \<Rightarrow> (bool \<times> string) list" where
  "envelope_checks wire m =
     [(isJsonObject m, ''$''), (non_empty_string (field_of m ''messageId''), ''$.messageId'')]
     @ map (\<lambda>f. (field_of m f = None \<or> non_empty_string (field_of m f), ''$.'' @ f)) RELATIONSHIP_FIELDS
     @ [(non_empty_string (field_of m ''type''), ''$.type''),
        (integer_where (\<lambda>i. 1 \<le> i) (field_of m ''version''), ''$.version''),
        (timestamp_ok wire (field_of m ''occurredAt''), ''$.occurredAt''),
        (field_of m ''payload'' \<noteq> None, ''$.payload''),
        (case field_of m ''metadata'' of None \<Rightarrow> True | Some j \<Rightarrow> isJsonObject j, ''$.metadata'')]
     @ map (\<lambda>f. (sub_field m ''metadata'' f = None, ''$.metadata.'' @ f)) RELATIONSHIP_FIELDS
     @ [(case field_of m ''source'' of None \<Rightarrow> False | Some j \<Rightarrow> isJsonObject j, ''$.source''),
        (non_empty_string (sub_field m ''source'' ''aggregateType''), ''$.source.aggregateType''),
        (non_empty_string (sub_field m ''source'' ''aggregateId''), ''$.source.aggregateId''),
        (case field_of m ''position'' of None \<Rightarrow> False | Some j \<Rightarrow> isJsonObject j, ''$.position'')]
     @ position_checks m"

definition assertEnvelope :: "bool \<Rightarrow> json \<Rightarrow> (js_error, unit) res" where
  "assertEnvelope wire m = all_res (\<lambda>(ok, path). guard_res ok (invalid path)) (envelope_checks wire m)"

definition assertIntegrationMessage :: "realm \<Rightarrow> bool \<Rightarrow> jheap \<Rightarrow> jval \<Rightarrow> (js_error, unit) res" where
  "assertIntegrationMessage realm wire h v = rbind (assertJsonValue realm h v ''$'') (\<lambda>_.
     case json_of h v of Some m \<Rightarrow> assertEnvelope wire m | None \<Rightarrow> Inr ())"

section \<open>Encoding and decoding\<close>

type_synonym host = "nat \<Rightarrow> (js_error, json option) res"

definition syntaxError :: js_error where
  "syntaxError = PlainError ''SyntaxError'' None"

definition normalize_occurredAt :: "json \<Rightarrow> json" where
  "normalize_occurredAt m = (case m of
     JsonObj es \<Rightarrow> (case map_of es ''occurredAt'' of
       Some (JsonStr s) \<Rightarrow> (case normalizeWireTimestamp s of
         Some u \<Rightarrow> JsonObj (jset ''occurredAt'' (JsonStr u) es) | None \<Rightarrow> m)
     | _ \<Rightarrow> m)
   | _ \<Rightarrow> m)"

definition stabilizeIntegrationMessage :: "realm \<Rightarrow> host \<Rightarrow> bool \<Rightarrow> jheap \<Rightarrow> jval \<Rightarrow> (js_error, json) res" where
  "stabilizeIntegrationMessage realm host wire h v =
     rbind (assertIntegrationMessage realm wire h v) (\<lambda>_.
     rbind (json_stringify h host v) (\<lambda>text. case text of
       None \<Rightarrow> Inl syntaxError
     | Some copy \<Rightarrow> Inr (if wire then normalize_occurredAt copy else copy)))"

definition encodeIntegrationMessage :: "realm \<Rightarrow> host \<Rightarrow> jheap \<Rightarrow> jval \<Rightarrow> (js_error, json option) res" where
  "encodeIntegrationMessage realm host h v =
     rbind (assertIntegrationMessage realm False h v) (\<lambda>_. json_stringify h host v)"

text \<open>The text is known by what \<open>JSON.parse\<close> makes of it, \<open>None\<close> a syntax error.\<close>

definition decodeIntegrationMessage :: "realm \<Rightarrow> host \<Rightarrow> json option \<Rightarrow> (js_error, json) res" where
  "decodeIntegrationMessage realm host serialized =
     (case (case serialized of
          None \<Rightarrow> Inl syntaxError
        | Some j \<Rightarrow> (case build realm j empty_heap of (v, h) \<Rightarrow> stabilizeIntegrationMessage realm host True h v)) of
        Inr m \<Rightarrow> Inr m
      | Inl e \<Rightarrow> (case e of
          KitError (InvalidIntegrationMessageError p) c \<Rightarrow> Inl e
        | _ \<Rightarrow> Inl (KitError (InvalidIntegrationMessageError ''$'') (Some e))))"

section \<open>Creating a message\<close>

text \<open>
  The content the application's mapper returns, by what its properties read; \<open>JUndef\<close> is a
  missing one. The mapper is user code: it may throw, and allocates what it returns.
\<close>

record content =
  ct_type :: jval
  ct_version :: jval
  ct_correlationId :: jval
  ct_conversationId :: jval
  ct_causationId :: jval
  ct_payload :: jval
  ct_metadata :: jval

definition present :: "string \<Rightarrow> jval \<Rightarrow> (string \<times> jval) list" where
  "present k v = (if v = JUndef then [] else [(k, v)])"

definition relationshipHeaders :: "content \<Rightarrow> (string \<times> jval) list" where
  "relationshipHeaders c = present ''correlationId'' (ct_correlationId c) @ present ''conversationId'' (ct_conversationId c)
     @ present ''causationId'' (ct_causationId c)"

definition nat_value :: "nat \<Rightarrow> jval" where
  "nat_value n = JNum (Num (of_nat n))"

definition source_members :: "aggregate_address \<Rightarrow> (string \<times> jval) list" where
  "source_members a = [(''aggregateType'', JStr (addr_type a)), (''aggregateId'', JStr (addr_id a))]"

definition position_members :: "linked_position \<Rightarrow> (string \<times> jval) list" where
  "position_members p = [(''aggregateVersion'', nat_value (aggregateVersion p)), (''commitSequence'', nat_value (commitSequence p)),
     (''commitSize'', nat_value (commitSize p)), (''previousEventfulAggregateVersion'',
       case previousEventfulAggregateVersion p of None \<Rightarrow> JNull | Some n \<Rightarrow> nat_value n)]"

definition message_members :: "string \<Rightarrow> string \<Rightarrow> content \<Rightarrow> jval \<Rightarrow> jval \<Rightarrow> (string \<times> jval) list" where
  "message_members messageId occurred c source position =
     [(''messageId'', JStr messageId), (''type'', ct_type c), (''version'', ct_version c), (''occurredAt'', JStr occurred)]
     @ relationshipHeaders c @ [(''payload'', ct_payload c)] @ present ''metadata'' (ct_metadata c)
     @ [(''source'', source), (''position'', position)]"

text \<open>\<open>toISOString\<close> of a date, which throws for an invalid one.\<close>

definition date_text :: "js_num \<Rightarrow> (js_error, string) res" where
  "date_text t = (case t of
     Num q \<Rightarrow> if of_int \<lfloor>q\<rfloor> = q \<and> valid_time \<lfloor>q\<rfloor> then Inr (toISOString \<lfloor>q\<rfloor>) else Inl rangeError
   | _ \<Rightarrow> Inl rangeError)"

type_synonym 'p mapper = "'p domain_event \<Rightarrow> jheap \<Rightarrow> (js_error, content \<times> jheap) res"

definition message_object :: "realm \<Rightarrow> string \<Rightarrow> string \<Rightarrow> content \<Rightarrow> aggregate_address \<Rightarrow> linked_position \<Rightarrow> jheap \<Rightarrow> nat \<times> jheap" where
  "message_object realm messageId occurred c source position h =
     (case allocate (parsed_object realm (source_members source)) h of (s, h1) \<Rightarrow>
     (case allocate (parsed_object realm (position_members position)) h1 of (p, h2) \<Rightarrow>
       allocate (parsed_object realm (message_members messageId occurred c (JObj s) (JObj p))) h2))"

definition createIntegrationMessage :: "realm \<Rightarrow> host \<Rightarrow> 'p mapper \<Rightarrow> 'p domain_event \<Rightarrow> aggregate_address \<Rightarrow> linked_position
    \<Rightarrow> jheap \<Rightarrow> (js_error, json) res" where
  "createIntegrationMessage realm host mapper event source position h =
     rbind (mapper event h) (\<lambda>(c, h1).
     rbind (date_text (occurredAt event)) (\<lambda>occurred.
       case message_object realm (eventId event) occurred c source position h1 of (r, h2) \<Rightarrow>
         stabilizeIntegrationMessage realm host False h2 (JObj r)))"

section \<open>Receiving a message\<close>

fun ev_of_json :: "json \<Rightarrow> ev_data" where
  "ev_of_json JsonNull = ENull"
| "ev_of_json (JsonBool b) = EBool b"
| "ev_of_json (JsonNum x) = EPrim x"
| "ev_of_json (JsonStr s) = EStr s"
| "ev_of_json (JsonArr js) = EArr (map ev_of_json js)"
| "ev_of_json (JsonObj es) = EObj (map (\<lambda>(k, j). (k, ev_of_json j)) es)"

definition string_of :: "json option \<Rightarrow> string" where
  "string_of j = (case j of Some (JsonStr s) \<Rightarrow> s | _ \<Rightarrow> [])"

definition nat_of :: "json option \<Rightarrow> nat" where
  "nat_of j = (case integer_of j of Some i \<Rightarrow> nat i | None \<Rightarrow> 0)"

fun members :: "json option \<Rightarrow> (string \<times> json) list" where
  "members (Some (JsonObj es)) = es"
| "members _ = []"

definition message_relationships :: "json \<Rightarrow> (string \<times> json) list" where
  "message_relationships m = concat (map (\<lambda>f. case field_of m f of Some j \<Rightarrow> [(f, j)] | None \<Rightarrow> []) RELATIONSHIP_FIELDS)"

text \<open>The spread of the message's metadata and then of its relationship headers.\<close>

definition localEventMetadata :: "json \<Rightarrow> metadata_obj option" where
  "localEventMetadata m =
     (if field_of m ''metadata'' = None \<and> message_relationships m = [] then None
      else Some (fold (\<lambda>(k, j). jset (KStr k) (ev_of_json j, True)) (members (field_of m ''metadata'') @ message_relationships m) []))"

definition message_time :: "json \<Rightarrow> js_num" where
  "message_time m = (case parse_iso (string_of (field_of m ''occurredAt'')) of Some x \<Rightarrow> Num (of_int (make_time x)) | None \<Rightarrow> NaN)"

definition message_source :: "json \<Rightarrow> aggregate_address" where
  "message_source m = \<lparr>addr_type = string_of (sub_field m ''source'' ''aggregateType''),
     addr_id = string_of (sub_field m ''source'' ''aggregateId'')\<rparr>"

definition message_position :: "json \<Rightarrow> linked_position" where
  "message_position m = (let pos = sub_field m ''position'' in
     \<lparr>aggregateVersion = nat_of (pos ''aggregateVersion''), commitSequence = nat_of (pos ''commitSequence''),
      commitSize = nat_of (pos ''commitSize''),
      previousEventfulAggregateVersion = (if pos ''previousEventfulAggregateVersion'' = Some JsonNull then None
        else Some (nat_of (pos ''previousEventfulAggregateVersion'')))\<rparr>)"

definition integrationMessageToCommittedEvent :: "realm \<Rightarrow> host \<Rightarrow> jheap \<Rightarrow> jval
    \<Rightarrow> (js_error, ev_data domain_event \<times> aggregate_address \<times> linked_position) res" where
  "integrationMessageToCommittedEvent realm host h v =
     rbind (stabilizeIntegrationMessage realm host False h v) (\<lambda>m.
     rbind (mintDomainEvent (string_of (field_of m ''type''))
         (case field_of m ''payload'' of Some j \<Rightarrow> ev_of_json j | None \<Rightarrow> EUndef)
         \<lparr>opt_eventId = Some (string_of (field_of m ''messageId'')), opt_aggregateId = Some (addr_id (message_source m)),
          opt_aggregateType = Some (addr_type (message_source m)), opt_occurredAt = Some (message_time m),
          opt_version = Some (nat_of (field_of m ''version'')), opt_metadata = localEventMetadata m\<rparr> [] None) (\<lambda>event.
     Inr (event, message_source m, message_position m)))"

section \<open>Validation\<close>

lemma message_accepted:
  "assertIntegrationMessage realm wire h v = Inr () \<longleftrightarrow> (\<exists>m. denotes realm h v m \<and> assertEnvelope wire m = Inr ())"
proof
  assume a: "assertIntegrationMessage realm wire h v = Inr ()"
  then have "assertJsonValue realm h v ''$'' = Inr ()" by (simp add: assertIntegrationMessage_def)
  then obtain m where m: "denotes realm h v m" using check_denotes unfolding assertJsonValue_def by blast
  with a denotes_checked(2)[OF m] show "\<exists>m. denotes realm h v m \<and> assertEnvelope wire m = Inr ()"
    by (auto simp: assertIntegrationMessage_def)
next
  assume "\<exists>m. denotes realm h v m \<and> assertEnvelope wire m = Inr ()"
  then obtain m where "denotes realm h v m" "assertEnvelope wire m = Inr ()" by blast
  with denotes_checked(1,2)[OF this(1)] show "assertIntegrationMessage realm wire h v = Inr ()"
    by (simp add: assertIntegrationMessage_def)
qed

lemma envelope_error: "message_error (assertEnvelope wire m)"
proof -
  have "message_error (all_res (\<lambda>(ok, path). guard_res ok (invalid path)) cs)" for cs
  proof (induction cs)
    case (Cons c cs)
    then show ?case by (cases c) (auto simp: guard_res_def)
  qed simp
  then show ?thesis by (simp add: assertEnvelope_def)
qed

lemma assert_error: "message_error (assertIntegrationMessage realm wire h v)"
proof (cases "assertJsonValue realm h v ''$''")
  case (Inl e)
  have "message_error (assertJsonValue realm h v ''$'')" unfolding assertJsonValue_def by (rule check_value_error) simp_all
  with Inl show ?thesis by (simp add: assertIntegrationMessage_def)
next
  case (Inr u)
  with envelope_error show ?thesis by (auto simp: assertIntegrationMessage_def split: option.splits)
qed

lemma stabilized:
  assumes "denotes realm h v m" "no_special_objects realm h" "assertEnvelope wire m = Inr ()"
  shows "stabilizeIntegrationMessage realm host wire h v = Inr (if wire then normalize_occurredAt m else m)"
proof -
  have "assertIntegrationMessage realm wire h v = Inr ()" using assms(1,3) message_accepted by blast
  with denotes_checked(3)[OF assms(1,2)] show ?thesis by (simp add: stabilizeIntegrationMessage_def)
qed

section \<open>The wire form of a canonical message\<close>

definition wire_safe :: "json \<Rightarrow> bool" where
  "wire_safe m \<longleftrightarrow> \<not> expanded_year (string_of (field_of m ''occurredAt''))"

lemma envelope_iff:
  "assertEnvelope wire m = Inr () \<longleftrightarrow>
     timestamp_ok wire (field_of m ''occurredAt'')
     \<and> (\<forall>c \<in> set (envelope_checks False m). snd c \<noteq> ''$.occurredAt'' \<longrightarrow> fst c)"
  by (auto simp: assertEnvelope_def envelope_checks_def position_checks_def RELATIONSHIP_FIELDS_def Let_def)

lemma canonical_timestamp:
  "timestamp_ok False j \<Longrightarrow> \<exists>s. j = Some (JsonStr s) \<and> isCanonicalIsoTimestamp s"
  by (auto simp: timestamp_ok_def split: option.splits json.splits)

lemma wire_envelope:
  assumes "assertEnvelope False m = Inr ()" "wire_safe m"
  shows "assertEnvelope True m = Inr ()" "normalize_occurredAt m = m"
proof -
  from assms(1) have "timestamp_ok False (field_of m ''occurredAt'')" by (simp add: envelope_iff)
  then obtain s where s: "field_of m ''occurredAt'' = Some (JsonStr s)" "isCanonicalIsoTimestamp s"
    using canonical_timestamp by blast
  with assms(2) have n: "normalizeWireTimestamp s = Some s" by (simp add: wire_safe_def string_of_def normalize_canonical)
  with s have "timestamp_ok True (field_of m ''occurredAt'')" by (simp add: timestamp_ok_def)
  with assms(1) show "assertEnvelope True m = Inr ()" by (simp add: envelope_iff)
  from s(1) obtain es where es: "m = JsonObj es" "map_of es ''occurredAt'' = Some (JsonStr s)" by (cases m) auto
  have "map_of es k = Some x \<Longrightarrow> jset k x es = es" for k and x :: json by (induction es) auto
  with es n show "normalize_occurredAt m = m" by (simp add: normalize_occurredAt_def)
qed

lemma decode_stable:
  assumes "clean m" "assertEnvelope False m = Inr ()" "wire_safe m"
  shows "decodeIntegrationMessage realm host (Some m) = Inr m"
proof -
  obtain v h where b: "build realm m empty_heap = (v, h)" by force
  from build_empty[OF b] assms(1) have "denotes realm h v m" "no_special_objects realm h" by blast+
  from stabilized[OF this wire_envelope(1)[OF assms(2,3)], of host] wire_envelope(2)[OF assms(2,3)] b
  show ?thesis by (simp add: decodeIntegrationMessage_def)
qed

section \<open>What a decoder returns\<close>

lemma other_checks_same:
  assumes "\<And>k. k \<noteq> ''occurredAt'' \<Longrightarrow> field_of m' k = field_of m k" "isJsonObject m' = isJsonObject m"
  shows "filter (\<lambda>c. snd c \<noteq> ''$.occurredAt'') (envelope_checks False m') = filter (\<lambda>c. snd c \<noteq> ''$.occurredAt'') (envelope_checks False m)"
proof -
  have f: "field_of m' ''messageId'' = field_of m ''messageId''" "field_of m' ''correlationId'' = field_of m ''correlationId''"
    "field_of m' ''conversationId'' = field_of m ''conversationId''" "field_of m' ''causationId'' = field_of m ''causationId''"
    "field_of m' ''type'' = field_of m ''type''" "field_of m' ''version'' = field_of m ''version''"
    "field_of m' ''payload'' = field_of m ''payload''" "field_of m' ''metadata'' = field_of m ''metadata''"
    "field_of m' ''source'' = field_of m ''source''" "field_of m' ''position'' = field_of m ''position''"
    by (rule assms(1), simp)+
  show ?thesis
    by (simp add: envelope_checks_def position_checks_def RELATIONSHIP_FIELDS_def sub_field_def f assms(2))
qed

lemma same_fields_envelope:
  assumes "\<And>k. k \<noteq> ''occurredAt'' \<Longrightarrow> field_of m' k = field_of m k" "isJsonObject m' = isJsonObject m"
    and "assertEnvelope wire m = Inr ()" "timestamp_ok wire' (field_of m' ''occurredAt'')"
  shows "assertEnvelope wire' m' = Inr ()"
proof -
  have same: "filter (\<lambda>c. snd c \<noteq> ''$.occurredAt'') (envelope_checks False m')
      = filter (\<lambda>c. snd c \<noteq> ''$.occurredAt'') (envelope_checks False m)"
    by (rule other_checks_same) (use assms(1,2) in auto)
  define P where "P = (\<lambda>c :: bool \<times> string. snd c \<noteq> ''$.occurredAt'')"
  have all: "(\<forall>c \<in> set cs. snd c \<noteq> ''$.occurredAt'' \<longrightarrow> fst c) \<longleftrightarrow> (\<forall>c \<in> set (filter P cs). fst c)" for cs
    unfolding P_def set_filter by blast
  from assms(3) have "\<forall>c \<in> set (filter P (envelope_checks False m)). fst c" unfolding envelope_iff all by (rule conjunct2)
  then have "\<forall>c \<in> set (filter P (envelope_checks False m')). fst c" unfolding P_def same .
  with assms(4) show ?thesis unfolding envelope_iff all by (rule conjI)
qed

lemma normalized_envelope:
  assumes "assertEnvelope True m = Inr ()" "clean m"
  shows "assertEnvelope False (normalize_occurredAt m) = Inr ()" "clean (normalize_occurredAt m)"
proof -
  from assms(1) have "timestamp_ok True (field_of m ''occurredAt'')" by (simp add: envelope_iff)
  then obtain s u where s: "field_of m ''occurredAt'' = Some (JsonStr s)" "normalizeWireTimestamp s = Some u"
    by (auto simp: timestamp_ok_def split: option.splits json.splits)
  then obtain es where es: "m = JsonObj es" "map_of es ''occurredAt'' = Some (JsonStr s)" by (cases m) auto
  with s have n: "normalize_occurredAt m = JsonObj (jset ''occurredAt'' (JsonStr u) es)" by (simp add: normalize_occurredAt_def)
  from normalize_is_canonical[OF s(2)] have "isCanonicalIsoTimestamp u" unfolding canonical_iff by metis
  then have "timestamp_ok False (field_of (normalize_occurredAt m) ''occurredAt'')" by (simp add: n timestamp_ok_def)
  then show "assertEnvelope False (normalize_occurredAt m) = Inr ()"
    by (rule same_fields_envelope[OF _ _ assms(1), rotated 2]) (simp_all add: n[unfolded es(1)] es(1))
  from assms(2) show "clean (normalize_occurredAt m)" by (auto simp: n[unfolded es(1)] es(1) dest: jset_mem)
qed

section \<open>Reading a created message back\<close>

lemma zip_lookup:
  "list_all2 P (map snd kvs) js \<Longrightarrow> map_of kvs k = Some v \<Longrightarrow> \<exists>j. map_of (zip (map fst kvs) js) k = Some j \<and> P v j"
proof (induction kvs arbitrary: js)
  case (Cons kv kvs)
  then show ?case by (cases kv) (auto simp: list_all2_Cons1 split: if_splits)
qed simp

lemma denotes_object:
  assumes "denotes realm h (JObj r) m" "object_values realm h r kvs"
  obtains js where "m = JsonObj (zip (map fst kvs) js)" "list_all2 (denotes realm h) (map snd kvs) js"
  using assms(1)
proof (rule denotes_obj)
  fix vs js assume "array_values h r vs"
  from not_both_shapes[OF this] assms(2) show thesis by blast
next
  fix kws js assume "m = JsonObj (zip (map fst kws) js)" "object_values realm h r kws" "list_all2 (denotes realm h) (map snd kws) js"
  with object_values_unique[OF assms(2)] that show thesis by blast
qed

lemma member_denotes:
  assumes "denotes realm h (JObj r) m" "obj_at h r = parsed_object realm kvs" "\<forall>k \<in> fst ` set kvs. k \<noteq> ''__proto__''"
    and "map_of kvs k = Some v"
  shows "\<exists>j. field_of m k = Some j \<and> denotes realm h v j"
proof -
  obtain js where "m = JsonObj (zip (map fst kvs) js)" "list_all2 (denotes realm h) (map snd kvs) js"
    using denotes_object[OF assms(1) parsed_object_values[OF assms(2,3)]] .
  with zip_lookup[OF this(2) assms(4)] show ?thesis by simp
qed

lemma denotes_string: "denotes realm h (JStr s) j \<longleftrightarrow> j = JsonStr s"
  by (auto elim: denotes_cases intro: denotes.intros)

lemma denotes_nat: "denotes realm h (nat_value n) j \<longleftrightarrow> j = JsonNum (Num (of_nat n))"
  by (auto simp: nat_value_def elim: denotes_cases intro: denotes.intros)

lemma nat_of_nat: "nat_of (Some (JsonNum (Num (of_nat n)))) = n"
  by (simp add: nat_of_def integer_of_def)

definition fixed_keys :: "(string \<times> jval) list \<Rightarrow> bool" where
  "fixed_keys kvs \<longleftrightarrow> (\<forall>k \<in> fst ` set kvs. k \<noteq> ''__proto__'')"

lemma members_fixed [simp]: "fixed_keys (source_members a)" "fixed_keys (position_members p)" "fixed_keys (message_members i t c s p')"
  by (auto simp: fixed_keys_def source_members_def position_members_def message_members_def relationshipHeaders_def present_def)

lemma object_member:
  "denotes realm h (JObj r) m \<Longrightarrow> obj_at h r = parsed_object realm kvs \<Longrightarrow> fixed_keys kvs \<Longrightarrow> map_of kvs k = Some v \<Longrightarrow>
    \<exists>j. field_of m k = Some j \<and> denotes realm h v j"
  unfolding fixed_keys_def by (rule member_denotes)

lemma message_members_at:
  "map_of (message_members i t c s p) ''messageId'' = Some (JStr i)" "map_of (message_members i t c s p) ''occurredAt'' = Some (JStr t)"
  "map_of (message_members i t c s p) ''source'' = Some s" "map_of (message_members i t c s p) ''position'' = Some p"
  by (simp_all add: message_members_def relationshipHeaders_def present_def map_add_def)

lemma source_read:
  assumes "denotes realm h (JObj s) j" "obj_at h s = parsed_object realm (source_members a)"
  shows "string_of (field_of j ''aggregateType'') = addr_type a" "string_of (field_of j ''aggregateId'') = addr_id a"
  using object_member[OF assms members_fixed(1), of "''aggregateType''"] object_member[OF assms members_fixed(1), of "''aggregateId''"]
  by (auto simp: source_members_def denotes_string string_of_def)

lemma position_read:
  assumes "denotes realm h (JObj p) j" "obj_at h p = parsed_object realm (position_members pos)"
  shows "nat_of (field_of j ''aggregateVersion'') = aggregateVersion pos"
    "nat_of (field_of j ''commitSequence'') = commitSequence pos" "nat_of (field_of j ''commitSize'') = commitSize pos"
    "(if field_of j ''previousEventfulAggregateVersion'' = Some JsonNull then None
      else Some (nat_of (field_of j ''previousEventfulAggregateVersion''))) = previousEventfulAggregateVersion pos"
proof -
  note m = object_member[OF assms members_fixed(2)]
  show "nat_of (field_of j ''aggregateVersion'') = aggregateVersion pos"
    using m[of "''aggregateVersion''"] by (auto simp: position_members_def denotes_nat nat_of_nat)
  show "nat_of (field_of j ''commitSequence'') = commitSequence pos"
    using m[of "''commitSequence''"] by (auto simp: position_members_def denotes_nat nat_of_nat)
  show "nat_of (field_of j ''commitSize'') = commitSize pos"
    using m[of "''commitSize''"] by (auto simp: position_members_def denotes_nat nat_of_nat)
  show "(if field_of j ''previousEventfulAggregateVersion'' = Some JsonNull then None
      else Some (nat_of (field_of j ''previousEventfulAggregateVersion''))) = previousEventfulAggregateVersion pos"
    using m[of "''previousEventfulAggregateVersion''"]
    by (cases "previousEventfulAggregateVersion pos")
      (auto simp: position_members_def denotes_nat nat_of_nat elim: denotes_cases)
qed

lemma message_object_at:
  assumes "message_object realm i t c source position h = (r, h3)"
  obtains s p where "obj_at h3 r = parsed_object realm (message_members i t c (JObj s) (JObj p))"
    "obj_at h3 s = parsed_object realm (source_members source)" "obj_at h3 p = parsed_object realm (position_members position)"
proof -
  obtain s h1 where s: "allocate (parsed_object realm (source_members source)) h = (s, h1)" by force
  obtain p h2 where p: "allocate (parsed_object realm (position_members position)) h1 = (p, h2)" by force
  from assms s p have m: "allocate (parsed_object realm (message_members i t c (JObj s) (JObj p))) h2 = (r, h3)"
    by (simp add: message_object_def)
  have "extends h2 h3" "extends h1 h3" using allocate_extends(1)[OF m] allocate_extends(1)[OF p] extends_trans by blast+
  with allocate_extends(2)[OF m extends_refl] allocate_extends(2)[OF s] allocate_extends(2)[OF p] that show thesis by blast
qed

lemma created_data:
  assumes "message_object realm i t c source position h = (r, h3)" "data_only h" "denotes realm h3 (JObj r) m"
  shows "data_only h3"
proof -
  obtain s h1 where s: "allocate (parsed_object realm (source_members source)) h = (s, h1)" by force
  obtain p h2 where p: "allocate (parsed_object realm (position_members position)) h1 = (p, h2)" by force
  from assms(1) s p have al: "allocate (parsed_object realm (message_members i t c (JObj s) (JObj p))) h2 = (r, h3)"
    by (simp add: message_object_def)
  have "data_object (parsed_object realm (source_members source))" "data_object (parsed_object realm (position_members position))"
    by (auto simp: data_object_def parsed_object_def data_prop_def source_members_def position_members_def nat_value_def is_callable_def
        split: option.splits)
  with allocate_data[OF _ s] allocate_data[OF _ p] assms(2) have h2: "data_only h2" by blast
  have at: "obj_at h3 r = parsed_object realm (message_members i t c (JObj s) (JObj p))" by (rule allocate_extends(2)[OF al extends_refl])
  from parsed_object_values[OF at] have "object_values realm h3 r (message_members i t c (JObj s) (JObj p))"
    using members_fixed(3) by (simp add: fixed_keys_def)
  then obtain js where "list_all2 (denotes realm h3) (map snd (message_members i t c (JObj s) (JObj p))) js"
    using denotes_object[OF assms(3)] by blast
  then have "\<forall>v \<in> set (map snd (message_members i t c (JObj s) (JObj p))). \<exists>j. denotes realm h3 v j"
    by (metis in_set_conv_nth list_all2_conv_all_nth)
  moreover have "\<not> denotes realm h3 (JFun f) j" for f j by (auto elim: denotes.cases)
  ultimately have "data_object (parsed_object realm (message_members i t c (JObj s) (JObj p)))"
    by (auto simp: data_object_def parsed_object_def data_prop_def is_callable_def split: jval.splits)
  with allocate_data[OF h2 al] show ?thesis by blast
qed

section \<open>Minting the received event\<close>

lemma json_data:
  "\<not> has_binary (ev_of_json j)" "cloneable (ev_of_json j)" "ev_of_json j \<noteq> EFun n"
  by (induction j rule: ev_of_json.induct) auto

lemma clone_json: "cloneOwnedEventData (ev_of_json j) = Inr (ev_of_json j)"
  using json_data[of j] by (auto simp: cloneOwnedEventData_def assertNoBinaryData_def split: ev_data.splits)

definition json_metadata :: "metadata_obj \<Rightarrow> bool" where
  "json_metadata md \<longleftrightarrow> (\<forall>e \<in> set md. \<exists>k j. k \<noteq> ''__proto__'' \<and> e = (KStr k, ev_of_json j, True))"

lemma json_metadata_fold:
  "json_metadata md \<Longrightarrow> \<forall>e \<in> set es. fst e \<noteq> ''__proto__'' \<Longrightarrow>
    json_metadata (fold (\<lambda>(k, j). jset (KStr k) (ev_of_json j, True)) es md)"
proof (induction es arbitrary: md)
  case (Cons e es)
  have "json_metadata (jset (KStr (fst e)) (ev_of_json (snd e), True) md)"
    using Cons.prems unfolding json_metadata_def by (metis jset_mem prod.collapse list.set_intros(1))
  with Cons show ?case by (simp add: split_def)
qed simp

lemma clone_json_metadata:
  assumes "json_metadata md"
  shows "\<exists>m. guardedMetadataClone (Some md) = Inr (Some m)"
proof -
  have "\<not> jhas md (KStr ''__proto__'')"
    using assms by (auto simp: json_metadata_def dest!: jget_mem)
  moreover have "\<forall>e \<in> set (own_enumerable md). \<exists>j. snd e = ev_of_json j"
    using assms by (fastforce simp: json_metadata_def own_enumerable_def split: pkey.splits if_splits)
  then have "\<not> has_binary (EObj (own_enumerable md))" "cloneable (EObj (own_enumerable md))"
    using json_data by (metis (no_types, lifting) has_binary.simps(5), metis (no_types, lifting) cloneable.simps(7))
  ultimately show ?thesis
    by (simp add: guardedMetadataClone_def assertNoHostileOwnProtoKey_def cloneOwnedEventData_def assertNoBinaryData_def)
qed

lemma metadata_cloned:
  assumes "clean m"
  shows "\<exists>md. guardedMetadataClone (localEventMetadata m) = Inr md"
proof (cases "localEventMetadata m")
  case (Some md)
  have "\<forall>e \<in> set (members (field_of m ''metadata'')). fst e \<noteq> ''__proto__''"
  proof (cases "field_of m ''metadata''")
    case s: (Some j)
    then obtain es where "m = JsonObj es" "map_of es ''metadata'' = Some j" by (cases m) auto
    with assms have "clean j" using jget_mem[of es "''metadata''" j] by fastforce
    with s show ?thesis by (cases j) auto
  qed simp
  moreover have "\<forall>e \<in> set (message_relationships m). fst e \<noteq> ''__proto__''"
    by (auto simp: message_relationships_def RELATIONSHIP_FIELDS_def split: option.splits)
  ultimately have "json_metadata md" using Some json_metadata_fold[of "[]" "members (field_of m ''metadata'') @ message_relationships m"]
    by (auto simp: localEventMetadata_def json_metadata_def[of "[]"] split: if_splits)
  from clone_json_metadata[OF this] Some show ?thesis by auto
qed (simp add: guardedMetadataClone_def)

lemma received:
  assumes "clean m" "stabilizeIntegrationMessage realm host False h v = Inr m" "field_of m ''payload'' \<noteq> None"
  shows "\<exists>event. integrationMessageToCommittedEvent realm host h v = Inr (event, message_source m, message_position m)
    \<and> eventId event = string_of (field_of m ''messageId'') \<and> occurredAt event = message_time m \<and> isMintedEvent event"
proof -
  from metadata_cloned[OF assms(1)] obtain md where md: "guardedMetadataClone (localEventMetadata m) = Inr md" by blast
  from assms(3) obtain j where j: "field_of m ''payload'' = Some j" by blast
  show ?thesis
    by (simp add: integrationMessageToCommittedEvent_def assms(2) j mintDomainEvent_def clone_json md isMintedEvent_def)
qed

section \<open>Properties\<close>


text \<open>
  C38. The decoder is total and its failures are of one kind: for every text it returns a valid message with
  a canonical timestamp, or throws the message error, also when the text is not JSON.
\<close>

theorem decoder_returns_valid_messages:
  "(\<exists>m. decodeIntegrationMessage realm host text = Inr m \<and> clean m \<and> assertEnvelope False m = Inr ())
   \<or> (\<exists>p c. decodeIntegrationMessage realm host text = Inl (KitError (InvalidIntegrationMessageError p) c))"
proof (cases "decodeIntegrationMessage realm host text")
  case (Inl e)
  then have "\<exists>p c. e = KitError (InvalidIntegrationMessageError p) c"
    by (auto simp: decodeIntegrationMessage_def split: option.splits sum.splits js_error.splits kit_error.splits prod.splits)
  with Inl show ?thesis by blast
next
  case (Inr m)
  then obtain j v h where b: "text = Some j" "build realm j empty_heap = (v, h)" "stabilizeIntegrationMessage realm host True h v = Inr m"
    by (auto simp: decodeIntegrationMessage_def split: option.splits sum.splits js_error.splits kit_error.splits prod.splits)
  from b(3) have "assertIntegrationMessage realm True h v = Inr ()" by (simp add: stabilizeIntegrationMessage_def)
  then obtain m' where m: "denotes realm h v m'" "assertEnvelope True m' = Inr ()" using message_accepted by blast
  from stabilized[OF m(1) build_empty(1)[OF b(2)] m(2), of host] b(3) have "m = normalize_occurredAt m'" by simp
  with normalized_envelope[OF m(2) denotes_clean[OF m(1)]] Inr show ?thesis by simp
qed


section \<open>Examples\<close>

definition ex_source :: aggregate_address where
  "ex_source = \<lparr>addr_type = ''Order'', addr_id = ''o-1''\<rparr>"

definition ex_position :: linked_position where
  "ex_position = \<lparr>aggregateVersion = 2, commitSequence = 0, commitSize = 1, previousEventfulAggregateVersion = Some 1\<rparr>"

definition ex_event :: "ev_data domain_event" where
  "ex_event = \<lparr>eventId = ''e-1'', event_type = ''Placed'', ev_aggregateId = Some ''o-1'', ev_aggregateType = Some ''Order'',
     payload = ENull, occurredAt = Num 1709159400500, event_version = 1, metadata = None, minted = True\<rparr>"

definition ex_content :: content where
  "ex_content = \<lparr>ct_type = JStr ''order.placed'', ct_version = JNum (Num 1), ct_correlationId = JStr ''c-1'', ct_conversationId = JUndef,
     ct_causationId = JUndef, ct_payload = JNull, ct_metadata = JUndef\<rparr>"

definition ex_message :: json where
  "ex_message = JsonObj [(''messageId'', JsonStr ''e-1''), (''type'', JsonStr ''order.placed''), (''version'', JsonNum (Num 1)),
     (''occurredAt'', JsonStr ''2024-02-28T22:30:00.500Z''), (''correlationId'', JsonStr ''c-1''), (''payload'', JsonNull),
     (''source'', JsonObj [(''aggregateType'', JsonStr ''Order''), (''aggregateId'', JsonStr ''o-1'')]),
     (''position'', JsonObj [(''aggregateVersion'', JsonNum (Num 2)), (''commitSequence'', JsonNum (Num 0)),
        (''commitSize'', JsonNum (Num 1)), (''previousEventfulAggregateVersion'', JsonNum (Num 1))])]"

lemma ex_time: "toISOString 1709159400500 = ''2024-02-28T22:30:00.500Z''" "valid_time 1709159400500"
  by (simp_all add: evaluate_text ex_split valid_time_def max_time_def)

lemma ex_canonical: "isCanonicalIsoTimestamp ''2024-02-28T22:30:00.500Z''"
  using ex_time unfolding canonical_iff by metis

lemma ex_message_ok: "clean ex_message" "assertEnvelope False ex_message = Inr ()" "wire_safe ex_message"
  using ex_canonical
  by (simp_all add: ex_message_def assertEnvelope_def envelope_checks_def position_checks_def RELATIONSHIP_FIELDS_def
      integer_where_def integer_of_def timestamp_ok_def non_empty_string_def sub_field_def wire_safe_def expanded_year_def string_of_def)

lemma ex_message_built:
  assumes "build ex_realm ex_message empty_heap = (v, h)"
  shows "denotes ex_realm h v ex_message" "no_special_objects ex_realm h"
  using build_empty[OF assms] ex_message_ok(1) by blast+


lemma ex_created:
  "createIntegrationMessage ex_realm (\<lambda>_. Inr None) (\<lambda>_ h. Inr (ex_content, h)) ex_event ex_source ex_position empty_heap = Inr ex_message"
proof -
  obtain v h where b: "build ex_realm ex_message empty_heap = (v, h)" by force
  obtain r h' where r: "message_object ex_realm ''e-1'' ''2024-02-28T22:30:00.500Z'' ex_content ex_source ex_position empty_heap = (r, h')"
    by force
  from b r have "v = JObj r \<and> h = h'"
    by (simp add: ex_message_def message_object_def message_members_def source_members_def position_members_def relationshipHeaders_def
        present_def ex_content_def ex_source_def ex_position_def nat_value_def allocate_def empty_heap_def fresh_ref_def)
  with stabilized[OF ex_message_built[OF b] ex_message_ok(2)] r ex_time show ?thesis
    by (simp add: createIntegrationMessage_def ex_event_def date_text_def)
qed


end
