(* ===== verification/Spec2Isabelle.thy ===== *)
theory Spec2Isabelle
  imports Money State_Machine Machine_Analyzer Projections Dispatcher Event_Store Idempotency Idempotent_Commit Unit_Of_Work
    Deadline_Processor Value_Object Specification Buses Event_Bus Integration_Message
begin

text \<open>
  A model of the domain-driven design kit (TypeScript sources under src/) with proofs of what
  its components promise. This theory joins the components and holds no definition of its own.

  \<^bold>\<open>The program.\<close> An aggregate records events (src/aggregate, src/entity). A use case loads
  aggregates, changes them and commits (src/app/handler.ts, unit-of-work.ts): the transaction
  writes the new events to an outbox next to the state, and only after the commit the aggregates
  are acknowledged and the events published (src/events/event-bus.ts). A dispatcher
  (src/events/outbox-dispatcher.ts) polls the outbox and publishes each event to a sink, for
  example a projector (src/projections), which must see every aggregate's events once and without
  gaps. Commands that may be repeated go through an idempotency store (src/app/idempotency.ts,
  in-memory-idempotency-store.ts). Deadlines (src/deadlines) are a second polled queue. Around this stand
  value utilities: money, domain state machines with their static analysis, value objects with deep equality
  and freezing, specifications, and the command and query buses.

  \<^bold>\<open>Conventions.\<close> A JavaScript \<open>Map\<close> or \<open>Set\<close> is an association list in insertion order
  (\<open>jget\<close>, \<open>jset\<close>, \<open>jdel\<close>, \<open>jhas\<close> of Prelude). An operation that may throw returns
  \<open>Inl error\<close> or \<open>Inr value\<close>; one that may throw after it changed something returns the
  changed state next to that result. \<open>kit\<close> marks the kit's own error classes (Errors). Safe integers
  of the sources are \<open>nat\<close> or \<open>int\<close> once a check has passed, numbers that are still unchecked are
  \<open>js_num\<close> of Js_Objects with NaN, infinities and exact rationals for the doubles, bigints are \<open>int\<close>. Clocks, random sources, transactions,
  sinks, handlers, abort signals and every callback of an application are arguments of the
  definitions. A promise is awaited where the code awaits it, so the steps of one call run in
  their order; what other callers do between two awaits is a list of operations where a
  property speaks of it (paging, leases, listeners that change the bus).

  \<^bold>\<open>Theories and the code they model.\<close>
  Prelude: maps, results, the locale \<open>record_store\<close> of keyed stores.
  Js_Objects: numbers, own properties and prototype classes, \<open>isRecord\<close> and \<open>isPlainRecord\<close> of machine-data.ts.
  Errors, Validation: core/errors.ts and utils/validate.ts.
  Money: src/money. \<open>money\<close> is the frozen object, its operations carry the source's names.
  State_Machine: src/domain-state-machine. Definitions are untyped objects (\<open>jsv\<close>);
  \<open>ensureStableDomainMachineDefinition\<close> validates and copies, \<open>machine_dispatch\<close> and \<open>machine_can\<close> are the class's methods.
  Machine_Analyzer: analyzer.ts.
  Domain_Events: aggregate/domain-event.ts, aggregate-address.ts, clock.ts.
  Outbox: events/outbox.ts; \<open>outbox_state\<close> holds the fields of the class.
  Dispatcher: outbox-dispatcher.ts, delivery-failure.ts, backoff.ts, over the port \<open>outbox_port\<close>.
  Event_Store: repo/in-memory-event-store.ts and in-memory-snapshot-store.ts.
  Projections: projector.ts, in-memory-checkpoint-store.ts, projection-from-handlers.ts.
  Idempotency: app/in-memory-idempotency-store.ts.
  Entity, Aggregates: entity.ts, base-aggregate.ts, aggregate-root.ts, event-sourced-aggregate.ts.
  Commit: handler.ts and repo/retrying-scope.ts; Unit_Of_Work: unit-of-work.ts and repo/identity-map.ts;
  Idempotent_Commit: idempotency.ts, \<open>withIdempotentCommit\<close> as one more callback of \<open>withCommit\<close>.
  Deadline_Store, Deadline_Processor: src/deadlines and utils/poll-loop.ts.
  Js_Heap, Deep_Equal, Deep_Freeze, Value_Object: utils/array and value-object.ts on an explicit
  heap, since sharing, cycles and prototypes matter there.
  Specification: specification.ts. Buses: command-bus.ts, query-bus.ts, bus-internals.ts. Event_Bus: event-bus.ts.
  Timestamps, Json_Values, Integration_Message: events/integration-message.ts, its timestamps, the JSON check on the heap, the message itself.

  \<^bold>\<open>Interfaces.\<close> Where one component relies on another, the laws it needs are a locale, proved
  of the in-memory implementation by an interpretation: \<open>outbox_laws\<close> (Dispatcher on Outbox),
  \<open>deadline_laws\<close> (Deadline_Processor on Deadline_Store), \<open>event_store_laws\<close> (paging readers),
  \<open>checkpoint_laws\<close> (projector), \<open>transaction_scope\<close> with \<open>retried_scope\<close> (commits), \<open>leased_store\<close>
  and \<open>idempotent_commit\<close> (idempotent commands). The in-memory implementations are what the
  repository ships; the proofs of the clients hold of every adapter that keeps the laws.

  \<^bold>\<open>What is shown.\<close>
  Delivery: the outbox keeps its invariant and loses no event; a dispatcher pass publishes a prefix
  in order, at least once; a projector applies every event of an aggregate once and leaves
  no gap, and a replayed batch changes nothing.
  Stores: appends under optimistic concurrency, paging over a growing stream, leases of the
  idempotency store that exclude each other and fence lost claims, fenced deadline acknowledgements.
  Commits: when \<open>withCommit\<close> returns, exactly the pending events of the enrolled aggregates were
  committed in one transaction with the state, when it throws nothing changed; a unit of work
  leaves no change behind and classifies its errors; a command with an idempotency key runs once.
  Aggregates: replay equals application, snapshots equal full replay.
  Values: money keeps its invariant and round-trips; machine definitions are stable copies, dispatch is
  all or nothing, static diagnostics hold of every run; \<open>deepEqual\<close> decides coinductive structural equality and is an
  equivalence, \<open>deepFreeze\<close> freezes what is reachable, \<open>vo\<close> is detached and frozen; names of
  composed specifications identify them; buses route and report every failure.
  Messages: the JSON check accepts exactly the values that denote a JSON tree; an encoded message decodes to
  itself; a committed event reaches its receiver with its identity and its position.

  \<^bold>\<open>Bounds and fuel.\<close> Loops that consume a list are structural. The searches of the analyzer and the
  prototype walk end because a path of nodes cannot repeat. The passes of the dispatcher and of the
  deadline processor take fuel: a batch settles or blocks its records, so one unit per pending record and one
  more is enough, and the properties of the passes prove that a result is returned. \<open>deepEqual\<close> takes as
  fuel the number of reachable pairs of objects and \<open>deepFreeze\<close> the number of reachable objects, plus one;
  each walk marks a new pair or object before it recurses, and it is proved that the fuel is never used up; so it is
  for the JSON check of messages, whose depth its cycle check bounds by the number of objects. The
  data budgets of the machine (depth, nodes, properties) are the code's constants.

  \<^bold>\<open>Not modelled.\<close> Message texts of errors, \<open>Intl\<close> formatting, timers and the promise
  scheduler (their outcomes are parameters), the lock chain of the checkpoint store, which only
  orders concurrent promises, \<open>deepOmit\<close>, the public-error tables and HTTP adapters
  over the packages base-error and result, the grammar of JSON text (a text is the tree it parses to), type-only files, the contract test suites of src/testing, and the
  example application.
\<close>

end
